(* ===== verification/Prelude.thy ===== *)
theory Prelude
  imports Main "HOL-Library.Word" "HOL-Library.AList"
begin

text \<open>
  What every component shares: the machine types of the Go code, Go's run-time panics as
  values, big-endian and little-endian integers, durations and points in time, buffered
  channels of capacity one, and the generic lemmas about lists and association lists that
  the component proofs use.

  The program is written in Go, where a function can return normally or panic. A function
  that can panic has the result type \<open>go_panic + 'a\<close>; \<open>Inl\<close> is the panic and ends the
  process, because the program never calls \<open>recover\<close>.
\<close>

unbundle bit_operations_syntax

named_theorems panic_simps \<open>equations that run the panic monad\<close>
named_theorems chan_simps \<open>equations for the channel operations\<close>

subsection \<open>Machine types\<close>

type_synonym byte = "8 word"
type_synonym u16 = "16 word"
type_synonym u32 = "32 word"
type_synonym u64 = "64 word"
type_synonym bytes = "byte list"

text \<open>
  A slice whose \<open>nil\<close> value the code distinguishes from a non-nil slice (\<open>net.IP\<close>,
  \<open>net.HardwareAddr\<close>): \<open>None\<close> is \<open>nil\<close>.
\<close>

type_synonym ip = "bytes option"
type_synonym hwaddr = "bytes option"

subsection \<open>Panics\<close>

datatype go_panic =
    NilDeref
  | IndexOutOfRange
  | SendOnClosed
  | CloseOfClosed
  | CloseOfNil
  | TypeAssertion

type_synonym 'a result = "go_panic + 'a"

definition bind_r :: "'a result \<Rightarrow> ('a \<Rightarrow> 'b result) \<Rightarrow> 'b result" where
  "bind_r m f = (case m of Inl p \<Rightarrow> Inl p | Inr x \<Rightarrow> f x)"

lemma bind_r_simps [simp, panic_simps]:
  "bind_r (Inl p) f = Inl p"
  "bind_r (Inr x) f = f x"
  by (simp_all add: bind_r_def)

lemma bind_r_eq_Inr: "bind_r m f = Inr y \<longleftrightarrow> (\<exists>x. m = Inr x \<and> f x = Inr y)"
  by (cases m) auto

lemma bind_r_eq_Inl: "bind_r m f = Inl p \<longleftrightarrow> m = Inl p \<or> (\<exists>x. m = Inr x \<and> f x = Inl p)"
  by (cases m) auto

text \<open>Dereferencing a pointer that may be \<open>nil\<close>, and indexing a slice.\<close>

definition deref :: "'a option \<Rightarrow> 'a result" where
  "deref p = (case p of None \<Rightarrow> Inl NilDeref | Some x \<Rightarrow> Inr x)"

lemma deref_simps [simp, panic_simps]:
  "deref None = Inl NilDeref"
  "deref (Some x) = Inr x"
  by (simp_all add: deref_def)

lemma deref_eq_Inr [simp]: "deref p = Inr x \<longleftrightarrow> p = Some x"
  by (cases p) auto

definition index_r :: "'a list \<Rightarrow> nat \<Rightarrow> 'a result" where
  "index_r xs i = (if i < length xs then Inr (xs ! i) else Inl IndexOutOfRange)"

subsection \<open>Fixed-width integers in byte slices\<close>

text \<open>
  \<open>binary.BigEndian.Uint32(b)\<close> reads the first four bytes and panics on a shorter slice;
  \<open>binary.LittleEndian.Uint32(b)\<close> is its mirror image.
\<close>

fun be_uint32 :: "bytes \<Rightarrow> u32 result" where
  "be_uint32 (b0 # b1 # b2 # b3 # _) =
     Inr (push_bit 24 (ucast b0) OR push_bit 16 (ucast b1) OR push_bit 8 (ucast b2) OR ucast b3)"
| "be_uint32 _ = Inl IndexOutOfRange"

fun le_uint32 :: "bytes \<Rightarrow> u32 result" where
  "le_uint32 (b0 # b1 # b2 # b3 # _) =
     Inr (ucast b0 OR push_bit 8 (ucast b1) OR push_bit 16 (ucast b2) OR push_bit 24 (ucast b3))"
| "le_uint32 _ = Inl IndexOutOfRange"

lemma be_uint32_total: "(\<exists>v. be_uint32 b = Inr v) \<longleftrightarrow> 4 \<le> length b"
  by (cases b rule: be_uint32.cases) auto

lemma be_uint32_Inl: "be_uint32 b = Inl p \<longleftrightarrow> p = IndexOutOfRange \<and> length b < 4"
  by (cases b rule: be_uint32.cases) auto

text \<open>\<open>uint8(len(data))\<close>\<close>

definition len8 :: "'a list \<Rightarrow> byte" where
  "len8 xs = of_nat (length xs)"

lemma unat_len8: "unat (len8 xs) = length xs mod 256"
  by (simp add: len8_def unat_of_nat)

lemma unat_len8_small: "length xs < 256 \<Longrightarrow> unat (len8 xs) = length xs"
  by (simp add: unat_len8)

subsection \<open>Durations and time\<close>

text \<open>
  A point in time is an \<open>int\<close>, nanoseconds since the zero value of \<open>time.Time\<close>. A \<open>time.Duration\<close> is an
  \<open>int64\<close> of nanoseconds; \<open>time.Duration(secs) * time.Second\<close> for a \<open>uint32\<close> is computed
  at 64 bits and read as a signed number, as the code does.
\<close>

type_synonym time = int

definition dur_of_secs :: "u32 \<Rightarrow> time" where
  "dur_of_secs v = sint ((ucast v :: u64) * 1000000000)"

lemma uint_u32_less: "uint (v :: u32) < 4294967296"
  using uint_lt2p [of v] by simp

lemma dur_of_secs_eq: "dur_of_secs v = uint v * 1000000000"
proof -
  let ?d = "uint v * 1000000000"
  have hi: "?d < 9223372036854775808" and lo: "- 9223372036854775808 \<le> ?d"
    using uint_u32_less [of v] uint_ge_0 [of v] by linarith+
  have "uint ((ucast v :: u64) * 1000000000) = ?d mod 18446744073709551616"
    by (simp add: uint_word_ariths uint_up_ucast is_up)
  also have "\<dots> = ?d"
    using hi uint_ge_0 [of v] by (intro mod_pos_pos_trivial) linarith+
  finally have u: "uint ((ucast v :: u64) * 1000000000) = ?d" .
  show ?thesis
    unfolding dur_of_secs_def sint_uint u
    by (rule signed_take_bit_int_eq_self) (use hi lo in simp_all)
qed

subsection \<open>Channels of capacity one\<close>

text \<open>
  The state of a Go channel made with \<open>make(chan bool, 1)\<close>: how many values wait in its
  buffer and whether it is closed. A receive is ready when a value waits or the channel is
  closed; a send on a closed channel and a second close panic; a send to a full buffer
  blocks (\<open>None\<close>).
\<close>

record chan1 =
  buffered :: nat
  closed :: bool

definition make_chan1 :: chan1 where
  "make_chan1 = \<lparr>buffered = 0, closed = False\<rparr>"

definition chan_ready :: "chan1 \<Rightarrow> bool" where
  "chan_ready c \<longleftrightarrow> 0 < buffered c \<or> closed c"

definition chan_recv :: "chan1 \<Rightarrow> chan1" where
  "chan_recv c = c\<lparr>buffered := buffered c - 1\<rparr>"

definition chan_close :: "chan1 option \<Rightarrow> chan1 option result" where
  "chan_close ch = (case ch of
       None \<Rightarrow> Inl CloseOfNil
     | Some c \<Rightarrow> if closed c then Inl CloseOfClosed else Inr (Some (c\<lparr>closed := True\<rparr>)))"

definition chan_send :: "chan1 \<Rightarrow> chan1 option result" where
  "chan_send c =
     (if closed c then Inl SendOnClosed
      else if buffered c = 0 then Inr (Some (c\<lparr>buffered := 1\<rparr>)) else Inr None)"

lemma chan_close_simps [chan_simps]:
  "chan_close None = Inl CloseOfNil"
  "closed c \<Longrightarrow> chan_close (Some c) = Inl CloseOfClosed"
  "\<not> closed c \<Longrightarrow> chan_close (Some c) = Inr (Some (c\<lparr>closed := True\<rparr>))"
  by (simp_all add: chan_close_def)

lemma make_chan1_simps [simp, chan_simps]:
  "buffered make_chan1 = 0" "\<not> closed make_chan1" "\<not> chan_ready make_chan1"
  by (simp_all add: make_chan1_def chan_ready_def)

lemma chan_recv_closed [simp]: "closed (chan_recv c) = closed c"
  by (simp add: chan_recv_def)

subsection \<open>Lists and association lists\<close>

text \<open>The position of the first element that satisfies a predicate, Go's search loop.\<close>

fun find_pos :: "('a \<Rightarrow> bool) \<Rightarrow> 'a list \<Rightarrow> nat option" where
  "find_pos P [] = None"
| "find_pos P (x # xs) = (if P x then Some 0 else map_option Suc (find_pos P xs))"

lemma find_pos_None: "find_pos P xs = None \<longleftrightarrow> (\<forall>x \<in> set xs. \<not> P x)"
  by (induction xs) auto

lemma find_pos_Some:
  "find_pos P xs = Some i \<Longrightarrow> i < length xs \<and> P (xs ! i) \<and> find P xs = Some (xs ! i)"
  by (induction xs arbitrary: i) (auto split: if_splits)

lemma find_append: "find P (xs @ ys) = (case find P xs of None \<Rightarrow> find P ys | Some x \<Rightarrow> Some x)"
  by (induction xs) auto

lemma find_pos_find_None: "find_pos P xs = None \<longleftrightarrow> find P xs = None"
  by (auto simp: find_pos_None find_None_iff)

text \<open>Replacing the first match of \<open>P\<close> by another match of \<open>P\<close>.\<close>

lemma find_update_same:
  "find_pos P xs = Some i \<Longrightarrow> P y \<Longrightarrow> find P (xs[i := y]) = Some y"
  by (induction xs arbitrary: i) (auto split: if_splits)

lemma find_update_other:
  "find_pos P xs = Some i \<Longrightarrow> \<not> Q (xs ! i) \<Longrightarrow> \<not> Q y \<Longrightarrow> find Q (xs[i := y]) = find Q xs"
  by (induction xs arbitrary: i) (auto split: if_splits)

lemma map_of_filter_keys:
  "map_of (filter (\<lambda>(k, v). k \<notin> K) al) k = (if k \<in> K then None else map_of al k)"
  by (induction al) auto

lemma map_of_aupdate [simp]: "map_of (AList.update k v al) = (map_of al)(k \<mapsto> v)"
  by (rule update_conv')

lemma map_of_adelete [simp]: "map_of (AList.delete k al) = (map_of al)(k := None)"
  by (rule delete_conv')

subsection \<open>Strings\<close>

text \<open>\<open>strings.HasPrefix\<close>, \<open>strings.Contains\<close>, and \<open>strings.Replace\<close> of the first occurrence.\<close>

definition has_prefix :: "string \<Rightarrow> string \<Rightarrow> bool" where
  "has_prefix s p \<longleftrightarrow> take (length p) s = p"

fun contains :: "string \<Rightarrow> string \<Rightarrow> bool" where
  "contains [] t \<longleftrightarrow> t = []"
| "contains (c # s) t \<longleftrightarrow> has_prefix (c # s) t \<or> contains s t"

lemma contains_self [simp]: "contains s s"
  by (cases s) (simp_all add: has_prefix_def)

fun replace_first :: "string \<Rightarrow> string \<Rightarrow> string \<Rightarrow> string" where
  "replace_first old new [] = (if old = [] then new else [])"
| "replace_first old new (c # s) =
     (if has_prefix (c # s) old then new @ drop (length old) (c # s) else c # replace_first old new s)"

subsection \<open>The interface of a keyed store\<close>

text \<open>
  What a client of a keyed store relies on: a value read back is the value last written
  under that key, and writing one key leaves the others alone. The option list of a packet
  keeps this contract under \<open>SetOption\<close> (\<open>Dhcp_Packet\<close>), the lease store under \<open>Set\<close> and
  \<open>Remove\<close> (\<open>Lease_Store\<close>).
\<close>

locale keyed =
  fixes lookup :: "'s \<Rightarrow> 'k \<Rightarrow> 'v option"
    and put :: "'s \<Rightarrow> 'k \<Rightarrow> 'v \<Rightarrow> 's"
  assumes lookup_put_same: "lookup (put s k v) k = Some v"
    and lookup_put_other: "j \<noteq> k \<Longrightarrow> lookup (put s k v) j = lookup s j"
begin

lemma lookup_put: "lookup (put s k v) j = (if j = k then Some v else lookup s j)"
  by (simp add: lookup_put_same lookup_put_other)

lemma put_put: "lookup (put (put s k v) k w) = lookup (put s k w)"
  by (rule ext) (simp add: lookup_put)

lemma put_commute:
  "j \<noteq> k \<Longrightarrow> lookup (put (put s k v) j w) = lookup (put (put s j w) k v)"
  by (rule ext) (simp add: lookup_put)

text \<open>After a sequence of writes the last write of each key wins.\<close>

lemma lookup_puts:
  "lookup (fold (\<lambda>(k, v) s. put s k v) kvs s) j =
     (case map_of (rev kvs) j of Some v \<Rightarrow> Some v | None \<Rightarrow> lookup s j)"
  by (induction kvs arbitrary: s)
    (auto simp: lookup_put map_add_def split: option.splits)

end

locale keyed_del = keyed lookup put
  for lookup :: "'s \<Rightarrow> 'k \<Rightarrow> 'v option" and put :: "'s \<Rightarrow> 'k \<Rightarrow> 'v \<Rightarrow> 's" +
  fixes del :: "'s \<Rightarrow> 'k \<Rightarrow> 's"
  assumes lookup_del: "lookup (del s k) j = (if j = k then None else lookup s j)"
begin

lemma put_del: "lookup (del (put s k v) k) = lookup (del s k)"
  by (rule ext) (simp add: lookup_put lookup_del)

lemma del_absent: "lookup s k = None \<Longrightarrow> lookup (del s k) = lookup s"
  by (rule ext) (simp add: lookup_del)

lemma lookup_dels: "lookup (fold (\<lambda>k s. del s k) ks s) j = (if j \<in> set ks then None else lookup s j)"
  by (induction ks arbitrary: s) (auto simp: lookup_del)

end

end
