(* ===== verification/Go_Net.thy ===== *)
theory Go_Net
  imports Prelude
begin

text \<open>
  The part of Go's package \<open>net\<close> (Go 1.16, the version of \<open>go.mod\<close>) that the program calls:
  \<open>IP.To4\<close>, \<open>IP.To16\<close>, \<open>IP.Equal\<close>, \<open>IP.String\<close>, \<open>ParseIP\<close>, \<open>ParseMAC\<close>,
  and \<open>HardwareAddr.String\<close>, with the round trips between the
  printers and the parsers. The REST client prints addresses into a URL and the REST server
  parses them back, so these round trips are what the two sides share.
\<close>

subsection \<open>Addresses\<close>

definition v4_prefix :: bytes where
  "v4_prefix = [0, 0, 0, 0, 0, 0, 0, 0, 0, 0, 255, 255]"

definition is_v4_in_v6 :: "bytes \<Rightarrow> bool" where
  "is_v4_in_v6 b \<longleftrightarrow> length b = 16 \<and> take 12 b = v4_prefix"

definition to4 :: "ip \<Rightarrow> ip" where
  "to4 a = (case a of
       None \<Rightarrow> None
     | Some b \<Rightarrow>
         if length b = 4 then Some b
         else if is_v4_in_v6 b then Some (drop 12 b) else None)"

definition to16 :: "ip \<Rightarrow> ip" where
  "to16 a = (case a of
       None \<Rightarrow> None
     | Some b \<Rightarrow>
         if length b = 4 then Some (v4_prefix @ b)
         else if length b = 16 then Some b else None)"

definition slice_bytes :: "bytes option \<Rightarrow> bytes" where
  "slice_bytes a = (case a of None \<Rightarrow> [] | Some b \<Rightarrow> b)"

text \<open>\<open>IP.Equal\<close>: an IPv4 address and the same address in IPv6 form are equal.\<close>

definition ip_equal :: "ip \<Rightarrow> ip \<Rightarrow> bool" where
  "ip_equal a b =
     (let x = slice_bytes a; y = slice_bytes b in
      if length x = length y then x = y
      else if length x = 4 \<and> length y = 16 then y = v4_prefix @ x
      else if length x = 16 \<and> length y = 4 then x = v4_prefix @ y
      else False)"

lemma to4_simps [simp]:
  "to4 None = None"
  "to4 (Some [a, b, c, d]) = Some [a, b, c, d]"
  by (simp_all add: to4_def)

lemma to4_Some: "to4 a = Some b \<Longrightarrow> length b = 4"
  by (auto simp: to4_def is_v4_in_v6_def split: option.splits if_splits)

lemma to4_v4: "length b = 4 \<Longrightarrow> to4 (Some b) = Some b"
  by (simp add: to4_def)

lemma to4_mapped: "length b = 4 \<Longrightarrow> to4 (Some (v4_prefix @ b)) = Some b"
  by (simp add: to4_def is_v4_in_v6_def v4_prefix_def)

lemma to4_idem: "to4 (to4 a) = to4 a"
  by (cases "to4 a") (auto dest: to4_Some simp: to4_v4)

subsection \<open>Printing\<close>

definition digit_char :: "nat \<Rightarrow> char" where
  "digit_char n = ''0123456789abcdef'' ! (n mod 16)"

fun nat_str :: "nat \<Rightarrow> string" where
  "nat_str n = (if n < 10 then [digit_char n] else nat_str (n div 10) @ [digit_char (n mod 10)])"

declare nat_str.simps [simp del]

fun hex_str :: "nat \<Rightarrow> string" where
  "hex_str n = (if n < 16 then [digit_char n] else hex_str (n div 16) @ [digit_char (n mod 16)])"

declare hex_str.simps [simp del]

definition hex2 :: "byte \<Rightarrow> string" where
  "hex2 b = [digit_char (unat b div 16), digit_char (unat b mod 16)]"

fun v4_string :: "bytes \<Rightarrow> string" where
  "v4_string [] = []"
| "v4_string [b] = nat_str (unat b)"
| "v4_string (b # bs) = nat_str (unat b) @ ''.'' @ v4_string bs"

text \<open>An IPv6 address as eight 16-bit groups, printed with its longest run of zeros elided.\<close>

fun groups_of :: "bytes \<Rightarrow> nat list" where
  "groups_of (h # l # bs) = (unat h * 256 + unat l) # groups_of bs"
| "groups_of _ = []"

definition zero_run :: "nat list \<Rightarrow> nat \<Rightarrow> nat" where
  "zero_run gs i = length (takeWhile (\<lambda>g. g = 0) (drop i gs))"

fun longest_run :: "nat \<Rightarrow> nat list \<Rightarrow> nat \<Rightarrow> nat \<times> nat \<Rightarrow> nat \<times> nat" where
  "longest_run 0 gs i best = best"
| "longest_run (Suc fuel) gs i best =
     (if i < length gs
      then (let n = zero_run gs i in
            if snd best < n then longest_run fuel gs (i + n + 1) (i, n)
            else longest_run fuel gs (i + 1) best)
      else best)"

fun v6_groups :: "nat \<Rightarrow> nat list \<Rightarrow> nat \<Rightarrow> nat \<times> nat \<Rightarrow> string" where
  "v6_groups 0 gs i run = []"
| "v6_groups (Suc fuel) gs i run =
     (if i < length gs
      then (if 0 < snd run \<and> i = fst run
            then ''::'' @ (let j = i + snd run in
                  if j < length gs
                  then hex_str (gs ! j) @ v6_groups fuel gs (j + 1) run
                  else [])
            else (if 0 < i then '':'' else []) @ hex_str (gs ! i) @ v6_groups fuel gs (i + 1) run)
      else [])"

definition v6_string :: "bytes \<Rightarrow> string" where
  "v6_string b =
     (let gs = groups_of b; best = longest_run 9 gs 0 (0, 0);
          run = (if snd best \<le> 1 then (0, 0) else best)
      in v6_groups 9 gs 0 run)"

definition ip_string :: "ip \<Rightarrow> string" where
  "ip_string a =
     (let p = slice_bytes a in
      if p = [] then ''<nil>''
      else case to4 a of
          Some b \<Rightarrow> v4_string b
        | None \<Rightarrow> if length p \<noteq> 16 then ''?'' @ concat (map hex2 p) else v6_string p)"

fun mac_string :: "bytes \<Rightarrow> string" where
  "mac_string [] = []"
| "mac_string [b] = hex2 b"
| "mac_string (b # bs) = hex2 b @ '':'' @ mac_string bs"

lemma ip_string_example: "ip_string (Some [192, 168, 1, 46]) = ''192.168.1.46''"
  by code_simp

subsection \<open>Parsing\<close>

definition digit_val :: "nat \<Rightarrow> char \<Rightarrow> nat option" where
  "digit_val base c =
     (let n = of_char c in
      if 48 \<le> n \<and> n \<le> 57 then Some (n - 48)
      else if base = 16 \<and> 97 \<le> n \<and> n \<le> 102 then Some (n - 87)
      else if base = 16 \<and> 65 \<le> n \<and> n \<le> 70 then Some (n - 55)
      else None)"

definition big :: nat where "big = 16777215"

text \<open>
  \<open>dtoi\<close> and \<open>xtoi\<close>: the number at the front of the string, the count of characters
  consumed, and whether it was a number.
\<close>

fun toi_loop :: "nat \<Rightarrow> string \<Rightarrow> nat \<Rightarrow> nat \<Rightarrow> nat \<times> nat \<times> bool" where
  "toi_loop base [] n i = (n, i, True)"
| "toi_loop base (c # cs) n i =
     (case digit_val base c of
        None \<Rightarrow> (n, i, True)
      | Some d \<Rightarrow>
          if big \<le> n * base + d then (big, i, False)
          else toi_loop base cs (n * base + d) (Suc i))"

definition toi :: "nat \<Rightarrow> string \<Rightarrow> nat \<times> nat \<times> bool" where
  "toi base s =
     (case toi_loop base s 0 0 of (n, i, ok) \<Rightarrow>
        if \<not> ok then (n, i, False)
        else if i = 0 then (0, 0, False)
        else (n, i, True))"

definition xtoi2 :: "string \<Rightarrow> char \<Rightarrow> byte option" where
  "xtoi2 s e =
     (if 2 < length s \<and> s ! 2 \<noteq> e then None
      else case toi 16 (take 2 s) of (n, ei, ok) \<Rightarrow>
        if ok \<and> ei = 2 then Some (of_nat n) else None)"

fun parse_v4_loop :: "nat \<Rightarrow> bool \<Rightarrow> string \<Rightarrow> bytes option" where
  "parse_v4_loop 0 later s = (if s = [] then Some [] else None)"
| "parse_v4_loop (Suc k) later s =
     (if s = [] then None
      else if later \<and> hd s \<noteq> CHR ''.'' then None
      else let s' = (if later then tl s else s) in
        case toi 10 s' of (n, c, ok) \<Rightarrow>
          if \<not> ok \<or> 255 < n then None
          else map_option (Cons (of_nat n)) (parse_v4_loop k True (drop c s')))"

definition parse_v4 :: "string \<Rightarrow> ip" where
  "parse_v4 s = map_option (\<lambda>b. v4_prefix @ b) (parse_v4_loop 4 False s)"

text \<open>
  \<open>parseIPv6\<close>: the loop collects the bytes parsed so far (\<open>acc\<close>) and the position of the
  ellipsis; its end fills the ellipsis with zeros. \<open>fuel\<close> counts the eight groups.
\<close>

definition v6_finish :: "bytes \<Rightarrow> nat option \<Rightarrow> string \<Rightarrow> ip" where
  "v6_finish acc ell s =
     (if s \<noteq> [] then None
      else if length acc < 16
      then (case ell of
              None \<Rightarrow> None
            | Some e \<Rightarrow> Some (take e acc @ replicate (16 - length acc) 0 @ drop e acc))
      else if ell \<noteq> None then None
      else Some acc)"

fun parse_v6_loop :: "nat \<Rightarrow> bytes \<Rightarrow> nat option \<Rightarrow> string \<Rightarrow> ip" where
  "parse_v6_loop 0 acc ell s = v6_finish acc ell s"
| "parse_v6_loop (Suc fuel) acc ell s =
     (case toi 16 s of (n, c, ok) \<Rightarrow>
        if \<not> ok \<or> 65535 < n then None
        else if c < length s \<and> s ! c = CHR ''.'' then
          (if ell = None \<and> length acc \<noteq> 12 then None
           else if 16 < length acc + 4 then None
           else case parse_v4_loop 4 False s of
               None \<Rightarrow> None
             | Some b \<Rightarrow> v6_finish (acc @ b) ell [])
        else
          let acc' = acc @ [of_nat (n div 256), of_nat n]; s' = drop c s in
          if s' = [] then v6_finish acc' ell []
          else if hd s' \<noteq> CHR '':'' \<or> length s' = 1 then None
          else let s'' = tl s' in
            if hd s'' = CHR '':'' then
              (if ell \<noteq> None then None
               else if tl s'' = [] then v6_finish acc' (Some (length acc')) []
               else parse_v6_loop fuel acc' (Some (length acc')) (tl s''))
            else parse_v6_loop fuel acc' ell s'')"

definition parse_v6 :: "string \<Rightarrow> ip" where
  "parse_v6 s =
     (if take 2 s = ''::'' then
        (if length s = 2 then Some (replicate 16 0)
         else parse_v6_loop 8 [] (Some 0) (drop 2 s))
      else parse_v6_loop 8 [] None s)"

fun parse_ip_scan :: "string \<Rightarrow> string \<Rightarrow> ip" where
  "parse_ip_scan s [] = None"
| "parse_ip_scan s (c # cs) =
     (if c = CHR ''.'' then parse_v4 s
      else if c = CHR '':'' then parse_v6 s
      else parse_ip_scan s cs)"

definition parse_ip :: "string \<Rightarrow> ip" where
  "parse_ip s = parse_ip_scan s s"

fun mac_groups :: "nat \<Rightarrow> char \<Rightarrow> string \<Rightarrow> bytes option" where
  "mac_groups 0 e s = Some []"
| "mac_groups (Suc n) e s =
     (case xtoi2 s e of
        None \<Rightarrow> None
      | Some b \<Rightarrow> map_option (Cons b) (mac_groups n e (drop 3 s)))"

fun mac_groups4 :: "nat \<Rightarrow> char \<Rightarrow> string \<Rightarrow> bytes option" where
  "mac_groups4 0 e s = Some []"
| "mac_groups4 (Suc n) e s =
     (case (xtoi2 (take 2 s) (CHR 0x00), xtoi2 (drop 2 s) e) of
        (Some a, Some b) \<Rightarrow> map_option (\<lambda>m. a # b # m) (mac_groups4 n e (drop 5 s))
      | _ \<Rightarrow> None)"

definition mac_len_ok :: "nat \<Rightarrow> bool" where
  "mac_len_ok n \<longleftrightarrow> n = 6 \<or> n = 8 \<or> n = 20"

text \<open>\<open>ParseMAC\<close>: the address, or \<open>None\<close> for its \<open>AddrError\<close>.\<close>

definition parse_mac :: "string \<Rightarrow> bytes option" where
  "parse_mac s =
     (if length s < 14 then None
      else if s ! 2 = CHR '':'' \<or> s ! 2 = CHR ''-'' then
        (if (length s + 1) mod 3 \<noteq> 0 then None
         else let n = (length s + 1) div 3 in
           if \<not> mac_len_ok n then None else mac_groups n (s ! 2) s)
      else if s ! 4 = CHR ''.'' then
        (if (length s + 1) mod 5 \<noteq> 0 then None
         else let n = 2 * (length s + 1) div 5 in
           if \<not> mac_len_ok n then None else mac_groups4 (n div 2) (s ! 4) s)
      else None)"

definition mac_error :: "string \<Rightarrow> string" where
  "mac_error s = (if s = [] then ''invalid MAC address''
                  else ''address '' @ s @ '': invalid MAC address'')"

subsection \<open>Parsing what was printed\<close>

lemma digit_val_hex: "n < 16 \<Longrightarrow> digit_val 16 (digit_char n) = Some n"
proof -
  have "\<forall>n<16. digit_val 16 (digit_char n) = Some n"
    by code_simp
  then show "n < 16 \<Longrightarrow> ?thesis" by blast
qed

lemma digit_val_dec: "n < 10 \<Longrightarrow> digit_val 10 (digit_char n) = Some n"
proof -
  have "\<forall>n<10. digit_val 10 (digit_char n) = Some n"
    by code_simp
  then show "n < 10 \<Longrightarrow> ?thesis" by blast
qed

lemma digit_val_sep [simp]:
  "digit_val b (CHR ''.'') = None" "digit_val b (CHR '':'') = None"
  by (simp_all add: digit_val_def)

lemma digit_char_not_sep: "n < 16 \<Longrightarrow> digit_char n \<noteq> CHR ''.'' \<and> digit_char n \<noteq> CHR '':''"
  using digit_val_hex [of n] by auto

text \<open>Reading back what \<open>nat_str\<close> printed.\<close>

lemma toi_loop_nat_str:
  "n < big \<Longrightarrow> toi_loop 10 (nat_str n @ rest) 0 i = toi_loop 10 rest n (i + length (nat_str n))"
proof (induction n arbitrary: rest rule: nat_str.induct)
  case (1 n)
  show ?case
  proof (cases "n < 10")
    case True
    with "1.prems" show ?thesis
      by (simp add: nat_str.simps [of n] digit_val_dec)
  next
    case False
    have "n div 10 < big" using "1.prems" by (simp add: big_def)
    with False "1.IH" have
      "toi_loop 10 (nat_str (n div 10) @ digit_char (n mod 10) # rest) 0 i
        = toi_loop 10 (digit_char (n mod 10) # rest) (n div 10) (i + length (nat_str (n div 10)))"
      by simp
    with False "1.prems" show ?thesis
      by (simp add: nat_str.simps [of n] digit_val_dec)
  qed
qed

definition stops :: "string \<Rightarrow> bool" where
  "stops rest \<longleftrightarrow> rest = [] \<or> hd rest = CHR ''.'' \<or> hd rest = CHR '':''"

lemma toi_loop_stops: "stops rest \<Longrightarrow> toi_loop b rest n i = (n, i, True)"
  by (cases rest) (auto simp: stops_def)

lemma nat_str_nonempty [simp]: "nat_str n \<noteq> []"
  by (subst nat_str.simps) simp

lemma toi_nat_str:
  "n < big \<Longrightarrow> stops rest \<Longrightarrow> toi 10 (nat_str n @ rest) = (n, length (nat_str n), True)"
  by (simp add: toi_def toi_loop_nat_str toi_loop_stops)

lemma v4_string_parts: "bs \<noteq> [] \<Longrightarrow> v4_string (b # bs) = nat_str (unat b) @ ''.'' @ v4_string bs"
  by (cases bs) auto

lemma unat_byte_less: "unat (b :: byte) < 256"
  using unsigned_less [of b] by simp

lemma parse_v4_loop_string:
  "bs \<noteq> [] \<Longrightarrow> parse_v4_loop (length bs) later ((if later then ''.'' else []) @ v4_string bs) = Some bs"
proof (induction bs arbitrary: later)
  case Nil
  then show ?case by simp
next
  case (Cons b bs)
  have small: "unat b < big" "\<not> 255 < unat b"
    using unat_byte_less [of b] by (simp_all add: big_def)
  show ?case
  proof (cases "bs = []")
    case True
    have "toi 10 (nat_str (unat b)) = (unat b, length (nat_str (unat b)), True)"
      using toi_nat_str [of "unat b" "[]"] small by (simp add: stops_def)
    with True small show ?thesis by simp
  next
    case False
    have "toi 10 (nat_str (unat b) @ ''.'' @ v4_string bs) = (unat b, length (nat_str (unat b)), True)"
      using toi_nat_str [of "unat b" "''.'' @ v4_string bs"] small by (simp add: stops_def)
    with False small Cons.IH [of True] show ?thesis by (simp add: v4_string_parts)
  qed
qed

lemma nat_str_chars: "c \<in> set (nat_str n) \<Longrightarrow> c \<noteq> CHR ''.'' \<and> c \<noteq> CHR '':''"
proof (induction n rule: nat_str.induct)
  case (1 n)
  have "n mod 10 < 16" by (rule less_trans [of _ 10]) simp_all
  with 1 show ?case
    using digit_char_not_sep [of "n mod 10"] digit_char_not_sep [of n]
    by (cases "n < 10") (auto simp: nat_str.simps [of n])
qed

lemma parse_ip_scan_dot:
  "\<forall>c \<in> set xs. c \<noteq> CHR ''.'' \<and> c \<noteq> CHR '':'' \<Longrightarrow>
   parse_ip_scan s (xs @ CHR ''.'' # ys) = parse_v4 s"
  by (induction xs) auto

lemma parse_ip_string_v4:
  assumes "length b = 4"
  shows "parse_ip (v4_string b) = Some (v4_prefix @ b)"
proof -
  obtain b0 bs where b: "b = b0 # bs" "bs \<noteq> []"
    using assms by (cases b) (auto simp: length_Suc_conv numeral_eq_Suc)
  then have "v4_string b = nat_str (unat b0) @ CHR ''.'' # v4_string bs"
    by (simp add: v4_string_parts)
  then have "parse_ip (v4_string b) = parse_v4 (v4_string b)"
    unfolding parse_ip_def by (metis nat_str_chars parse_ip_scan_dot)
  moreover have "parse_v4_loop 4 False (v4_string b) = Some b"
    using parse_v4_loop_string [of b False] unfolding assms using b by simp
  ultimately show ?thesis by (simp add: parse_v4_def)
qed

text \<open>Reading back a printed hardware address.\<close>

lemma xtoi2_hex2: "stops rest \<Longrightarrow> xtoi2 (hex2 b @ rest) (CHR '':'') = Some b \<or> hd rest = CHR ''.'' \<and> rest \<noteq> []"
proof -
  assume s: "stops rest"
  have d: "unat b div 16 < 16" "unat b mod 16 < 16"
    using unat_byte_less [of b] by auto
  have v: "unat b div 16 * 16 + unat b mod 16 = unat b" by simp
  have "toi 16 (hex2 b) = (unat b, 2, True)"
    using d unat_byte_less [of b] by (simp add: toi_def hex2_def digit_val_hex big_def)
  with s show ?thesis
    by (cases rest) (auto simp: xtoi2_def hex2_def stops_def)
qed

lemma mac_string_cons: "bs \<noteq> [] \<Longrightarrow> mac_string (b # bs) = hex2 b @ '':'' @ mac_string bs"
  by (cases bs) auto

lemma mac_groups_string: "mac_groups (length m) (CHR '':'') (mac_string m) = Some m"
proof (induction m)
  case Nil
  then show ?case by simp
next
  case (Cons b bs)
  show ?case
  proof (cases "bs = []")
    case True
    then show ?thesis using xtoi2_hex2 [of "[]" b] by (simp add: stops_def)
  next
    case False
    have "drop 3 (hex2 b @ '':'' @ mac_string bs) = mac_string bs"
      by (simp add: hex2_def)
    then show ?thesis
      using False Cons.IH xtoi2_hex2 [of "'':'' @ mac_string bs" b]
      by (simp add: mac_string_cons stops_def)
  qed
qed

lemma length_mac_string: "m \<noteq> [] \<Longrightarrow> length (mac_string m) + 1 = 3 * length m"
proof (induction m)
  case (Cons b bs)
  then show ?case by (cases bs) (auto simp: hex2_def)
qed simp

lemma mac_string_third: "2 \<le> length m \<Longrightarrow> mac_string m ! 2 = CHR '':''"
  by (cases m rule: mac_string.cases) (auto simp: hex2_def)

lemma parse_mac_string:
  assumes "mac_len_ok (length m)"
  shows "parse_mac (mac_string m) = Some m"
proof -
  have n: "m \<noteq> []" "2 \<le> length m" "6 \<le> length m"
    using assms by (auto simp: mac_len_ok_def)
  have len: "length (mac_string m) + 1 = 3 * length m" "\<not> length (mac_string m) < 14"
    using length_mac_string [OF n(1)] n(3) by linarith+
  show ?thesis
    using len(2) mac_string_third [OF n(2)] mac_groups_string [of m] assms
    unfolding parse_mac_def len(1) by simp
qed

lemma mac_groups_len: "mac_groups n e s = Some m \<Longrightarrow> length m = n"
  by (induction n e s arbitrary: m rule: mac_groups.induct) (auto split: option.splits)

lemma mac_groups4_len: "mac_groups4 n e s = Some m \<Longrightarrow> length m = 2 * n"
  by (induction n e s arbitrary: m rule: mac_groups4.induct) (auto split: option.splits)

lemma parse_mac_len: "parse_mac s = Some m \<Longrightarrow> mac_len_ok (length m)"
  by (auto simp: parse_mac_def Let_def mac_len_ok_def
      dest!: mac_groups_len mac_groups4_len split: if_splits)

end
