(* ===== verification/Dhcp_Packet.thy ===== *)
theory Dhcp_Packet
  imports Go_Net
begin

text \<open>
  \<open>dhcp/lease.go\<close>: the DHCPv4 packet with its option list, the lease that wraps it, the
  construction of requests, the lifetime getters and the padding of \<open>serialize\<close>.

  \<open>layers.DHCPv4\<close> and \<open>layers.DHCPOption\<close> are structs of the package \<open>gopacket\<close>; the
  records keep the fields this program reads or writes. The numeric values of the message
  types and option codes are those of RFC 2132, which \<open>gopacket\<close> uses (\<open>dhcp/testdata/\<close>
  shows them). A slice of option data has no \<open>nil\<close> distinct from empty, because the code
  never asks. The serializer of \<open>gopacket\<close> is a parameter of \<open>serialize\<close>.
\<close>

named_theorems option_simps \<open>what the option operations do\<close>

subsection \<open>Constants\<close>

type_synonym msg_type = byte
type_synonym opt_code = byte

definition DHCPMsgTypeUnspecified :: msg_type where "DHCPMsgTypeUnspecified = 0"
definition DHCPMsgTypeDiscover :: msg_type where "DHCPMsgTypeDiscover = 1"
definition DHCPMsgTypeOffer :: msg_type where "DHCPMsgTypeOffer = 2"
definition DHCPMsgTypeRequest :: msg_type where "DHCPMsgTypeRequest = 3"
definition DHCPMsgTypeAck :: msg_type where "DHCPMsgTypeAck = 5"
definition DHCPMsgTypeNak :: msg_type where "DHCPMsgTypeNak = 6"
definition DHCPMsgTypeRelease :: msg_type where "DHCPMsgTypeRelease = 7"
definition DHCPMsgTypeInform :: msg_type where "DHCPMsgTypeInform = 8"

lemmas msg_types =
  DHCPMsgTypeUnspecified_def DHCPMsgTypeDiscover_def DHCPMsgTypeOffer_def DHCPMsgTypeRequest_def
  DHCPMsgTypeAck_def DHCPMsgTypeNak_def DHCPMsgTypeRelease_def DHCPMsgTypeInform_def

lemma msg_types_distinct [simp]:
  "DHCPMsgTypeUnspecified \<noteq> DHCPMsgTypeDiscover" "DHCPMsgTypeUnspecified \<noteq> DHCPMsgTypeOffer" "DHCPMsgTypeUnspecified \<noteq> DHCPMsgTypeRequest" "DHCPMsgTypeUnspecified \<noteq> DHCPMsgTypeAck" "DHCPMsgTypeUnspecified \<noteq> DHCPMsgTypeNak" "DHCPMsgTypeUnspecified \<noteq> DHCPMsgTypeRelease" "DHCPMsgTypeUnspecified \<noteq> DHCPMsgTypeInform"
  "DHCPMsgTypeDiscover \<noteq> DHCPMsgTypeUnspecified" "DHCPMsgTypeDiscover \<noteq> DHCPMsgTypeOffer" "DHCPMsgTypeDiscover \<noteq> DHCPMsgTypeRequest" "DHCPMsgTypeDiscover \<noteq> DHCPMsgTypeAck" "DHCPMsgTypeDiscover \<noteq> DHCPMsgTypeNak" "DHCPMsgTypeDiscover \<noteq> DHCPMsgTypeRelease" "DHCPMsgTypeDiscover \<noteq> DHCPMsgTypeInform"
  "DHCPMsgTypeOffer \<noteq> DHCPMsgTypeUnspecified" "DHCPMsgTypeOffer \<noteq> DHCPMsgTypeDiscover" "DHCPMsgTypeOffer \<noteq> DHCPMsgTypeRequest" "DHCPMsgTypeOffer \<noteq> DHCPMsgTypeAck" "DHCPMsgTypeOffer \<noteq> DHCPMsgTypeNak" "DHCPMsgTypeOffer \<noteq> DHCPMsgTypeRelease" "DHCPMsgTypeOffer \<noteq> DHCPMsgTypeInform"
  "DHCPMsgTypeRequest \<noteq> DHCPMsgTypeUnspecified" "DHCPMsgTypeRequest \<noteq> DHCPMsgTypeDiscover" "DHCPMsgTypeRequest \<noteq> DHCPMsgTypeOffer" "DHCPMsgTypeRequest \<noteq> DHCPMsgTypeAck" "DHCPMsgTypeRequest \<noteq> DHCPMsgTypeNak" "DHCPMsgTypeRequest \<noteq> DHCPMsgTypeRelease" "DHCPMsgTypeRequest \<noteq> DHCPMsgTypeInform"
  "DHCPMsgTypeAck \<noteq> DHCPMsgTypeUnspecified" "DHCPMsgTypeAck \<noteq> DHCPMsgTypeDiscover" "DHCPMsgTypeAck \<noteq> DHCPMsgTypeOffer" "DHCPMsgTypeAck \<noteq> DHCPMsgTypeRequest" "DHCPMsgTypeAck \<noteq> DHCPMsgTypeNak" "DHCPMsgTypeAck \<noteq> DHCPMsgTypeRelease" "DHCPMsgTypeAck \<noteq> DHCPMsgTypeInform"
  "DHCPMsgTypeNak \<noteq> DHCPMsgTypeUnspecified" "DHCPMsgTypeNak \<noteq> DHCPMsgTypeDiscover" "DHCPMsgTypeNak \<noteq> DHCPMsgTypeOffer" "DHCPMsgTypeNak \<noteq> DHCPMsgTypeRequest" "DHCPMsgTypeNak \<noteq> DHCPMsgTypeAck" "DHCPMsgTypeNak \<noteq> DHCPMsgTypeRelease" "DHCPMsgTypeNak \<noteq> DHCPMsgTypeInform"
  "DHCPMsgTypeRelease \<noteq> DHCPMsgTypeUnspecified" "DHCPMsgTypeRelease \<noteq> DHCPMsgTypeDiscover" "DHCPMsgTypeRelease \<noteq> DHCPMsgTypeOffer" "DHCPMsgTypeRelease \<noteq> DHCPMsgTypeRequest" "DHCPMsgTypeRelease \<noteq> DHCPMsgTypeAck" "DHCPMsgTypeRelease \<noteq> DHCPMsgTypeNak" "DHCPMsgTypeRelease \<noteq> DHCPMsgTypeInform"
  "DHCPMsgTypeInform \<noteq> DHCPMsgTypeUnspecified" "DHCPMsgTypeInform \<noteq> DHCPMsgTypeDiscover" "DHCPMsgTypeInform \<noteq> DHCPMsgTypeOffer" "DHCPMsgTypeInform \<noteq> DHCPMsgTypeRequest" "DHCPMsgTypeInform \<noteq> DHCPMsgTypeAck" "DHCPMsgTypeInform \<noteq> DHCPMsgTypeNak" "DHCPMsgTypeInform \<noteq> DHCPMsgTypeRelease"
  by (simp_all add: msg_types)

definition DHCPOptSubnetMask :: opt_code where "DHCPOptSubnetMask = 1"
definition DHCPOptRouter :: opt_code where "DHCPOptRouter = 3"
definition DHCPOptDNS :: opt_code where "DHCPOptDNS = 6"
definition DHCPOptHostname :: opt_code where "DHCPOptHostname = 12"
definition DHCPOptRequestIP :: opt_code where "DHCPOptRequestIP = 50"
definition DHCPOptLeaseTime :: opt_code where "DHCPOptLeaseTime = 51"
definition DHCPOptMessageType :: opt_code where "DHCPOptMessageType = 53"
definition DHCPOptMessage :: opt_code where "DHCPOptMessage = 56"
definition DHCPOptT1 :: opt_code where "DHCPOptT1 = 58"
definition DHCPOptT2 :: opt_code where "DHCPOptT2 = 59"

lemmas opt_codes =
  DHCPOptSubnetMask_def DHCPOptRouter_def DHCPOptDNS_def DHCPOptHostname_def DHCPOptRequestIP_def
  DHCPOptLeaseTime_def DHCPOptMessageType_def DHCPOptMessage_def DHCPOptT1_def DHCPOptT2_def

lemma opt_codes_distinct [simp]:
  "DHCPOptSubnetMask \<noteq> DHCPOptRouter" "DHCPOptSubnetMask \<noteq> DHCPOptDNS" "DHCPOptSubnetMask \<noteq> DHCPOptHostname" "DHCPOptSubnetMask \<noteq> DHCPOptRequestIP" "DHCPOptSubnetMask \<noteq> DHCPOptLeaseTime" "DHCPOptSubnetMask \<noteq> DHCPOptMessageType" "DHCPOptSubnetMask \<noteq> DHCPOptMessage" "DHCPOptSubnetMask \<noteq> DHCPOptT1" "DHCPOptSubnetMask \<noteq> DHCPOptT2"
  "DHCPOptRouter \<noteq> DHCPOptSubnetMask" "DHCPOptRouter \<noteq> DHCPOptDNS" "DHCPOptRouter \<noteq> DHCPOptHostname" "DHCPOptRouter \<noteq> DHCPOptRequestIP" "DHCPOptRouter \<noteq> DHCPOptLeaseTime" "DHCPOptRouter \<noteq> DHCPOptMessageType" "DHCPOptRouter \<noteq> DHCPOptMessage" "DHCPOptRouter \<noteq> DHCPOptT1" "DHCPOptRouter \<noteq> DHCPOptT2"
  "DHCPOptDNS \<noteq> DHCPOptSubnetMask" "DHCPOptDNS \<noteq> DHCPOptRouter" "DHCPOptDNS \<noteq> DHCPOptHostname" "DHCPOptDNS \<noteq> DHCPOptRequestIP" "DHCPOptDNS \<noteq> DHCPOptLeaseTime" "DHCPOptDNS \<noteq> DHCPOptMessageType" "DHCPOptDNS \<noteq> DHCPOptMessage" "DHCPOptDNS \<noteq> DHCPOptT1" "DHCPOptDNS \<noteq> DHCPOptT2"
  "DHCPOptHostname \<noteq> DHCPOptSubnetMask" "DHCPOptHostname \<noteq> DHCPOptRouter" "DHCPOptHostname \<noteq> DHCPOptDNS" "DHCPOptHostname \<noteq> DHCPOptRequestIP" "DHCPOptHostname \<noteq> DHCPOptLeaseTime" "DHCPOptHostname \<noteq> DHCPOptMessageType" "DHCPOptHostname \<noteq> DHCPOptMessage" "DHCPOptHostname \<noteq> DHCPOptT1" "DHCPOptHostname \<noteq> DHCPOptT2"
  "DHCPOptRequestIP \<noteq> DHCPOptSubnetMask" "DHCPOptRequestIP \<noteq> DHCPOptRouter" "DHCPOptRequestIP \<noteq> DHCPOptDNS" "DHCPOptRequestIP \<noteq> DHCPOptHostname" "DHCPOptRequestIP \<noteq> DHCPOptLeaseTime" "DHCPOptRequestIP \<noteq> DHCPOptMessageType" "DHCPOptRequestIP \<noteq> DHCPOptMessage" "DHCPOptRequestIP \<noteq> DHCPOptT1" "DHCPOptRequestIP \<noteq> DHCPOptT2"
  "DHCPOptLeaseTime \<noteq> DHCPOptSubnetMask" "DHCPOptLeaseTime \<noteq> DHCPOptRouter" "DHCPOptLeaseTime \<noteq> DHCPOptDNS" "DHCPOptLeaseTime \<noteq> DHCPOptHostname" "DHCPOptLeaseTime \<noteq> DHCPOptRequestIP" "DHCPOptLeaseTime \<noteq> DHCPOptMessageType" "DHCPOptLeaseTime \<noteq> DHCPOptMessage" "DHCPOptLeaseTime \<noteq> DHCPOptT1" "DHCPOptLeaseTime \<noteq> DHCPOptT2"
  "DHCPOptMessageType \<noteq> DHCPOptSubnetMask" "DHCPOptMessageType \<noteq> DHCPOptRouter" "DHCPOptMessageType \<noteq> DHCPOptDNS" "DHCPOptMessageType \<noteq> DHCPOptHostname" "DHCPOptMessageType \<noteq> DHCPOptRequestIP" "DHCPOptMessageType \<noteq> DHCPOptLeaseTime" "DHCPOptMessageType \<noteq> DHCPOptMessage" "DHCPOptMessageType \<noteq> DHCPOptT1" "DHCPOptMessageType \<noteq> DHCPOptT2"
  "DHCPOptMessage \<noteq> DHCPOptSubnetMask" "DHCPOptMessage \<noteq> DHCPOptRouter" "DHCPOptMessage \<noteq> DHCPOptDNS" "DHCPOptMessage \<noteq> DHCPOptHostname" "DHCPOptMessage \<noteq> DHCPOptRequestIP" "DHCPOptMessage \<noteq> DHCPOptLeaseTime" "DHCPOptMessage \<noteq> DHCPOptMessageType" "DHCPOptMessage \<noteq> DHCPOptT1" "DHCPOptMessage \<noteq> DHCPOptT2"
  "DHCPOptT1 \<noteq> DHCPOptSubnetMask" "DHCPOptT1 \<noteq> DHCPOptRouter" "DHCPOptT1 \<noteq> DHCPOptDNS" "DHCPOptT1 \<noteq> DHCPOptHostname" "DHCPOptT1 \<noteq> DHCPOptRequestIP" "DHCPOptT1 \<noteq> DHCPOptLeaseTime" "DHCPOptT1 \<noteq> DHCPOptMessageType" "DHCPOptT1 \<noteq> DHCPOptMessage" "DHCPOptT1 \<noteq> DHCPOptT2"
  "DHCPOptT2 \<noteq> DHCPOptSubnetMask" "DHCPOptT2 \<noteq> DHCPOptRouter" "DHCPOptT2 \<noteq> DHCPOptDNS" "DHCPOptT2 \<noteq> DHCPOptHostname" "DHCPOptT2 \<noteq> DHCPOptRequestIP" "DHCPOptT2 \<noteq> DHCPOptLeaseTime" "DHCPOptT2 \<noteq> DHCPOptMessageType" "DHCPOptT2 \<noteq> DHCPOptMessage" "DHCPOptT2 \<noteq> DHCPOptT1"
  by (simp_all add: opt_codes)

definition DHCPOpRequest :: byte where "DHCPOpRequest = 1"
definition LinkTypeEthernet :: byte where "LinkTypeEthernet = 1"

subsection \<open>Packets and leases\<close>

record dhcp_option =
  opt_type :: opt_code
  opt_data :: bytes
  opt_length :: byte

record dhcp4 =
  Operation :: byte
  HardwareType :: byte
  ClientHWAddr :: hwaddr
  Xid :: u32
  ClientIP :: ip
  YourClientIP :: ip
  RelayAgentIP :: ip
  Options :: "dhcp_option list"

record lease =
  DHCP4 :: "dhcp4 option"
  Timestamp :: time
  Hostname :: string
  Done :: "chan1 option"
  err :: "string option"
  mux :: bool

definition bytes_of :: "string \<Rightarrow> bytes" where
  "bytes_of s = map (\<lambda>c. of_nat (of_char c)) s"

definition string_of :: "bytes \<Rightarrow> string" where
  "string_of b = map (\<lambda>w. char_of (unat w)) b"

lemma string_of_bytes_of [simp]: "string_of (bytes_of s) = s"
proof -
  have "char_of (unat (of_nat (of_char c) :: byte)) = c" for c
    by (simp add: unat_of_nat)
  then show ?thesis by (simp add: string_of_def bytes_of_def map_idI)
qed

lemma length_bytes_of [simp]: "length (bytes_of s) = length s"
  by (simp add: bytes_of_def)

subsection \<open>Options\<close>

definition mk_option :: "opt_code \<Rightarrow> bytes \<Rightarrow> dhcp_option" where
  "mk_option opt data = \<lparr>opt_type = opt, opt_data = data, opt_length = len8 data\<rparr>"

definition GetOption :: "dhcp4 \<Rightarrow> opt_code \<Rightarrow> dhcp_option option" where
  "GetOption d opt = find (\<lambda>v. opt_type v = opt) (Options d)"

definition findOption :: "dhcp4 \<Rightarrow> opt_code \<Rightarrow> nat option" where
  "findOption d opt = find_pos (\<lambda>v. opt_type v = opt) (Options d)"

definition SetOption :: "dhcp4 \<Rightarrow> opt_code \<Rightarrow> bytes \<Rightarrow> dhcp4" where
  "SetOption d opt data =
     (case findOption d opt of
        Some pos \<Rightarrow>
          d\<lparr>Options := (Options d)[pos := (Options d ! pos)
              \<lparr>opt_data := data, opt_length := len8 data\<rparr>]\<rparr>
      | None \<Rightarrow> d\<lparr>Options := Options d @ [mk_option opt data]\<rparr>)"

definition SetMsgType :: "dhcp4 \<Rightarrow> msg_type \<Rightarrow> dhcp4" where
  "SetMsgType d t = SetOption d DHCPOptMessageType [t]"

definition GetMsgType :: "dhcp4 \<Rightarrow> msg_type result" where
  "GetMsgType d =
     (case GetOption d DHCPOptMessageType of
        None \<Rightarrow> Inr DHCPMsgTypeUnspecified
      | Some v \<Rightarrow> index_r (opt_data v) 0)"

definition SetHostname :: "dhcp4 \<Rightarrow> string \<Rightarrow> dhcp4" where
  "SetHostname d hostname = SetOption d DHCPOptHostname (bytes_of hostname)"

definition get_ip_option :: "dhcp4 \<Rightarrow> opt_code \<Rightarrow> ip" where
  "get_ip_option d opt =
     (case GetOption d opt of
        Some v \<Rightarrow> if opt_length v = 4 then Some (opt_data v) else None
      | None \<Rightarrow> None)"

definition GetSubnetMask :: "dhcp4 \<Rightarrow> ip" where
  "GetSubnetMask d = get_ip_option d DHCPOptSubnetMask"

definition GetDNS :: "dhcp4 \<Rightarrow> ip" where
  "GetDNS d = get_ip_option d DHCPOptDNS"

definition GetRouter :: "dhcp4 \<Rightarrow> ip" where
  "GetRouter d = get_ip_option d DHCPOptRouter"

subsection \<open>Building packets and leases\<close>

definition GenerateXID :: "bytes option \<Rightarrow> u32 \<Rightarrow> u32 result" where
  \<comment> \<open>the bytes \<open>cryptorand.Read\<close> filled in (\<open>None\<close> on its error), and \<open>rand.Uint32()\<close>\<close>
  "GenerateXID buf rnd = (case buf of None \<Rightarrow> Inr rnd | Some b \<Rightarrow> le_uint32 b)"

definition NewPackage ::
  "u32 \<Rightarrow> msg_type \<Rightarrow> u32 \<Rightarrow> hwaddr \<Rightarrow> dhcp_option list \<Rightarrow> dhcp4" where
  "NewPackage rnd msgType xid chaddr options =
     \<lparr>Operation = DHCPOpRequest,
      HardwareType = LinkTypeEthernet,
      ClientHWAddr = chaddr,
      Xid = (if xid = 0 then rnd else xid),
      ClientIP = None, YourClientIP = None, RelayAgentIP = None,
      Options =
        \<lparr>opt_type = DHCPOptMessageType, opt_data = [msgType], opt_length = 1\<rparr>
        # map (\<lambda>v. mk_option (opt_type v) (opt_data v)) options\<rparr>"

definition NewLease ::
  "u32 \<Rightarrow> msg_type \<Rightarrow> u32 \<Rightarrow> hwaddr \<Rightarrow> dhcp_option list \<Rightarrow> lease" where
  "NewLease rnd msgType xid chaddr options =
     \<lparr>DHCP4 = Some (NewPackage rnd msgType xid chaddr options),
      Timestamp = 0, Hostname = [], Done = Some make_chan1, err = None, mux = False\<rparr>"

definition NewLeaseError :: "string \<Rightarrow> lease" where
  "NewLeaseError e =
     \<lparr>DHCP4 = None, Timestamp = 0, Hostname = [], Done = None, err = Some e, mux = False\<rparr>"

definition SetError :: "lease \<Rightarrow> string \<Rightarrow> lease" where
  "SetError l e = l\<lparr>err := Some e\<rparr>"

definition lease_ok :: "lease \<Rightarrow> bool" where
  "lease_ok l \<longleftrightarrow> err l = None"

definition lease_touch :: "time \<Rightarrow> lease \<Rightarrow> lease" where
  "lease_touch now l = l\<lparr>Timestamp := now\<rparr>"

definition lease_msg_type :: "lease \<Rightarrow> msg_type result" where
  \<comment> \<open>\<open>GetMsgType\<close> promoted from the embedded pointer\<close>
  "lease_msg_type l = bind_r (deref (DHCP4 l)) GetMsgType"

definition lease_set_hostname :: "lease \<Rightarrow> string \<Rightarrow> lease result" where
  "lease_set_hostname l hostname =
     bind_r (deref (DHCP4 l)) (\<lambda>d.
       Inr (l\<lparr>Hostname := hostname, DHCP4 := Some (SetHostname d hostname)\<rparr>))"

definition CheckResponseType :: "lease \<Rightarrow> dhcp4 \<Rightarrow> bool result" where
  "CheckResponseType l dhcp =
     bind_r (lease_msg_type l) (\<lambda>old.
     bind_r (GetMsgType dhcp) (\<lambda>new.
       Inr (if old = DHCPMsgTypeDiscover \<and> new = DHCPMsgTypeOffer then True
            else if old = DHCPMsgTypeRequest \<and> (new = DHCPMsgTypeAck \<or> new = DHCPMsgTypeNak)
            then True
            else if old = DHCPMsgTypeInform \<and> (new = DHCPMsgTypeAck \<or> new = DHCPMsgTypeNak)
            then True
            else False)))"

definition GetRequest :: "u32 \<Rightarrow> lease \<Rightarrow> msg_type \<Rightarrow> dhcp_option list \<Rightarrow> lease result" where
  "GetRequest rnd l msgType options =
     bind_r (deref (DHCP4 l)) (\<lambda>d.
       let dhcp = NewPackage rnd msgType (Xid d) (ClientHWAddr d) options;
           dhcp = dhcp\<lparr>RelayAgentIP := RelayAgentIP d\<rparr>;
           dhcp = (if Hostname l \<noteq> [] then SetHostname dhcp (Hostname l) else dhcp);
           dhcp = (if msgType \<noteq> DHCPMsgTypeRequest
                   then dhcp\<lparr>ClientIP := YourClientIP d\<rparr>
                   else dhcp\<lparr>Options := Options dhcp @
                     [\<lparr>opt_type = DHCPOptRequestIP,
                       opt_data = slice_bytes (to4 (YourClientIP d)),
                       opt_length = 4\<rparr>]\<rparr>)
       in Inr \<lparr>DHCP4 = Some dhcp, Timestamp = 0, Hostname = [], Done = Some make_chan1,
               err = None, mux = False\<rparr>)"

subsection \<open>The lifetime of a lease\<close>

definition GetExpireTime :: "lease \<Rightarrow> time result" where
  "GetExpireTime l =
     bind_r (deref (DHCP4 l)) (\<lambda>d.
       case GetOption d DHCPOptLeaseTime of
         Some v \<Rightarrow> bind_r (be_uint32 (opt_data v)) (\<lambda>secs. Inr (Timestamp l + dur_of_secs secs))
       | None \<Rightarrow> Inr (Timestamp l))"

definition GetRebindTime :: "lease \<Rightarrow> time result" where
  "GetRebindTime l =
     bind_r (deref (DHCP4 l)) (\<lambda>d.
       case GetOption d DHCPOptT2 of
         Some v \<Rightarrow> bind_r (be_uint32 (opt_data v)) (\<lambda>secs. Inr (Timestamp l + dur_of_secs secs))
       | None \<Rightarrow>
           (case GetOption d DHCPOptLeaseTime of
              Some v \<Rightarrow> bind_r (be_uint32 (opt_data v)) (\<lambda>secs.
                Inr (Timestamp l + dur_of_secs (secs * 7 div 8)))
            | None \<Rightarrow> Inr (Timestamp l)))"

definition GetRenewalTime :: "lease \<Rightarrow> time result" where
  "GetRenewalTime l =
     bind_r (deref (DHCP4 l)) (\<lambda>d.
       case GetOption d DHCPOptT1 of
         Some v \<Rightarrow> bind_r (be_uint32 (opt_data v)) (\<lambda>secs. Inr (Timestamp l + dur_of_secs secs))
       | None \<Rightarrow>
           (case GetOption d DHCPOptLeaseTime of
              Some v \<Rightarrow> bind_r (be_uint32 (opt_data v)) (\<lambda>secs.
                Inr (Timestamp l + dur_of_secs (secs div 2)))
            | None \<Rightarrow> Inr (Timestamp l)))"

subsection \<open>Serialization\<close>

text \<open>
  \<open>ser\<close> is \<open>DHCPv4.SerializeTo\<close> (an error or the bytes written), \<open>pad n\<close> the \<open>n\<close> bytes that
  \<open>AppendBytes(n)\<close> adds to the buffer.
\<close>

definition serialize ::
  "(dhcp4 \<Rightarrow> string + bytes) \<Rightarrow> (nat \<Rightarrow> bytes) \<Rightarrow> dhcp4 \<Rightarrow> string + bytes" where
  "serialize ser pad d =
     (case ser d of
        Inl e \<Rightarrow> Inl e
      | Inr b \<Rightarrow>
          let l = length b in
          if l \<le> 300 then Inr (b @ pad (301 - l)) else Inr b)"

subsection \<open>The option list as a keyed store\<close>

text \<open>The value of an option as a client of the packet sees it.\<close>

definition option_value :: "dhcp4 \<Rightarrow> opt_code \<Rightarrow> bytes option" where
  "option_value d opt = map_option opt_data (GetOption d opt)"

lemma mk_option_simps [simp]:
  "opt_type (mk_option k v) = k" "opt_data (mk_option k v) = v" "opt_length (mk_option k v) = len8 v"
  by (simp_all add: mk_option_def)

lemma GetOption_SetOption_same:
  "\<exists>v. GetOption (SetOption d k data) k = Some v \<and> opt_data v = data \<and> opt_length v = len8 data"
proof (cases "findOption d k")
  case None
  then have "find (\<lambda>v. opt_type v = k) (Options d) = None"
    by (simp add: findOption_def find_pos_find_None)
  with None show ?thesis
    by (simp add: SetOption_def GetOption_def find_append)
next
  case (Some pos)
  then have p: "find_pos (\<lambda>v. opt_type v = k) (Options d) = Some pos"
    by (simp add: findOption_def)
  then have "opt_type (Options d ! pos) = k"
    by (auto dest: find_pos_Some)
  with Some show ?thesis
    by (simp add: SetOption_def GetOption_def find_update_same [OF p])
qed

lemma GetOption_SetOption_other:
  assumes "j \<noteq> k"
  shows "GetOption (SetOption d k data) j = GetOption d j"
proof (cases "findOption d k")
  case None
  with assms show ?thesis
    by (simp add: SetOption_def GetOption_def find_append split: option.splits)
next
  case (Some pos)
  then have p: "find_pos (\<lambda>v. opt_type v = k) (Options d) = Some pos"
    by (simp add: findOption_def)
  then have "opt_type (Options d ! pos) = k"
    by (auto dest: find_pos_Some)
  with assms Some show ?thesis
    by (simp add: SetOption_def GetOption_def find_update_other [OF p])
qed

interpretation opts: keyed option_value SetOption
proof unfold_locales
  fix d k data
  show "option_value (SetOption d k data) k = Some data"
    using GetOption_SetOption_same [of d k data] by (auto simp: option_value_def)
next
  fix d and j k :: opt_code and data
  assume "j \<noteq> k"
  then show "option_value (SetOption d k data) j = option_value d j"
    by (simp add: option_value_def GetOption_SetOption_other)
qed

lemma SetOption_fields [simp, option_simps]:
  "Xid (SetOption d k v) = Xid d" "ClientHWAddr (SetOption d k v) = ClientHWAddr d"
  "YourClientIP (SetOption d k v) = YourClientIP d" "ClientIP (SetOption d k v) = ClientIP d"
  "RelayAgentIP (SetOption d k v) = RelayAgentIP d"
  by (simp_all add: SetOption_def split: option.splits)

lemma SetHostname_fields [simp, option_simps]:
  "Xid (SetHostname d h) = Xid d" "ClientHWAddr (SetHostname d h) = ClientHWAddr d"
  "YourClientIP (SetHostname d h) = YourClientIP d" "ClientIP (SetHostname d h) = ClientIP d"
  "RelayAgentIP (SetHostname d h) = RelayAgentIP d"
  by (simp_all add: SetHostname_def)

lemma GetMsgType_value:
  "GetMsgType d = (case option_value d DHCPOptMessageType of
     None \<Rightarrow> Inr DHCPMsgTypeUnspecified | Some b \<Rightarrow> index_r b 0)"
  by (simp add: GetMsgType_def option_value_def split: option.splits)

lemma option_value_upd [simp]:
  "option_value (d\<lparr>ClientIP := a\<rparr>) k = option_value d k"
  "option_value (d\<lparr>YourClientIP := a\<rparr>) k = option_value d k"
  "option_value (d\<lparr>RelayAgentIP := a\<rparr>) k = option_value d k"
  by (simp_all add: option_value_def GetOption_def)

lemma GetMsgType_upd [simp]:
  "GetMsgType (d\<lparr>ClientIP := a\<rparr>) = GetMsgType d"
  "GetMsgType (d\<lparr>YourClientIP := a\<rparr>) = GetMsgType d"
  "GetMsgType (d\<lparr>RelayAgentIP := a\<rparr>) = GetMsgType d"
  by (simp_all add: GetMsgType_value)

lemma GetMsgType_SetMsgType [simp, option_simps]: "GetMsgType (SetMsgType d t) = Inr t"
  by (simp add: GetMsgType_value SetMsgType_def opts.lookup_put_same index_r_def)

lemma SetMsgType_Xid [simp, option_simps]:
  "Xid (SetMsgType d t) = Xid d" "YourClientIP (SetMsgType d t) = YourClientIP d"
  by (simp_all add: SetMsgType_def)

lemma GetMsgType_SetHostname [simp, option_simps]: "GetMsgType (SetHostname d h) = GetMsgType d"
  by (simp add: GetMsgType_value SetHostname_def opts.lookup_put_other opt_codes)

lemma GetMsgType_append:
  "GetMsgType d = Inr t \<Longrightarrow> t \<noteq> DHCPMsgTypeUnspecified \<Longrightarrow>
     GetMsgType (d\<lparr>Options := Options d @ vs\<rparr>) = Inr t"
  by (auto simp: GetMsgType_def GetOption_def find_append split: option.splits)

lemma NewPackage_fields [simp, option_simps]:
  "Xid (NewPackage rnd t x ch os) = (if x = 0 then rnd else x)"
  "ClientHWAddr (NewPackage rnd t x ch os) = ch"
  "GetMsgType (NewPackage rnd t x ch os) = Inr t"
  "YourClientIP (NewPackage rnd t x ch os) = None"
  by (simp_all add: NewPackage_def GetMsgType_def GetOption_def index_r_def)

lemma NewLease_fields [simp, option_simps]:
  "DHCP4 (NewLease rnd t x ch os) = Some (NewPackage rnd t x ch os)"
  "Done (NewLease rnd t x ch os) = Some make_chan1" "err (NewLease rnd t x ch os) = None"
  "Hostname (NewLease rnd t x ch os) = []" "\<not> mux (NewLease rnd t x ch os)"
  "lease_msg_type (NewLease rnd t x ch os) = Inr t"
  by (simp_all add: NewLease_def lease_msg_type_def)

lemma NewLeaseError_fields [simp, option_simps]:
  "DHCP4 (NewLeaseError e) = None" "Done (NewLeaseError e) = None"
  "err (NewLeaseError e) = Some e" "\<not> mux (NewLeaseError e)"
  by (simp_all add: NewLeaseError_def)

subsection \<open>Consistent option lengths\<close>

definition opts_consistent :: "dhcp4 \<Rightarrow> bool" where
  "opts_consistent d \<longleftrightarrow> (\<forall>v \<in> set (Options d). opt_length v = len8 (opt_data v))"

lemma opts_consistent_upd [simp]:
  "opts_consistent (d\<lparr>ClientIP := a\<rparr>) = opts_consistent d"
  "opts_consistent (d\<lparr>YourClientIP := a\<rparr>) = opts_consistent d"
  "opts_consistent (d\<lparr>RelayAgentIP := a\<rparr>) = opts_consistent d"
  by (simp_all add: opts_consistent_def)

lemma SetOption_consistent: "opts_consistent d \<Longrightarrow> opts_consistent (SetOption d k data)"
  by (auto simp: opts_consistent_def SetOption_def split: option.splits
      dest!: set_update_subset_insert [THEN subsetD])

lemma NewPackage_consistent: "opts_consistent (NewPackage rnd t x ch os)"
  by (auto simp: opts_consistent_def NewPackage_def len8_def)

lemma opts_consistent_append:
  "opts_consistent (d\<lparr>Options := Options d @ [v]\<rparr>) \<longleftrightarrow>
     opts_consistent d \<and> opt_length v = len8 (opt_data v)"
  by (auto simp: opts_consistent_def)

subsection \<open>Requests\<close>

lemma option_value_append:
  "option_value (d\<lparr>Options := Options d @ [v]\<rparr>) k =
     (case option_value d k of Some x \<Rightarrow> Some x
      | None \<Rightarrow> if opt_type v = k then Some (opt_data v) else None)"
  by (auto simp: option_value_def GetOption_def find_append split: option.splits)

lemma option_value_NewPackage:
  "option_value (NewPackage rnd t x ch []) k = (if k = DHCPOptMessageType then Some [t] else None)"
  by (simp add: option_value_def GetOption_def NewPackage_def)

lemma option_value_SetHostname:
  "option_value (SetHostname d h) k =
     (if k = DHCPOptHostname then Some (bytes_of h) else option_value d k)"
  by (simp add: SetHostname_def opts.lookup_put)

lemmas option_values = option_value_append option_value_NewPackage option_value_SetHostname

lemma SetHostname_consistent: "opts_consistent d \<Longrightarrow> opts_consistent (SetHostname d h)"
  by (simp add: SetHostname_def SetOption_consistent)

text \<open>A request built from a lease: the packet before its last option.\<close>

definition request_base :: "u32 \<Rightarrow> lease \<Rightarrow> dhcp4 \<Rightarrow> msg_type \<Rightarrow> dhcp4" where
  "request_base rnd l d t =
     (let q = (NewPackage rnd t (Xid d) (ClientHWAddr d) [])\<lparr>RelayAgentIP := RelayAgentIP d\<rparr>
      in if Hostname l \<noteq> [] then SetHostname q (Hostname l) else q)"

lemma request_base_simps [simp]:
  "Xid (request_base rnd l d t) = (if Xid d = 0 then rnd else Xid d)"
  "ClientHWAddr (request_base rnd l d t) = ClientHWAddr d"
  "RelayAgentIP (request_base rnd l d t) = RelayAgentIP d"
  "YourClientIP (request_base rnd l d t) = None"
  "GetMsgType (request_base rnd l d t) = Inr t"
  "opts_consistent (request_base rnd l d t)"
  by (simp_all add: request_base_def Let_def SetHostname_consistent NewPackage_consistent)

lemma option_value_request_base:
  "option_value (request_base rnd l d t) k =
     (if k = DHCPOptMessageType then Some [t]
      else if k = DHCPOptHostname \<and> Hostname l \<noteq> [] then Some (bytes_of (Hostname l)) else None)"
  by (simp add: request_base_def Let_def option_values)

lemma GetRequest_Request:
  assumes "DHCP4 l = Some d"
  shows "GetRequest rnd l DHCPMsgTypeRequest [] =
    Inr \<lparr>DHCP4 = Some ((request_base rnd l d DHCPMsgTypeRequest)
           \<lparr>Options := Options (request_base rnd l d DHCPMsgTypeRequest) @
              [\<lparr>opt_type = DHCPOptRequestIP, opt_data = slice_bytes (to4 (YourClientIP d)),
                opt_length = 4\<rparr>]\<rparr>),
         Timestamp = 0, Hostname = [], Done = Some make_chan1, err = None, mux = False\<rparr>"
  using assms by (simp add: GetRequest_def request_base_def Let_def)

text \<open>A packet that offers nothing: no address, and none of the options an answer carries.\<close>

definition answer_opts :: "opt_code list" where
  "answer_opts = [DHCPOptSubnetMask, DHCPOptRouter, DHCPOptDNS, DHCPOptLeaseTime, DHCPOptT1, DHCPOptT2]"

definition offers_nothing :: "dhcp4 \<Rightarrow> bool" where
  "offers_nothing d \<longleftrightarrow> YourClientIP d = None \<and> list_all (\<lambda>k. option_value d k = None) answer_opts"

lemma offers_nothing_SetMsgType [simp]: "offers_nothing (SetMsgType d t) = offers_nothing d"
  by (simp add: offers_nothing_def answer_opts_def SetMsgType_def opts.lookup_put_other opt_codes)

lemma offers_nothing_request:
  assumes "opt_type v = DHCPOptRequestIP"
  shows "offers_nothing ((request_base rnd l d t)\<lparr>Options := Options (request_base rnd l d t) @ [v]\<rparr>)"
  by (simp add: offers_nothing_def answer_opts_def option_value_append option_value_request_base assms)

lemma offers_nothing_values:
  assumes "offers_nothing d" and "DHCP4 l = Some d"
  shows "GetSubnetMask d = None" "GetDNS d = None" "GetRouter d = None" "YourClientIP d = None"
    "GetRenewalTime l = Inr (Timestamp l)" "GetRebindTime l = Inr (Timestamp l)"
    "GetExpireTime l = Inr (Timestamp l)"
  using assms by (simp_all add: offers_nothing_def answer_opts_def option_value_def GetSubnetMask_def
      GetDNS_def GetRouter_def get_ip_option_def GetRenewalTime_def GetRebindTime_def GetExpireTime_def)

lemma GetRequest_fresh:
  assumes "DHCP4 l = Some d"
  shows "\<exists>r q. GetRequest rnd l DHCPMsgTypeRequest [] = Inr r \<and> DHCP4 r = Some q \<and>
    Xid q = (if Xid d = 0 then rnd else Xid d) \<and> GetMsgType q = Inr DHCPMsgTypeRequest \<and>
    Done r = Some make_chan1 \<and> err r = None \<and> \<not> mux r \<and> offers_nothing q"
  by (simp add: GetRequest_Request [OF assms] GetMsgType_append offers_nothing_request)

subsection \<open>Lifetimes\<close>

lemma lease_time_only:
  assumes "DHCP4 l = Some d" and "option_value d DHCPOptT1 = None" and "option_value d DHCPOptT2 = None"
    and "option_value d DHCPOptLeaseTime = Some b" and "be_uint32 b = Inr v"
  shows "GetRenewalTime l = Inr (Timestamp l + uint (v div 2) * 1000000000)"
    and "GetRebindTime l = Inr (Timestamp l + uint (v * 7 div 8) * 1000000000)"
    and "GetExpireTime l = Inr (Timestamp l + uint v * 1000000000)"
  using assms
  by (auto simp: GetRenewalTime_def GetRebindTime_def GetExpireTime_def option_value_def dur_of_secs_eq)

subsection \<open>Properties\<close>

text \<open>An OFFER as a server sends it, used by the witnesses.\<close>

definition sample_offer :: dhcp4 where
  "sample_offer =
     \<lparr>Operation = 2, HardwareType = 1, ClientHWAddr = Some [0, 1, 2, 3, 4, 5], Xid = 1999,
      ClientIP = None, YourClientIP = Some [192, 168, 1, 46], RelayAgentIP = Some [192, 168, 1, 9],
      Options = [mk_option DHCPOptMessageType [2], mk_option DHCPOptLeaseTime [0, 13, 47, 0]]\<rparr>"

definition sample_lease :: lease where
  "sample_lease = \<lparr>DHCP4 = Some sample_offer, Timestamp = 0, Hostname = ''test'',
     Done = Some (make_chan1\<lparr>closed := True\<rparr>), err = None, mux = False\<rparr>"

definition infinite_lease :: lease where
  "infinite_lease = sample_lease\<lparr>DHCP4 := Some
     (sample_offer\<lparr>Options := [mk_option DHCPOptLeaseTime [255, 255, 255, 255]]\<rparr>)\<rparr>"

text \<open>
  C35. The REQUEST built from an OFFER asks for exactly the offered IPv4 address, under the
  same transaction id, hardware address and relay agent; it carries the host name of the
  lease if there is one, every option's length byte agrees with its data, and the new lease
  has an open \<open>Done\<close> channel and no error.
\<close>

theorem GetRequest_asks_for_offer:
  assumes "DHCP4 l = Some d" and "Xid d \<noteq> 0" and "to4 (YourClientIP d) = Some a"
  shows "\<exists>r q. GetRequest rnd l DHCPMsgTypeRequest [] = Inr r \<and> DHCP4 r = Some q \<and>
    Xid q = Xid d \<and> ClientHWAddr q = ClientHWAddr d \<and> RelayAgentIP q = RelayAgentIP d \<and>
    GetMsgType q = Inr DHCPMsgTypeRequest \<and>
    option_value q DHCPOptRequestIP = Some a \<and>
    option_value q DHCPOptHostname =
      (if Hostname l = [] then None else Some (bytes_of (Hostname l))) \<and>
    opts_consistent q \<and> Done r = Some make_chan1 \<and> err r = None"
proof -
  have "length a = 4" using assms(3) by (rule to4_Some)
  then show ?thesis
    using assms
    by (simp add: GetRequest_Request opts_consistent_append GetMsgType_append
        option_value_append option_value_request_base slice_bytes_def len8_def)
qed

theorem GetRequest_asks_for_offer_witness:
  "\<exists>r q. GetRequest 0 sample_lease DHCPMsgTypeRequest [] = Inr r \<and> DHCP4 r = Some q \<and>
     Xid q = 1999 \<and> option_value q DHCPOptRequestIP = Some [192, 168, 1, 46]"
  using GetRequest_asks_for_offer [of sample_lease sample_offer "[192, 168, 1, 46]" 0]
  by (auto simp: sample_lease_def sample_offer_def)

text \<open>
  A lease whose address is not IPv4 (a renewal of an IPv6 address, or of no address)
  still yields a REQUEST, and its requested-address option announces four bytes of data
  and carries none.
\<close>

theorem GetRequest_without_v4_malformed:
  assumes "DHCP4 l = Some d" and "to4 (YourClientIP d) = None"
  shows "\<exists>r q. GetRequest rnd l DHCPMsgTypeRequest [] = Inr r \<and> DHCP4 r = Some q \<and>
    option_value q DHCPOptRequestIP = Some [] \<and> \<not> opts_consistent q"
  using assms
  by (simp add: GetRequest_Request opts_consistent_append
      option_value_append option_value_request_base slice_bytes_def len8_def)

theorem GetRequest_without_v4_malformed_witness:
  "\<exists>r q. GetRequest 0 (NewLease 0 DHCPMsgTypeDiscover 7 None []) DHCPMsgTypeRequest [] = Inr r \<and>
     DHCP4 r = Some q \<and> option_value q DHCPOptRequestIP = Some [] \<and> \<not> opts_consistent q"
  using GetRequest_without_v4_malformed [of "NewLease 0 DHCPMsgTypeDiscover 7 None []" _ 0]
  by (simp add: NewPackage_def)

text \<open>
  When the server sends only a lease time below 2^32 / 7 seconds, the derived renewal,
  rebinding and expiry times exist and are in the order RFC 2131 asks for, with rebinding
  at seven eighths of the lease time.
\<close>

theorem lifetimes_ordered:
  assumes "DHCP4 l = Some d"
    and "option_value d DHCPOptT1 = None" and "option_value d DHCPOptT2 = None"
    and "option_value d DHCPOptLeaseTime = Some b" and "be_uint32 b = Inr v"
    and "uint v * 7 < 2 ^ 32"
  shows "\<exists>t1 t2 te. GetRenewalTime l = Inr t1 \<and> GetRebindTime l = Inr t2 \<and>
    GetExpireTime l = Inr te \<and> Timestamp l \<le> t1 \<and> t1 \<le> t2 \<and> t2 \<le> te \<and>
    t2 = Timestamp l + (uint v * 7 div 8) * 1000000000"
proof -
  have 7: "uint (v * 7) = uint v * 7"
    using assms(6) by (simp add: uint_word_ariths)
  have r: "uint (v * 7 div 8) = uint v * 7 div 8" and h: "uint (v div 2) = uint v div 2"
    by (simp_all add: uint_div 7)
  have "0 \<le> uint v div 2" "uint v div 2 \<le> uint v * 7 div 8" "uint v * 7 div 8 \<le> uint v"
    using uint_ge_0 [of v] by linarith+
  then show ?thesis
    by (simp add: lease_time_only [OF assms(1-5)] r h)
qed

theorem lifetimes_ordered_witness:
  "\<exists>t1 t2 te. GetRenewalTime sample_lease = Inr t1 \<and> GetRebindTime sample_lease = Inr t2 \<and>
    GetExpireTime sample_lease = Inr te \<and> t1 \<le> t2 \<and> t2 \<le> te \<and> t2 = 756000 * 1000000000"
  using lifetimes_ordered [of sample_lease sample_offer "[0, 13, 47, 0]" 864000]
  by (auto simp: sample_lease_def sample_offer_def option_value_def GetOption_def)

text \<open>
  The product in \<open>GetRebindTime\<close> is taken at 32 bits: for a lease that never expires
  (lease time 2^32 - 1, without T1 and T2) the rebinding time falls before the renewal time.
\<close>

theorem infinite_lease_rebind_before_renewal:
  assumes "DHCP4 l = Some d"
    and "option_value d DHCPOptT1 = None" and "option_value d DHCPOptT2 = None"
    and "option_value d DHCPOptLeaseTime = Some [255, 255, 255, 255]"
  shows "\<exists>t1 t2. GetRenewalTime l = Inr t1 \<and> GetRebindTime l = Inr t2 \<and> t2 < t1 \<and>
    t2 = Timestamp l + 536870911 * 1000000000"
proof -
  have v: "be_uint32 [255, 255, 255, 255] = Inr (4294967295 :: u32)" by simp
  show ?thesis by (simp add: lease_time_only [OF assms v])
qed

theorem infinite_lease_rebind_before_renewal_witness:
  "\<exists>t1 t2. GetRenewalTime infinite_lease = Inr t1 \<and> GetRebindTime infinite_lease = Inr t2 \<and> t2 < t1"
proof -
  let ?d = "sample_offer\<lparr>Options := [mk_option DHCPOptLeaseTime [255, 255, 255, 255]]\<rparr>"
  have "DHCP4 infinite_lease = Some ?d"
    and "option_value ?d DHCPOptT1 = None" and "option_value ?d DHCPOptT2 = None"
    and "option_value ?d DHCPOptLeaseTime = Some [255, 255, 255, 255]"
    by (simp_all add: infinite_lease_def option_value_def GetOption_def)
  from infinite_lease_rebind_before_renewal [OF this] show ?thesis by blast
qed

text \<open>
  Whatever the serializer wrote, \<open>serialize\<close> returns it unchanged followed by padding,
  at least 301 bytes in all.
\<close>

theorem serialize_min_length:
  assumes "\<And>n. length (pad n) = n" and "serialize ser pad d = Inr b"
  shows "301 \<le> length b \<and> (\<exists>w. ser d = Inr w \<and> take (length w) b = w)"
  using assms by (auto simp: serialize_def Let_def split: sum.splits if_splits)

theorem serialize_min_length_witness:
  "301 \<le> length (replicate 240 (7 :: byte) @ replicate 61 0)"
  using serialize_min_length
    [of "\<lambda>n. replicate n 0" "\<lambda>_. Inr (replicate 240 7)" sample_offer
      "replicate 240 7 @ replicate 61 0"]
  by (simp add: serialize_def)

end
