(* ===== verification/Host_Names.thy ===== *)
theory Host_Names
  imports Prelude
begin

text \<open>
  The host names the REST server accepts: the regular expression \<open>hostnameExp\<close> of
  \<open>service/server.go\<close>, written as the tree Go's package \<open>regexp\<close> parses it to, and a matcher by
  derivatives, which is shown to decide the language of the expression. A string is its bytes;
  the classes hold ASCII characters only, so a byte of a longer UTF-8 sequence is in none of them.
\<close>

subsection \<open>Regular expressions\<close>

datatype regexp =
    RNone
  | REmpty
  | RClass "(char \<times> char) list"
  | RConcat regexp regexp
  | RAlternate regexp regexp
  | RStar regexp

definition in_class :: "(char \<times> char) list \<Rightarrow> char \<Rightarrow> bool" where
  "in_class rs c \<longleftrightarrow>
     list_ex (\<lambda>(lo, hi). (of_char lo :: nat) \<le> of_char c \<and> (of_char c :: nat) \<le> of_char hi) rs"

fun lang :: "regexp \<Rightarrow> string set" where
  "lang RNone = {}"
| "lang REmpty = {[]}"
| "lang (RClass rs) = {[c] | c. in_class rs c}"
| "lang (RConcat r s) = {u @ v | u v. u \<in> lang r \<and> v \<in> lang s}"
| "lang (RAlternate r s) = lang r \<union> lang s"
| "lang (RStar r) = {concat us | us. set us \<subseteq> lang r}"

fun nullable :: "regexp \<Rightarrow> bool" where
  "nullable RNone \<longleftrightarrow> False"
| "nullable REmpty \<longleftrightarrow> True"
| "nullable (RClass rs) \<longleftrightarrow> False"
| "nullable (RConcat r s) \<longleftrightarrow> nullable r \<and> nullable s"
| "nullable (RAlternate r s) \<longleftrightarrow> nullable r \<or> nullable s"
| "nullable (RStar r) \<longleftrightarrow> True"

fun deriv :: "char \<Rightarrow> regexp \<Rightarrow> regexp" where
  "deriv c RNone = RNone"
| "deriv c REmpty = RNone"
| "deriv c (RClass rs) = (if in_class rs c then REmpty else RNone)"
| "deriv c (RConcat r s) =
     (if nullable r then RAlternate (RConcat (deriv c r) s) (deriv c s) else RConcat (deriv c r) s)"
| "deriv c (RAlternate r s) = RAlternate (deriv c r) (deriv c s)"
| "deriv c (RStar r) = RConcat (deriv c r) (RStar r)"

text \<open>\<open>MatchString\<close> of an expression between \<open>^\<close> and \<open>$\<close>, which match at the ends of the text only.\<close>

definition MatchString :: "regexp \<Rightarrow> string \<Rightarrow> bool" where
  "MatchString r s = nullable (fold deriv s r)"

lemma nullable_lang: "nullable r \<longleftrightarrow> [] \<in> lang r"
proof (induction r)
  case (RStar r)
  have "concat [] = []" "set [] \<subseteq> lang r" by simp_all
  then show ?case by (auto intro!: exI [of _ "[]"])
qed auto

lemma star_Cons:
  assumes "c # s = concat us" and "set us \<subseteq> L"
  shows "\<exists>u vs. s = u @ concat vs \<and> c # u \<in> L \<and> set vs \<subseteq> L"
  using assms
proof (induction us)
  case (Cons w ws)
  then show ?case by (cases w) auto
qed simp

lemma deriv_lang: "s \<in> lang (deriv c r) \<longleftrightarrow> c # s \<in> lang r"
proof (induction r arbitrary: s)
  case (RConcat r1 r2)
  have "c # s \<in> lang (RConcat r1 r2) \<longleftrightarrow>
      (\<exists>u v. s = u @ v \<and> c # u \<in> lang r1 \<and> v \<in> lang r2) \<or> [] \<in> lang r1 \<and> c # s \<in> lang r2"
    by (auto simp: Cons_eq_append_conv)
  with RConcat show ?case by (auto simp: nullable_lang)
next
  case (RStar r)
  show ?case
  proof
    assume "s \<in> lang (deriv c (RStar r))"
    then obtain u vs where "s = u @ concat vs" "c # u \<in> lang r" "set vs \<subseteq> lang r"
      using RStar by auto
    then show "c # s \<in> lang (RStar r)"
      by (auto intro!: exI [of _ "(c # u) # vs"])
  next
    assume "c # s \<in> lang (RStar r)"
    then obtain us where "c # s = concat us" "set us \<subseteq> lang r" by auto
    then show "s \<in> lang (deriv c (RStar r))"
      using star_Cons [of c s us "lang r"] RStar by auto
  qed
qed auto

lemma MatchString_lang: "MatchString r s \<longleftrightarrow> s \<in> lang r"
proof (induction s arbitrary: r)
  case Nil
  then show ?case by (simp add: MatchString_def nullable_lang)
next
  case (Cons c s)
  then show ?case by (simp add: MatchString_def flip: deriv_lang)
qed

subsection \<open>The expression\<close>

definition alnum :: "(char \<times> char) list" where
  "alnum = [(CHR ''a'', CHR ''z''), (CHR ''A'', CHR ''Z''), (CHR ''0'', CHR ''9'')]"

definition label_exp :: regexp where
  "label_exp = RAlternate (RClass alnum)
     (RConcat (RClass alnum)
       (RConcat (RStar (RClass (alnum @ [(CHR ''-'', CHR ''-'')]))) (RClass alnum)))"

definition hostnameExp :: regexp where
  "hostnameExp =
     RConcat (RStar (RConcat label_exp (RClass [(CHR ''.'', CHR ''.'')]))) label_exp"

subsection \<open>The reference: labels between dots\<close>

definition is_alnum :: "char \<Rightarrow> bool" where
  "is_alnum c \<longleftrightarrow> in_class alnum c"

definition host_label :: "string \<Rightarrow> bool" where
  "host_label l \<longleftrightarrow> l \<noteq> [] \<and> is_alnum (hd l) \<and> is_alnum (last l) \<and>
     list_all (\<lambda>c. is_alnum c \<or> c = CHR ''-'') l"

fun split_on :: "'a \<Rightarrow> 'a list \<Rightarrow> 'a list list" where
  "split_on c [] = [[]]"
| "split_on c (x # xs) =
     (if x = c then [] # split_on c xs
      else (x # hd (split_on c xs)) # tl (split_on c xs))"

definition valid_hostname :: "string \<Rightarrow> bool" where
  "valid_hostname h \<longleftrightarrow> list_all host_label (split_on (CHR ''.'') h)"

lemma split_on_not_Nil [simp]: "split_on c xs \<noteq> []"
  by (cases xs) auto

lemma split_on_free: "c \<notin> set xs \<Longrightarrow> split_on c xs = [xs]"
  by (induction xs) auto

lemma split_on_append: "c \<notin> set u \<Longrightarrow> split_on c (u @ c # v) = u # split_on c v"
  by (induction u) auto

lemma hd_split_free: "c \<notin> set (hd (split_on c xs))"
  by (induction xs) auto

lemma split_on_head:
  "xs = hd (split_on c xs) \<or>
   (\<exists>v. xs = hd (split_on c xs) @ c # v \<and> tl (split_on c xs) = split_on c v)"
proof (induction xs)
  case (Cons x xs)
  then show ?case by (cases "x = c") auto
qed simp

lemma class_char: "in_class (rs @ [(a, a)]) c \<longleftrightarrow> in_class rs c \<or> c = a"
proof -
  have "(of_char a :: nat) = of_char c \<longleftrightarrow> c = a" by (auto simp: of_char_eq_iff)
  then show ?thesis by (auto simp: in_class_def)
qed

lemma class_single: "in_class [(a, a)] c \<longleftrightarrow> c = a"
  using class_char [of "[]" a c] by (simp add: in_class_def)

lemma star_class: "w \<in> lang (RStar (RClass rs)) \<longleftrightarrow> list_all (in_class rs) w"
proof
  assume "w \<in> lang (RStar (RClass rs))"
  then obtain us where "w = concat us" "set us \<subseteq> lang (RClass rs)" by auto
  then show "list_all (in_class rs) w" by (auto simp: list_all_iff)
next
  assume "list_all (in_class rs) w"
  then show "w \<in> lang (RStar (RClass rs))"
    by (auto simp: list_all_iff intro!: exI [of _ "map (\<lambda>c. [c]) w"])
qed

lemma lang_concat: "w \<in> lang (RConcat r s) \<longleftrightarrow> (\<exists>u v. w = u @ v \<and> u \<in> lang r \<and> v \<in> lang s)"
  by simp

lemma lang_RClass: "w \<in> lang (RClass rs) \<longleftrightarrow> (\<exists>c. w = [c] \<and> in_class rs c)"
  by simp

lemma lang_label: "w \<in> lang label_exp \<longleftrightarrow> host_label w"
proof -
  let ?M = "list_all (\<lambda>c. is_alnum c \<or> c = CHR ''-'')"
  have "w \<in> lang label_exp \<longleftrightarrow> (\<exists>a. w = [a] \<and> is_alnum a) \<or>
      (\<exists>a v b. w = a # v @ [b] \<and> is_alnum a \<and> is_alnum b \<and> ?M v)"
    unfolding label_exp_def lang.simps(5) Un_iff lang_concat star_class lang_RClass
      class_char is_alnum_def by (auto simp: list_all_iff) (metis append_Cons append_Nil)+
  also have "\<dots> \<longleftrightarrow> host_label w"
  proof (cases w)
    case (Cons a v)
    then show ?thesis
      by (cases v rule: rev_cases) (auto simp: host_label_def)
  qed (simp add: host_label_def)
  finally show ?thesis .
qed

lemma dot_not_alnum: "\<not> is_alnum (CHR ''.'')"
  by (simp add: is_alnum_def in_class_def alnum_def)

lemma host_label_no_dot: "host_label l \<Longrightarrow> CHR ''.'' \<notin> set l"
  using dot_not_alnum by (auto simp: host_label_def list_all_iff)

lemma valid_concat:
  "list_all (\<lambda>u. \<exists>l. host_label l \<and> u = l @ ''.'') us \<Longrightarrow> host_label l \<Longrightarrow> valid_hostname (concat us @ l)"
proof (induction us)
  case Nil
  then show ?case by (simp add: valid_hostname_def split_on_free host_label_no_dot)
next
  case (Cons u us)
  then show ?case
    by (auto simp: valid_hostname_def split_on_append host_label_no_dot)
qed

lemma valid_parts:
  "valid_hostname h \<Longrightarrow>
    \<exists>us l. h = concat us @ l \<and> list_all (\<lambda>u. \<exists>l. host_label l \<and> u = l @ ''.'') us \<and> host_label l"
proof (induction h rule: length_induct)
  case (1 h)
  let ?l = "hd (split_on (CHR ''.'') h)"
  have l: "host_label ?l"
    using 1(2) by (cases "split_on (CHR ''.'') h") (auto simp: valid_hostname_def)
  from split_on_head [of h "CHR ''.''"] show ?case
  proof
    assume "h = ?l"
    then show ?thesis using l by (intro exI [of _ "[]"] exI [of _ h]) simp
  next
    assume "\<exists>v. h = ?l @ CHR ''.'' # v \<and> tl (split_on (CHR ''.'') h) = split_on (CHR ''.'') v"
    then obtain v where v: "h = ?l @ CHR ''.'' # v" "tl (split_on (CHR ''.'') h) = split_on (CHR ''.'') v"
      by blast
    have "valid_hostname v"
      using 1(2) v(2) by (cases "split_on (CHR ''.'') h") (auto simp: valid_hostname_def)
    moreover have "length v < length h" by (subst v(1)) simp
    ultimately obtain us l' where "v = concat us @ l'" "host_label l'"
      "list_all (\<lambda>u. \<exists>l. host_label l \<and> u = l @ ''.'') us"
      using 1(1) by blast
    then show ?thesis
      using l v(1) by (intro exI [of _ "(?l @ ''.'') # us"] exI [of _ l']) auto
  qed
qed

lemma hostnameExp_lang: "h \<in> lang hostnameExp \<longleftrightarrow> valid_hostname h"
proof -
  have dot: "u \<in> lang (RConcat label_exp (RClass [(CHR ''.'', CHR ''.'')])) \<longleftrightarrow>
      (\<exists>l. host_label l \<and> u = l @ ''.'')" for u
    unfolding lang_concat lang_RClass lang_label class_single by blast
  have "h \<in> lang hostnameExp \<longleftrightarrow>
      (\<exists>us l. h = concat us @ l \<and> list_all (\<lambda>u. \<exists>l. host_label l \<and> u = l @ ''.'') us \<and> host_label l)"
    unfolding hostnameExp_def
    by (subst lang_concat) (auto simp: lang_label dot subset_eq list_all_iff simp del: lang.simps(4))
  then show ?thesis using valid_parts valid_concat by blast
qed

text \<open>C24. The expression accepts just the host names whose labels, between the dots, are not empty,
  have only letters, digits and hyphens, and neither start nor end with a hyphen; in particular
  a name with a slash, a percent sign or a byte above 127 is refused.\<close>

theorem hostname_accepted: "MatchString hostnameExp h \<longleftrightarrow> valid_hostname h"
  by (simp add: MatchString_lang hostnameExp_lang)

end
