(* ===== verification/Rest_Types.thy ===== *)
theory Rest_Types
  imports Dhcp_Packet Host_Names
begin

text \<open>
  What the REST server and its client library share: the content types and the lease and error
  types of \<open>client/types.go\<close>, HTTP responses, and the query of \<open>service/types.go\<close>. A content
  type is a string, as in the code. Errors are their texts. The variables of a path are what
  \<open>mux.Vars\<close> returns.
\<close>

subsection \<open>Content types\<close>

definition JSON :: string where "JSON = ''application/json''"
definition YAML :: string where "YAML = ''application/yaml''"
definition XML :: string where "XML = ''application/xml''"
definition Unknown :: string where "Unknown = ''text/html''"

definition content_parse :: "string \<Rightarrow> string" where
  "content_parse v =
     (if v = JSON then JSON else if v = YAML then YAML else if v = XML then XML else Unknown)"

lemmas content_defs = JSON_def YAML_def XML_def Unknown_def

lemma content_distinct [simp]:
  "JSON \<noteq> YAML" "JSON \<noteq> XML" "YAML \<noteq> JSON" "YAML \<noteq> XML" "XML \<noteq> JSON" "XML \<noteq> YAML"
  "Unknown \<noteq> JSON" "Unknown \<noteq> YAML" "Unknown \<noteq> XML" "[] \<noteq> JSON" "[] \<noteq> YAML" "[] \<noteq> XML"
  by (simp_all add: content_defs)

text \<open>The content types the service speaks.\<close>

definition spoken :: "string list" where
  "spoken = [JSON, XML, YAML]"

lemma content_parse_spoken [simp]: "t \<in> set spoken \<Longrightarrow> content_parse t = t"
  by (auto simp: spoken_def content_parse_def)

subsection \<open>Messages\<close>

record http_response =
  status :: nat
  ctype :: string
  body :: string

definition text_plain :: string where "text_plain = ''text/plain; charset=utf-8''"

text \<open>\<open>http.Error\<close> ends the message with a newline.\<close>

definition http_Error :: "string \<Rightarrow> nat \<Rightarrow> http_response" where
  "http_Error msg code = \<lparr>status = code, ctype = text_plain, body = msg @ [CHR 10]\<rparr>"

text \<open>A handler that returns without writing anything.\<close>

definition nothing_written :: http_response where
  "nothing_written = \<lparr>status = 200, ctype = [], body = []\<rparr>"

lemma http_Error_simps [simp]:
  "status (http_Error m c) = c" "ctype (http_Error m c) = text_plain"
  "body (http_Error m c) = m @ [CHR 10]"
  by (simp_all add: http_Error_def)

subsection \<open>The lease of the interface, and errors of the library\<close>

record rest_lease =
  l_hostname :: string
  l_mac :: hwaddr
  l_ip :: ip
  l_mask :: ip
  l_dns :: ip
  l_router :: ip
  l_renew :: time
  l_rebind :: time
  l_expire :: time

text \<open>\<open>NewError\<close>, with its code, and any other error.\<close>

datatype client_error = NewError int string | OtherError string

text \<open>\<open>MAC\<close>, a hardware address; the text its \<open>Marshal\<close> functions hand to the encoders, and the
  \<open>Unmarshal\<close> functions on what the decoders return; \<open>old\<close> is the value of the variable.\<close>

definition mac_text :: "hwaddr \<Rightarrow> string" where
  "mac_text m = mac_string (slice_bytes m)"

definition unmarshal_mac :: "hwaddr \<Rightarrow> string + string \<Rightarrow> (string option) \<times> hwaddr" where
  "unmarshal_mac old decoded = (case decoded of
       Inl e \<Rightarrow> (Some e, old)
     | Inr txt \<Rightarrow> (case parse_mac txt of
           None \<Rightarrow> (Some (mac_error txt), old)
         | Some m \<Rightarrow> (None, Some m)))"

subsection \<open>The query of a request\<close>

type_synonym vars = "string \<Rightarrow> string option"

record query =
  q_hostname :: string
  q_mac :: hwaddr
  q_ip :: ip

definition query_hostname :: "vars \<Rightarrow> query \<Rightarrow> string + query" where
  "query_hostname vs q = (case vs ''hostname'' of
       None \<Rightarrow> Inr q
     | Some h \<Rightarrow>
         if MatchString hostnameExp h then Inr (q\<lparr>q_hostname := h\<rparr>) else Inl ''invalid hostname'')"

definition query_mac :: "vars \<Rightarrow> query \<Rightarrow> string + query" where
  "query_mac vs q = (case vs ''mac'' of
       None \<Rightarrow> Inr q
     | Some m \<Rightarrow> (case parse_mac m of
           None \<Rightarrow> Inl (mac_error m)
         | Some b \<Rightarrow> Inr (q\<lparr>q_mac := Some b\<rparr>)))"

definition query_ip :: "vars \<Rightarrow> query \<Rightarrow> string + query" where
  "query_ip vs q = (case vs ''ip'' of
       None \<Rightarrow> Inr q
     | Some a \<Rightarrow> (case parse_ip a of
           None \<Rightarrow> Inl ''invalid IP format''
         | Some b \<Rightarrow> Inr (q\<lparr>q_ip := Some b\<rparr>)))"

definition NewQuery :: "vars \<Rightarrow> string + query" where
  "NewQuery vs =
     (case query_hostname vs \<lparr>q_hostname = [], q_mac = None, q_ip = None\<rparr> of
        Inl e \<Rightarrow> Inl e
      | Inr q \<Rightarrow> (case query_mac vs q of
            Inl e \<Rightarrow> Inl e
          | Inr q \<Rightarrow> query_ip vs q))"

text \<open>What a query is worth: everything it holds is well formed.\<close>

lemma NewQuery_sound:
  assumes "NewQuery vs = Inr q"
  shows "q_hostname q = [] \<and> vs ''hostname'' = None \<or>
      valid_hostname (q_hostname q) \<and> vs ''hostname'' = Some (q_hostname q)"
    and "\<And>m. q_mac q = Some m \<Longrightarrow> mac_len_ok (length m)"
  using assms
  by (auto simp: NewQuery_def query_hostname_def query_mac_def query_ip_def MatchString_lang
      hostnameExp_lang dest: parse_mac_len split: sum.splits option.splits if_splits)

text \<open>A query reads back the names and addresses that were printed.\<close>

lemma NewQuery_printed:
  assumes "vs ''hostname'' = Some h" and "valid_hostname h"
    and "vs ''mac'' = map_option mac_string m" and "\<And>b. m = Some b \<Longrightarrow> mac_len_ok (length b)"
    and "vs ''ip'' = map_option v4_string a" and "\<And>b. a = Some b \<Longrightarrow> length b = 4"
  shows "NewQuery vs =
    Inr \<lparr>q_hostname = h, q_mac = m, q_ip = map_option (\<lambda>b. v4_prefix @ b) a\<rparr>"
proof -
  have "MatchString hostnameExp h" using assms(2) by (simp add: MatchString_lang hostnameExp_lang)
  moreover have "\<And>b. m = Some b \<Longrightarrow> parse_mac (mac_string b) = Some b"
    using assms(4) parse_mac_string by blast
  moreover have "\<And>b. a = Some b \<Longrightarrow> parse_ip (v4_string b) = Some (v4_prefix @ b)"
    using assms(6) parse_ip_string_v4 by blast
  ultimately show ?thesis
    by (cases m; cases a)
      (simp_all add: NewQuery_def query_hostname_def query_mac_def query_ip_def assms(1,3,5))
qed

lemma mac_round_trip:
  "mac_len_ok (length b) \<Longrightarrow> unmarshal_mac old (Inr (mac_text (Some b))) = (None, Some b)"
  by (simp add: unmarshal_mac_def mac_text_def slice_bytes_def parse_mac_string)

end
