(* ===== verification/Rest_Service.thy ===== *)
theory Rest_Service
  imports Rest_Types
begin

text \<open>
  The REST server (\<open>service/server.go\<close>, \<open>service/middleware.go\<close>) and the client library
  (\<open>client/client.go\<close>), and both together. Of the server: the routes of the lease operations,
  the choice of the content type, the three handlers and the answer; of the library: its three
  operations, the call and the reading of the answer.

  Not the program's own, and so arguments: the router of \<open>gorilla/mux\<close> (\<open>route\<close>), the encoders
  and decoders of the formats (\<open>enc\<close>, \<open>dec\<close>), the transport (\<open>net\<close>), and the DHCP client, of
  which a handler takes the one value it receives. A panic in a handler ends the connection only,
  as \<open>net/http\<close> promises.
\<close>

subsection \<open>The answer of the server\<close>

definition rest_NewLease :: "string \<Rightarrow> lease \<Rightarrow> rest_lease result" where
  "rest_NewLease hostname l =
     bind_r (deref (DHCP4 l)) (\<lambda>d.
     bind_r (GetRenewalTime l) (\<lambda>renew.
     bind_r (GetRebindTime l) (\<lambda>rebind.
     bind_r (GetExpireTime l) (\<lambda>expire.
       Inr \<lparr>l_hostname = hostname, l_mac = ClientHWAddr d, l_ip = YourClientIP d,
            l_mask = GetSubnetMask d, l_dns = GetDNS d, l_router = GetRouter d,
            l_renew = renew, l_rebind = rebind, l_expire = expire\<rparr>))))"

type_synonym 'v encoder_of = "string \<Rightarrow> 'v \<Rightarrow> string + string"
type_synonym encoder = "rest_lease encoder_of"

text \<open>\<open>write\<close>; its error is not looked at by the handlers, which then have written nothing.\<close>

definition rest_write :: "'v encoder_of \<Rightarrow> 'v \<Rightarrow> string \<Rightarrow> http_response" where
  "rest_write enc v t =
     (if t = JSON \<or> t = XML then
        (case enc t v of
           Inl e \<Rightarrow> nothing_written
         | Inr data \<Rightarrow> \<lparr>status = 200, ctype = t, body = data @ [CHR 10]\<rparr>)
      else if t = YAML then
        (case enc t v of
           Inl e \<Rightarrow> nothing_written
         | Inr data \<Rightarrow> \<lparr>status = 200, ctype = t, body = data\<rparr>)
      else nothing_written)"

text \<open>\<open>ctx.Value(Content).(client.ContentType)\<close> panics when the context holds no content type.\<close>

definition content_of :: "string option \<Rightarrow> string result" where
  "content_of ct = (case ct of None \<Rightarrow> Inl TypeAssertion | Some t \<Rightarrow> Inr t)"

definition rest_response ::
  "encoder \<Rightarrow> string option \<Rightarrow> query \<Rightarrow> lease option \<Rightarrow> http_response result" where
  "rest_response enc ct q lease = (case lease of
       None \<Rightarrow> Inr (http_Error ''Request Timeout'' 408)
     | Some l \<Rightarrow>
         (case err l of
            Some e \<Rightarrow>
              if DHCP4 l \<noteq> None
              then bind_r (lease_msg_type l) (\<lambda>t.
                if t = DHCPMsgTypeNak then Inr (http_Error e 406) else Inr (http_Error e 400))
              else Inr (http_Error e 400)
          | None \<Rightarrow>
              bind_r (rest_NewLease (q_hostname q) l) (\<lambda>r.
              bind_r (content_of ct) (\<lambda>t.
                Inr (rest_write enc r t)))))"

subsection \<open>Handlers\<close>

text \<open>What the DHCP client's operations \<open>GetLease\<close>, \<open>Renew\<close> and \<open>Release\<close> send to the handler that
  waits for them.\<close>

record dhcp_calls =
  ask_lease :: "string \<Rightarrow> hwaddr \<Rightarrow> lease option"
  ask_renew :: "string \<Rightarrow> hwaddr \<Rightarrow> ip \<Rightarrow> lease option"
  ask_release :: "string \<Rightarrow> hwaddr \<Rightarrow> ip \<Rightarrow> string option"

definition lease_handler ::
  "dhcp_calls \<Rightarrow> encoder \<Rightarrow> string option \<Rightarrow> vars \<Rightarrow> http_response result" where
  "lease_handler cl enc ct vs = (case NewQuery vs of
       Inl e \<Rightarrow> Inr (http_Error e 400)
     | Inr q \<Rightarrow> rest_response enc ct q (ask_lease cl (q_hostname q) (q_mac q)))"

definition renew_handler ::
  "dhcp_calls \<Rightarrow> encoder \<Rightarrow> string option \<Rightarrow> vars \<Rightarrow> http_response result" where
  "renew_handler cl enc ct vs = (case NewQuery vs of
       Inl e \<Rightarrow> Inr (http_Error e 400)
     | Inr q \<Rightarrow> rest_response enc ct q (ask_renew cl (q_hostname q) (q_mac q) (q_ip q)))"

definition release_handler :: "dhcp_calls \<Rightarrow> vars \<Rightarrow> http_response result" where
  "release_handler cl vs = (case NewQuery vs of
       Inl e \<Rightarrow> Inr (http_Error e 400)
     | Inr q \<Rightarrow> (case ask_release cl (q_hostname q) (q_mac q) (q_ip q) of
           Some e \<Rightarrow> Inr (http_Error e 400)
         | None \<Rightarrow> Inr \<lparr>status = 200, ctype = text_plain, body = ''Ok.'' @ [CHR 10]\<rparr>))"

text \<open>The handler of \<open>/version\<close>; the build and version info is any value the encoders take.\<close>

definition version_handler :: "'v encoder_of \<Rightarrow> string option \<Rightarrow> 'v \<Rightarrow> http_response result" where
  "version_handler enc ct info = bind_r (content_of ct) (\<lambda>t. Inr (rest_write enc info t))"

definition ContentMiddleware ::
  "string \<Rightarrow> string \<Rightarrow> (string option \<Rightarrow> http_response result) \<Rightarrow> http_response result" where
  "ContentMiddleware path content next =
     (if has_prefix path ''/doc'' then next None
      else if contains content JSON then next (Some JSON)
      else if contains content XML then next (Some XML)
      else if content = [] \<or> content = ''*/*'' \<or> contains content YAML then next (Some YAML)
      else Inr (http_Error ''Unsupported Media Type'' 415))"

subsection \<open>Routes\<close>

datatype handler = HRenew | HRelease | HLease

definition renewPath :: string where "renewPath = ''/ip/{hostname}/{mac}/{ip}''"
definition releasePath :: string where "releasePath = ''/ip/{hostname}/{mac}/{ip}''"
definition leasePath :: "string list" where "leasePath = [''/ip/{hostname}'', ''/ip/{hostname}/{mac}'']"

definition lease_routes :: "(string \<times> string \<times> handler) list" where
  "lease_routes = [(''GET'', renewPath, HRenew), (''DELETE'', releasePath, HRelease)] @
     map (\<lambda>p. (''GET'', p, HLease)) leasePath"

text \<open>The server: the router finds the handler and the variables or answers itself.\<close>

type_synonym mux_router = "string \<Rightarrow> string \<Rightarrow> http_response + (handler \<times> vars)"

definition serve ::
  "mux_router \<Rightarrow> dhcp_calls \<Rightarrow> encoder \<Rightarrow> string \<Rightarrow> string \<Rightarrow> string \<Rightarrow> http_response result" where
  "serve route cl enc method path accept = (case route method path of
       Inl r \<Rightarrow> Inr r
     | Inr (h, vs) \<Rightarrow> ContentMiddleware path accept (\<lambda>ct. case h of
           HLease \<Rightarrow> lease_handler cl enc ct vs
         | HRenew \<Rightarrow> renew_handler cl enc ct vs
         | HRelease \<Rightarrow> release_handler cl vs))"

subsection \<open>The client library\<close>

record rest_client =
  url :: string
  contentType :: string

definition rest_NewClient :: "string \<Rightarrow> rest_client" where
  "rest_NewClient u = \<lparr>url = u, contentType = JSON\<rparr>"

definition SetContentType :: "rest_client \<Rightarrow> string \<Rightarrow> rest_client" where
  "SetContentType c t = c\<lparr>contentType := t\<rparr>"

text \<open>What becomes of a request: \<open>NewRequest\<close> refuses it, it fails, or there is an answer.\<close>

datatype transport = Refused string | Failed string | Response http_response

type_synonym network = "string \<Rightarrow> string \<Rightarrow> string \<Rightarrow> transport"

definition rest_call ::
  "network \<Rightarrow> rest_client \<Rightarrow> string \<Rightarrow> string \<Rightarrow> (client_error + string \<times> string) result" where
  "rest_call net c method u = (case net method u (contentType c) of
       Refused e \<Rightarrow> Inr (Inl (OtherError e))
     | Failed e \<Rightarrow> Inr (Inl (NewError (-1) e))
     | Response r \<Rightarrow>
         if status r \<noteq> 200
         then if body r = [] then Inl IndexOutOfRange
              else Inr (Inl (NewError (int (status r))
                (if last (body r) = CHR 10 then butlast (body r) else body r)))
         else Inr (Inr (body r, content_parse (ctype r))))"

type_synonym 'v decoder_of = "string \<Rightarrow> string \<Rightarrow> string + 'v"
type_synonym decoder = "rest_lease decoder_of"

definition rest_unmarshal :: "'v decoder_of \<Rightarrow> string \<Rightarrow> string \<Rightarrow> string + 'v" where
  "rest_unmarshal dec data mime =
     (if mime = YAML \<or> mime = JSON \<or> mime = XML then dec mime data
      else Inl ''unexpected content type'')"

definition rest_Lease ::
  "network \<Rightarrow> decoder \<Rightarrow> rest_client \<Rightarrow> string \<Rightarrow> hwaddr \<Rightarrow> (client_error + rest_lease) result" where
  "rest_Lease net dec c hostname mac =
     (if hostname = [] then Inr (Inl (NewError 400 ''Empty hostname''))
      else let u = url c @ ''/ip/'' @ hostname;
               u = (if mac \<noteq> None then u @ ''/'' @ mac_text mac else u)
      in bind_r (rest_call net c ''GET'' u) (\<lambda>res. Inr (case res of
           Inl e \<Rightarrow> Inl e
         | Inr (data, mime) \<Rightarrow> (case rest_unmarshal dec data mime of
               Inl e \<Rightarrow> Inl (NewError (-2) e)
             | Inr v \<Rightarrow> Inr v))))"

definition rest_Renew ::
  "network \<Rightarrow> decoder \<Rightarrow> rest_client \<Rightarrow> string \<Rightarrow> hwaddr \<Rightarrow> ip \<Rightarrow> (client_error + rest_lease) result" where
  "rest_Renew net dec c hostname mac ip =
     (if hostname = [] then Inr (Inl (NewError 400 ''Empty hostname''))
      else if mac = None then Inr (Inl (NewError 400 ''Missing mac address''))
      else if ip = None then Inr (Inl (NewError 400 ''Missing ip address''))
      else if to4 ip = None then Inr (Inl (NewError 400 ''Not a valid IP4 address''))
      else bind_r (rest_call net c ''GET''
          (url c @ ''/ip/'' @ hostname @ ''/'' @ mac_text mac @ ''/'' @ ip_string (to4 ip))) (\<lambda>res.
        Inr (case res of
           Inl e \<Rightarrow> Inl e
         | Inr (data, mime) \<Rightarrow> (case rest_unmarshal dec data mime of
               Inl e \<Rightarrow> Inl (OtherError e)
             | Inr v \<Rightarrow> Inr v))))"

definition rest_Release ::
  "network \<Rightarrow> rest_client \<Rightarrow> string \<Rightarrow> hwaddr \<Rightarrow> ip \<Rightarrow> client_error option result" where
  "rest_Release net c hostname mac ip =
     (if hostname = [] then Inr (Some (NewError 400 ''Empty hostname''))
      else if mac = None then Inr (Some (NewError 400 ''Missing mac address''))
      else if ip = None then Inr (Some (NewError 400 ''Missing ip address''))
      else bind_r (rest_call net c ''DELETE''
          (url c @ ''/ip/'' @ hostname @ ''/'' @ mac_text mac @ ''/'' @ ip_string ip)) (\<lambda>res.
        Inr (case res of Inl e \<Rightarrow> Some e | Inr _ \<Rightarrow> None)))"

definition rest_Version ::
  "network \<Rightarrow> 'v decoder_of \<Rightarrow> rest_client \<Rightarrow> (client_error + 'v) result" where
  "rest_Version net dec c = bind_r (rest_call net c ''GET'' (url c @ ''/version'')) (\<lambda>res.
     Inr (case res of
       Inl e \<Rightarrow> Inl e
     | Inr (data, mime) \<Rightarrow> (case rest_unmarshal dec data mime of
           Inl e \<Rightarrow> Inl (OtherError e)
         | Inr v \<Rightarrow> Inr v)))"

end
