(* ===== verification/Rest_Routes.thy ===== *)
theory Rest_Routes
  imports Rest_Service
begin

text \<open>
  The way of a request from the client library to the server and of the answer back. The router is described by what \<open>gorilla/mux\<close> documents of the templates the server gives
  it; the transport delivers what the server answers, and fails when a handler panics.
\<close>

subsection \<open>Templates\<close>

text \<open>The path a template stands for when its variables have values, and their names.\<close>

function fill :: "vars \<Rightarrow> string \<Rightarrow> string" where
  "fill vs [] = []"
| "fill vs (c # s) =
     (if c = CHR 0x7B
      then (case vs (takeWhile (\<lambda>x. x \<noteq> CHR 0x7D) s) of None \<Rightarrow> [] | Some v \<Rightarrow> v) @
        fill vs (drop 1 (dropWhile (\<lambda>x. x \<noteq> CHR 0x7D) s))
      else c # fill vs s)"
  by pat_completeness auto

termination
  by (relation "measure (\<lambda>(vs, s). length s)")
    (auto intro: le_imp_less_Suc le_trans [OF diff_le_self length_dropWhile_le])

definition template_names :: "string \<Rightarrow> string list" where
  "template_names t =
     filter (\<lambda>n. fill [n \<mapsto> ''x''] t \<noteq> fill Map.empty t) [''hostname'', ''mac'', ''ip'']"

text \<open>A value a variable can have: not empty, without a slash, and none of the dot segments that
  cleaning a path removes.\<close>

definition segment :: "string \<Rightarrow> bool" where
  "segment v \<longleftrightarrow> v \<noteq> [] \<and> CHR ''/'' \<notin> set v \<and> v \<noteq> ''.'' \<and> v \<noteq> ''..''"

definition mux_contract :: "mux_router \<Rightarrow> bool" where
  "mux_contract route \<longleftrightarrow>
     (\<forall>(m, t, h) \<in> set lease_routes. \<forall>vs. (\<forall>n \<in> set (template_names t). \<exists>v. vs n = Some v \<and> segment v) \<longrightarrow>
        route m (fill vs t) = Inr (h, vs |` set (template_names t)))"

text \<open>\<open>lost\<close> is the error of the transport for a connection the server ended.\<close>

definition delivers ::
  "string \<Rightarrow> network \<Rightarrow> mux_router \<Rightarrow> dhcp_calls \<Rightarrow> encoder \<Rightarrow> rest_client \<Rightarrow> bool" where
  "delivers lost net route cl enc c \<longleftrightarrow>
     (\<forall>m p. net m (url c @ p) (contentType c) =
        (case serve route cl enc m p (contentType c) of
           Inl panic \<Rightarrow> Failed lost
         | Inr r \<Rightarrow> Response r))"

lemma template_facts:
  "template_names renewPath = [''hostname'', ''mac'', ''ip'']"
  "template_names releasePath = [''hostname'', ''mac'', ''ip'']"
  "template_names ''/ip/{hostname}'' = [''hostname'']"
  "template_names ''/ip/{hostname}/{mac}'' = [''hostname'', ''mac'']"
  by code_simp+

lemma fill_paths:
  "vs ''hostname'' = Some h \<Longrightarrow> fill vs ''/ip/{hostname}'' = ''/ip/'' @ h"
  "vs ''hostname'' = Some h \<Longrightarrow> vs ''mac'' = Some m \<Longrightarrow>
    fill vs ''/ip/{hostname}/{mac}'' = ''/ip/'' @ h @ ''/'' @ m"
  "vs ''hostname'' = Some h \<Longrightarrow> vs ''mac'' = Some m \<Longrightarrow> vs ''ip'' = Some a \<Longrightarrow>
    fill vs renewPath = ''/ip/'' @ h @ ''/'' @ m @ ''/'' @ a"
  "releasePath = renewPath"
  by (simp_all add: renewPath_def releasePath_def)

subsection \<open>What is printed is a segment\<close>

lemma valid_hostname_segment:
  assumes "valid_hostname h"
  shows "segment h" and "h \<noteq> []"
proof -
  have "c \<noteq> CHR ''/''" if "c \<in> set h" for c
  proof -
    have "h \<in> lang hostnameExp" using assms by (simp add: hostnameExp_lang)
    then obtain us l where h: "h = concat us @ l" "host_label l"
        "list_all (\<lambda>u. \<exists>l. host_label l \<and> u = l @ ''.'') us"
      using valid_parts [OF assms] by blast
    have "c \<in> set l \<or> (\<exists>l. host_label l \<and> c \<in> set l) \<or> c = CHR ''.''"
      using that h by (fastforce simp: list_all_iff)
    then show ?thesis using h(2) by (auto simp: host_label_def list_all_iff is_alnum_def in_class_def alnum_def)
  qed
  moreover have "h \<noteq> []" "h \<noteq> ''.''" "h \<noteq> ''..''"
    using assms by (auto simp: valid_hostname_def host_label_def)
  ultimately show "segment h" "h \<noteq> []" by (auto simp: segment_def)
qed

lemma digit_char_not_slash: "n < 16 \<Longrightarrow> digit_char n \<noteq> CHR ''/''"
proof -
  have "list_all (\<lambda>n. digit_char n \<noteq> CHR ''/'') [0..<16]" by code_simp
  then show "n < 16 \<Longrightarrow> ?thesis" by (simp add: list_all_iff)
qed

lemma hex2_chars: "CHR ''/'' \<notin> set (hex2 b)"
proof -
  have "unat b div 16 < 16" using unat_byte_less [of b] by (simp add: less_mult_imp_div_less)
  moreover have "unat b mod 16 < 16" by simp
  ultimately show ?thesis using digit_char_not_slash by (auto simp: hex2_def dest: sym)
qed

lemma mac_string_chars: "CHR ''/'' \<notin> set (mac_string m)"
  by (induction m rule: mac_string.induct) (simp_all add: hex2_chars)

lemma mac_string_segment:
  assumes "mac_len_ok (length m)"
  shows "segment (mac_string m)"
proof -
  have "6 \<le> length m" using assms by (auto simp: mac_len_ok_def)
  then have "16 < length (mac_string m)" using length_mac_string [of m] by fastforce
  then show ?thesis using mac_string_chars [of m] by (auto simp: segment_def)
qed

lemma nat_str_no_slash: "CHR ''/'' \<notin> set (nat_str n)"
proof (induction n rule: nat_str.induct)
  case (1 n)
  have "n mod 10 < 16" by (rule less_trans [of _ 10]) simp_all
  with 1 show ?case
    using digit_char_not_slash [of "n mod 10"] digit_char_not_slash [of n]
    by (cases "n < 10") (auto simp: nat_str.simps [of n])
qed

lemma v4_string_segment:
  assumes "length b = 4"
  shows "segment (v4_string b)"
proof -
  obtain b0 b1 b2 b3 where b: "b = [b0, b1, b2, b3]"
    using assms by (auto simp: length_Suc_conv numeral_eq_Suc)
  have n: "1 \<le> length (nat_str k)" for k
    by (cases "nat_str k") simp_all
  have "7 \<le> length (v4_string b)"
    using n [of "unat b0"] n [of "unat b1"] n [of "unat b2"] n [of "unat b3"] unfolding b by simp
  moreover have "CHR ''/'' \<notin> set (v4_string b)" by (simp add: b nat_str_no_slash)
  ultimately show ?thesis by (auto simp: segment_def)
qed

subsection \<open>A request arrives\<close>

lemma contains_spoken:
  "contains JSON XML = False" "contains JSON YAML = False" "contains XML JSON = False"
  "contains YAML JSON = False" "contains YAML XML = False"
  by code_simp+

lemma middleware_spoken:
  assumes "t \<in> set spoken" and "\<not> has_prefix path ''/doc''"
  shows "ContentMiddleware path t next = next (Some t)"
proof -
  consider "t = JSON" | "t = XML" | "t = YAML" using assms(1) by (auto simp: spoken_def)
  then show ?thesis
    using assms(2) by cases (simp_all add: ContentMiddleware_def contains_spoken)
qed

lemma ip_path_no_doc: "\<not> has_prefix (''/ip/'' @ p) ''/doc''"
  by (simp add: has_prefix_def)

definition the_query :: "string \<Rightarrow> hwaddr \<Rightarrow> bytes option \<Rightarrow> query" where
  "the_query h m a = \<lparr>q_hostname = h, q_mac = m, q_ip = map_option (\<lambda>b. v4_prefix @ b) a\<rparr>"

lemma the_query_simps [simp]:
  "q_hostname (the_query h m a) = h" "q_mac (the_query h m a) = m"
  "q_ip (the_query h m a) = map_option (\<lambda>b. v4_prefix @ b) a"
  by (simp_all add: the_query_def)

text \<open>What the caller gives, as the values of the variables.\<close>

definition printed :: "string \<Rightarrow> hwaddr \<Rightarrow> bytes option \<Rightarrow> vars" where
  "printed h m a = [''hostname'' \<mapsto> h](''mac'' := map_option mac_string m, ''ip'' := map_option v4_string a)"

lemma printed_simps [simp]:
  "printed h m a ''hostname'' = Some h" "printed h m a ''mac'' = map_option mac_string m"
  "printed h m a ''ip'' = map_option v4_string a"
  by (simp_all add: printed_def)

definition sound_call :: "string \<Rightarrow> hwaddr \<Rightarrow> bytes option \<Rightarrow> bool" where
  "sound_call h m a \<longleftrightarrow> valid_hostname h \<and>
     (case m of None \<Rightarrow> True | Some b \<Rightarrow> mac_len_ok (length b)) \<and>
     (case a of None \<Rightarrow> True | Some b \<Rightarrow> length b = 4)"

lemma sound_call_iff:
  "sound_call h m a \<longleftrightarrow> valid_hostname h \<and> (\<forall>b. m = Some b \<longrightarrow> mac_len_ok (length b)) \<and>
     (\<forall>b. a = Some b \<longrightarrow> length b = 4)"
  by (auto simp: sound_call_def split: option.split)

lemma sound_segments:
  assumes "sound_call h m a"
  shows "segment h" "m = Some b \<Longrightarrow> segment (mac_string b)" "a = Some b' \<Longrightarrow> segment (v4_string b')"
  using assms valid_hostname_segment mac_string_segment v4_string_segment
  by (auto simp: sound_call_iff)

lemma NewQuery_routed:
  assumes "sound_call h m a" and "''hostname'' \<in> N"
    and "m \<noteq> None \<longleftrightarrow> ''mac'' \<in> N" and "a \<noteq> None \<longleftrightarrow> ''ip'' \<in> N"
  shows "NewQuery (printed h m a |` N) = Inr (the_query h m a)"
  unfolding the_query_def
  by (rule NewQuery_printed) (use assms in \<open>auto simp: sound_call_iff restrict_map_def\<close>)

lemma routed:
  assumes "mux_contract route" and "(meth, t, ha) \<in> set lease_routes"
    and "\<forall>n \<in> set (template_names t). \<exists>v. vs n = Some v \<and> segment v"
  shows "route meth (fill vs t) = Inr (ha, vs |` set (template_names t))"
  using assms by (fastforce simp: mux_contract_def)

lemma routes_simps:
  "(''GET'', ''/ip/{hostname}'', HLease) \<in> set lease_routes"
  "(''GET'', ''/ip/{hostname}/{mac}'', HLease) \<in> set lease_routes"
  "(''GET'', renewPath, HRenew) \<in> set lease_routes"
  "(''DELETE'', renewPath, HRelease) \<in> set lease_routes"
  by (simp_all add: lease_routes_def leasePath_def fill_paths(4))

definition lease_path :: "string \<Rightarrow> hwaddr \<Rightarrow> string" where
  "lease_path h m = ''/ip/'' @ h @ (case m of None \<Rightarrow> [] | Some b \<Rightarrow> ''/'' @ mac_string b)"

definition full_path :: "string \<Rightarrow> bytes \<Rightarrow> bytes \<Rightarrow> string" where
  "full_path h m a = ''/ip/'' @ h @ ''/'' @ mac_string m @ ''/'' @ v4_string a"

lemma lease_served:
  assumes mux: "mux_contract route" and ok: "sound_call h m None" and t: "t \<in> set spoken"
  shows "serve route cl enc ''GET'' (lease_path h m) t =
    rest_response enc (Some t) (the_query h m None) (ask_lease cl h m)"
proof -
  let ?N = "if m = None then {''hostname''} else {''hostname'', ''mac''}"
  note seg = sound_segments [OF ok]
  have "route ''GET'' (lease_path h m) = Inr (HLease, printed h m None |` ?N)"
  proof (cases m)
    case None
    then show ?thesis
      using routed [OF mux routes_simps(1), of "printed h m None"] seg(1)
        fill_paths(1) [of "printed h m None" h]
      by (simp add: lease_path_def template_facts)
  next
    case (Some b)
    then show ?thesis
      using routed [OF mux routes_simps(2), of "printed h m None"] seg(1) seg(2) [of b]
        fill_paths(2) [of "printed h m None" h "mac_string b"]
      by (simp add: lease_path_def template_facts)
  qed
  moreover have "NewQuery (printed h m None |` ?N) = Inr (the_query h m None)"
    by (rule NewQuery_routed [OF ok]) auto
  ultimately show ?thesis
    using ip_path_no_doc
    by (simp add: serve_def middleware_spoken [OF t] lease_path_def lease_handler_def)
qed

lemma full_path_served:
  assumes mux: "mux_contract route" and ok: "sound_call h (Some m) (Some a)" and t: "t \<in> set spoken"
  shows "serve route cl enc ''GET'' (full_path h m a) t =
      rest_response enc (Some t) (the_query h (Some m) (Some a)) (ask_renew cl h (Some m) (Some (v4_prefix @ a)))"
    and "serve route cl enc ''DELETE'' (full_path h m a) t =
      (case ask_release cl h (Some m) (Some (v4_prefix @ a)) of
         Some e \<Rightarrow> Inr (http_Error e 400)
       | None \<Rightarrow> Inr \<lparr>status = 200, ctype = text_plain, body = ''Ok.'' @ [CHR 10]\<rparr>)"
proof -
  let ?vs = "printed h (Some m) (Some a)" and ?N = "{''hostname'', ''mac'', ''ip''}"
  note seg = sound_segments [OF ok]
  have f: "fill ?vs renewPath = full_path h m a"
    by (simp add: fill_paths(3) full_path_def)
  have seg: "\<forall>n \<in> set (template_names renewPath). \<exists>v. ?vs n = Some v \<and> segment v"
    using seg by (simp add: template_facts)
  have r: "route ''GET'' (full_path h m a) = Inr (HRenew, ?vs |` ?N)"
      "route ''DELETE'' (full_path h m a) = Inr (HRelease, ?vs |` ?N)"
    using routed [OF mux routes_simps(3) seg] routed [OF mux routes_simps(4) seg]
    by (simp_all add: f template_facts)
  have q: "NewQuery (?vs |` ?N) = Inr (the_query h (Some m) (Some a))"
    by (rule NewQuery_routed [OF ok]) auto
  have d: "\<not> has_prefix (full_path h m a) ''/doc''" using ip_path_no_doc by (simp add: full_path_def)
  show "serve route cl enc ''GET'' (full_path h m a) t =
      rest_response enc (Some t) (the_query h (Some m) (Some a)) (ask_renew cl h (Some m) (Some (v4_prefix @ a)))"
    by (simp add: serve_def r(1) middleware_spoken [OF t d] renew_handler_def q)
  show "serve route cl enc ''DELETE'' (full_path h m a) t =
      (case ask_release cl h (Some m) (Some (v4_prefix @ a)) of
         Some e \<Rightarrow> Inr (http_Error e 400)
       | None \<Rightarrow> Inr \<lparr>status = 200, ctype = text_plain, body = ''Ok.'' @ [CHR 10]\<rparr>)"
    by (simp add: serve_def r(2) middleware_spoken [OF t d] release_handler_def q)
qed

subsection \<open>A router\<close>

text \<open>A router that meets the contract: it looks at the segments of the path.\<close>

definition not_found :: http_response where
  "not_found = http_Error ''404 page not found'' 404"

definition sample_router :: mux_router where
  "sample_router m p = (case split_on (CHR ''/'') p of
       [s, i, h] \<Rightarrow> if m = ''GET'' then Inr (HLease, [''hostname'' \<mapsto> h]) else Inl not_found
     | [s, i, h, a] \<Rightarrow>
         if m = ''GET'' then Inr (HLease, [''hostname'' \<mapsto> h, ''mac'' \<mapsto> a]) else Inl not_found
     | [s, i, h, a, b] \<Rightarrow>
         if m = ''GET'' then Inr (HRenew, [''hostname'' \<mapsto> h, ''mac'' \<mapsto> a, ''ip'' \<mapsto> b])
         else if m = ''DELETE'' then Inr (HRelease, [''hostname'' \<mapsto> h, ''mac'' \<mapsto> a, ''ip'' \<mapsto> b])
         else Inl not_found
     | _ \<Rightarrow> Inl not_found)"

lemma restrict_names:
  "vs ''hostname'' = Some h \<Longrightarrow> vs |` {''hostname''} = [''hostname'' \<mapsto> h]"
  "vs ''hostname'' = Some h \<Longrightarrow> vs ''mac'' = Some m \<Longrightarrow>
    vs |` {''hostname'', ''mac''} = [''hostname'' \<mapsto> h, ''mac'' \<mapsto> m]"
  "vs ''hostname'' = Some h \<Longrightarrow> vs ''mac'' = Some m \<Longrightarrow> vs ''ip'' = Some a \<Longrightarrow>
    vs |` {''hostname'', ''mac'', ''ip''} = [''hostname'' \<mapsto> h, ''mac'' \<mapsto> m, ''ip'' \<mapsto> a]"
  by (auto simp: restrict_map_def fun_eq_iff)

lemma sample_contract: "mux_contract sample_router"
  unfolding mux_contract_def
proof (intro ballI, unfold split_paired_all prod.case, intro allI impI)
  fix m t h vs
  assume mem: "(m, t, h) \<in> set lease_routes"
    and "\<forall>n \<in> set (template_names t). \<exists>v. vs n = Some v \<and> segment v"
  then show "sample_router m (fill vs t) = Inr (h, vs |` set (template_names t))"
    by (auto simp: lease_routes_def leasePath_def template_facts fill_paths sample_router_def
        segment_def split_on_append split_on_free restrict_names)
qed

text \<open>A transport over it.\<close>

definition sample_net :: "dhcp_calls \<Rightarrow> encoder \<Rightarrow> string \<Rightarrow> network" where
  "sample_net cl enc base m u t =
     (case serve sample_router cl enc m (drop (length base) u) t of
        Inl panic \<Rightarrow> Failed ''EOF''
      | Inr r \<Rightarrow> Response r)"

lemma sample_delivers:
  "url c = base \<Longrightarrow> delivers ''EOF'' (sample_net cl enc base) sample_router cl enc c"
  by (simp add: delivers_def sample_net_def)

end
