(* ===== verification/Lease_Store.thy ===== *)
theory Lease_Store
  imports Dhcp_Packet
begin

text \<open>
  \<open>dhcp/store.go\<close>: the store of pending transactions, a map from transaction ids to leases
  with a time to live, and its cleaner.

  The store holds pointers: the lease an item refers to is the one the request goroutine
  waits on and the receive loop updates. So leases live in a heap (\<open>nat \<Rightarrow> lease\<close>) and an item
  holds a reference. The Go map is an association list whose order stands for the iteration
  order of \<open>range\<close>; no property depends on it. \<open>Set\<close> refuses a nil lease, so an item's
  reference is never nil. The mutexes are held for the whole of an operation, which is one
  function here; \<open>Clean\<close> takes two of them one after the other and is two functions.
\<close>

named_theorems store_simps \<open>what the store operations do to a lookup\<close>

type_synonym heap = "nat \<Rightarrow> lease"

record item =
  item_lease :: nat
  Expire :: time
  Status :: msg_type

record lease_store =
  store :: "(u32 \<times> item) list"
  ttl :: time
  checks :: time

definition NewStore :: "time \<Rightarrow> lease_store" where
  "NewStore t = \<lparr>store = [], ttl = t, checks = (if 0 \<le> t then t div 2 else - ((- t) div 2))\<rparr>"

definition store_lookup :: "lease_store \<Rightarrow> u32 \<Rightarrow> item option" where
  "store_lookup st xid = map_of (store st) xid"

definition store_put :: "lease_store \<Rightarrow> u32 \<Rightarrow> item \<Rightarrow> lease_store" where
  "store_put st xid it = st\<lparr>store := AList.update xid it (store st)\<rparr>"

definition store_delete :: "lease_store \<Rightarrow> u32 \<Rightarrow> lease_store" where
  "store_delete st xid = st\<lparr>store := AList.delete xid (store st)\<rparr>"

text \<open>\<open>Set\<close>: its error, if any, and the store; \<open>lr\<close> is the lease pointer.\<close>

definition store_set ::
  "heap \<Rightarrow> time \<Rightarrow> lease_store \<Rightarrow> nat option \<Rightarrow> (string option \<times> lease_store) result" where
  "store_set h now st lr =
     (case lr of
        None \<Rightarrow> Inr (Some ''try to store empty lease'', st)
      | Some r \<Rightarrow>
          bind_r (deref (DHCP4 (h r))) (\<lambda>d.
          bind_r (GetMsgType d) (\<lambda>t.
            Inr (None, store_put st (Xid d)
              \<lparr>item_lease = r, Expire = now + ttl st, Status = t\<rparr>))))"

text \<open>
  \<open>Get\<close> locks the lease it returns and hands out the unlock function; it waits while the
  lease is locked, which is the result \<open>None\<close>. An absent id gives a nil lease.
\<close>

definition store_get :: "heap \<Rightarrow> lease_store \<Rightarrow> u32 \<Rightarrow> (nat option \<times> heap) option" where
  "store_get h st xid =
     (case store_lookup st xid of
        None \<Rightarrow> Some (None, h)
      | Some it \<Rightarrow>
          let r = item_lease it in
          if mux (h r) then None else Some (Some r, h(r := (h r)\<lparr>mux := True\<rparr>)))"

definition unlock_lease :: "heap \<Rightarrow> nat option \<Rightarrow> heap" where
  "unlock_lease h lr = (case lr of None \<Rightarrow> h | Some r \<Rightarrow> h(r := (h r)\<lparr>mux := False\<rparr>))"

definition store_get_item :: "lease_store \<Rightarrow> u32 \<Rightarrow> item option" where
  "store_get_item st xid = store_lookup st xid"

definition store_has :: "lease_store \<Rightarrow> u32 \<Rightarrow> bool" where
  "store_has st xid \<longleftrightarrow> store_lookup st xid \<noteq> None"

definition store_remove :: "lease_store \<Rightarrow> u32 \<Rightarrow> bool \<times> lease_store" where
  "store_remove st xid =
     (if store_lookup st xid \<noteq> None then (True, store_delete st xid) else (False, st))"

definition store_touch :: "time \<Rightarrow> lease_store \<Rightarrow> u32 \<Rightarrow> bool \<times> lease_store" where
  "store_touch now st xid =
     (case store_lookup st xid of
        Some it \<Rightarrow> (True, store_put st xid (it\<lparr>Expire := now + ttl st\<rparr>))
      | None \<Rightarrow> (False, st))"

definition store_has_status :: "heap \<Rightarrow> lease_store \<Rightarrow> u32 \<Rightarrow> msg_type \<Rightarrow> bool result" where
  "store_has_status h st xid status =
     (case store_lookup st xid of
        Some it \<Rightarrow> bind_r (lease_msg_type (h (item_lease it))) (\<lambda>t. Inr (t = status))
      | None \<Rightarrow> Inr False)"

definition outdated :: "time \<Rightarrow> lease_store \<Rightarrow> u32 list" where
  "outdated now st = map fst (filter (\<lambda>(k, it). Expire it < now) (store st))"

text \<open>
  The second half of \<open>Clean\<close>, under the write lock: wake the waiter of each outdated entry
  and delete the entry. A send on a closed channel panics; a send on a nil or full channel
  blocks for ever, holding the lock, which is the result \<open>Inr None\<close>.
\<close>

fun clean_keys :: "u32 list \<Rightarrow> heap \<Rightarrow> lease_store \<Rightarrow> (heap \<times> lease_store) option result" where
  "clean_keys [] h st = Inr (Some (h, st))"
| "clean_keys (key # keys) h st =
     (case store_lookup st key of
        None \<Rightarrow> clean_keys keys h st
      | Some e \<Rightarrow>
          let r = item_lease e in
          (case Done (h r) of
             None \<Rightarrow> Inr None
           | Some c \<Rightarrow> bind_r (chan_send c) (\<lambda>sent.
               case sent of
                 None \<Rightarrow> Inr None
               | Some c' \<Rightarrow>
                   clean_keys keys (h(r := (h r)\<lparr>Done := Some c'\<rparr>)) (store_delete st key))))"

definition Clean :: "time \<Rightarrow> heap \<Rightarrow> lease_store \<Rightarrow> (heap \<times> lease_store) option result" where
  "Clean now h st =
     (let ks = outdated now st in
      if 0 < length ks then clean_keys ks h st else Inr (Some (h, st)))"

subsection \<open>The store as a keyed store\<close>

lemma store_lookup_simps [simp, store_simps]:
  "store_lookup (store_put st k it) j = (if j = k then Some it else store_lookup st j)"
  "store_lookup (store_delete st k) j = (if j = k then None else store_lookup st j)"
  by (simp_all add: store_lookup_def store_put_def store_delete_def)

interpretation ls: keyed_del store_lookup store_put store_delete
  by unfold_locales simp_all

lemma store_put_ttl [simp]: "ttl (store_put st k it) = ttl st" "ttl (store_delete st k) = ttl st"
  by (simp_all add: store_put_def store_delete_def)

lemma store_remove_lookup [store_simps]:
  "store_lookup (snd (store_remove st k)) j = (if j = k then None else store_lookup st j)"
  by (simp add: store_remove_def)

definition keys_distinct :: "lease_store \<Rightarrow> bool" where
  "keys_distinct st \<longleftrightarrow> distinct (map fst (store st))"

lemma keys_distinct_NewStore [simp]: "keys_distinct (NewStore t)"
  by (simp add: keys_distinct_def NewStore_def)

lemma keys_distinct_put [simp]: "keys_distinct st \<Longrightarrow> keys_distinct (store_put st k it)"
  by (simp add: keys_distinct_def store_put_def distinct_update)

lemma keys_distinct_delete [simp]: "keys_distinct st \<Longrightarrow> keys_distinct (store_delete st k)"
  by (simp add: keys_distinct_def store_delete_def distinct_delete)

lemma lookup_in_store:
  "keys_distinct st \<Longrightarrow> store_lookup st k = Some it \<longleftrightarrow> (k, it) \<in> set (store st)"
  by (simp add: store_lookup_def keys_distinct_def)

lemma outdated_iff:
  "keys_distinct st \<Longrightarrow>
     k \<in> set (outdated now st) \<longleftrightarrow> (\<exists>it. store_lookup st k = Some it \<and> Expire it < now)"
  by (force simp: outdated_def lookup_in_store)

lemma distinct_outdated: "keys_distinct st \<Longrightarrow> distinct (outdated now st)"
  by (simp add: outdated_def keys_distinct_def distinct_map_filter)

subsection \<open>The invariant of the store\<close>

text \<open>
  Every item refers to a lease with a packet whose transaction id is the item's key, and
  with a \<open>Done\<close> channel in whose buffer nothing waits. Because the key is the packet's own
  id, two items never share a lease.
\<close>

definition entry_ok :: "heap \<Rightarrow> u32 \<Rightarrow> item \<Rightarrow> bool" where
  "entry_ok h k it \<longleftrightarrow> (\<exists>d c. DHCP4 (h (item_lease it)) = Some d \<and> Xid d = k \<and>
     Done (h (item_lease it)) = Some c \<and> buffered c = 0)"

definition store_inv :: "heap \<Rightarrow> lease_store \<Rightarrow> bool" where
  "store_inv h st \<longleftrightarrow> keys_distinct st \<and>
     (\<forall>k it. store_lookup st k = Some it \<longrightarrow> entry_ok h k it)"

definition entry_closed :: "heap \<Rightarrow> item \<Rightarrow> bool" where
  "entry_closed h it \<longleftrightarrow> (\<exists>c. Done (h (item_lease it)) = Some c \<and> closed c)"

lemma store_invD: "store_inv h st \<Longrightarrow> store_lookup st k = Some it \<Longrightarrow> entry_ok h k it"
  by (simp add: store_inv_def)

lemma store_inv_keys: "store_inv h st \<Longrightarrow> keys_distinct st"
  by (simp add: store_inv_def)

lemma store_inv_NewStore [simp]: "store_inv h (NewStore t)"
  by (simp add: store_inv_def store_lookup_def NewStore_def keys_distinct_def)

lemma entries_unshared:
  "store_inv h st \<Longrightarrow> store_lookup st k = Some it \<Longrightarrow> store_lookup st j = Some jt \<Longrightarrow>
     item_lease it = item_lease jt \<Longrightarrow> j = k"
  using store_invD [of h st k it] store_invD [of h st j jt] by (auto simp: entry_ok_def)

lemma store_inv_delete: "store_inv h st \<Longrightarrow> store_inv h (store_delete st k)"
  by (simp add: store_inv_def)

lemma store_inv_remove: "store_inv h st \<Longrightarrow> store_inv h (snd (store_remove st k))"
  by (simp add: store_remove_def store_inv_delete)

lemma store_inv_put: "store_inv h st \<Longrightarrow> entry_ok h k it \<Longrightarrow> store_inv h (store_put st k it)"
  by (auto simp: store_inv_def)

lemma store_inv_cong:
  assumes "store_inv h st"
    and "\<And>k it. store_lookup st k = Some it \<Longrightarrow> entry_ok h k it \<Longrightarrow> entry_ok h' k it"
  shows "store_inv h' st"
  using assms by (auto simp: store_inv_def)

lemma store_set_spec:
  assumes "DHCP4 (h r) = Some d" and "GetMsgType d = Inr t"
  shows "store_set h now st (Some r) =
    Inr (None, store_put st (Xid d) \<lparr>item_lease = r, Expire = now + ttl st, Status = t\<rparr>)"
  using assms by (simp add: store_set_def)

lemma store_set_inv:
  assumes "store_inv h st" and "store_set h now st lr = Inr (e, st')"
    and "\<And>r. lr = Some r \<Longrightarrow> \<exists>c. Done (h r) = Some c \<and> buffered c = 0"
  shows "store_inv h st'"
  using assms
  by (auto simp: store_set_def bind_r_eq_Inr entry_ok_def split: option.splits intro!: store_inv_put)

lemma store_touch_inv: "store_inv h st \<Longrightarrow> store_inv h (snd (store_touch now st k))"
  by (auto simp: store_touch_def entry_ok_def dest: store_invD
      split: option.splits intro!: store_inv_put)

subsection \<open>The cleaner\<close>

definition wake :: "lease \<Rightarrow> lease" where
  "wake l = l\<lparr>Done := map_option (\<lambda>c. c\<lparr>buffered := 1\<rparr>) (Done l)\<rparr>"

definition woken :: "lease_store \<Rightarrow> u32 set \<Rightarrow> nat set" where
  "woken st ks = {item_lease it | k it. k \<in> ks \<and> store_lookup st k = Some it}"

lemma woken_empty [simp]: "woken st {} = {}"
  by (simp add: woken_def)

lemma clean_step:
  assumes "store_inv h st" and "store_lookup st k = Some it" and "\<not> entry_closed h it"
  shows "clean_keys (k # ks) h st =
     clean_keys ks (h(item_lease it := wake (h (item_lease it)))) (store_delete st k)"
    and "store_inv (h(item_lease it := wake (h (item_lease it)))) (store_delete st k)"
proof -
  obtain c where c: "Done (h (item_lease it)) = Some c" "buffered c = 0" "\<not> closed c"
    using store_invD [OF assms(1,2)] assms(3) by (auto simp: entry_ok_def entry_closed_def)
  then show "clean_keys (k # ks) h st =
     clean_keys ks (h(item_lease it := wake (h (item_lease it)))) (store_delete st k)"
    using assms(2) by (simp add: chan_send_def wake_def Let_def)
  show "store_inv (h(item_lease it := wake (h (item_lease it)))) (store_delete st k)"
    by (rule store_inv_cong [OF store_inv_delete [OF assms(1)]])
      (use entries_unshared [OF assms(1) assms(2)] in \<open>auto simp: entry_ok_def split: if_splits\<close>)
qed

lemma entry_closed_other:
  "store_inv h st \<Longrightarrow> store_lookup st k = Some it \<Longrightarrow> store_lookup st j = Some jt \<Longrightarrow> j \<noteq> k \<Longrightarrow>
     entry_closed (h(item_lease it := l)) jt = entry_closed h jt"
  using entries_unshared [of h st k it j jt] by (auto simp: entry_closed_def)

lemma clean_keys_open:
  assumes "store_inv h st" and "distinct ks"
    and "\<And>k it. k \<in> set ks \<Longrightarrow> store_lookup st k = Some it \<Longrightarrow> \<not> entry_closed h it"
  shows "\<exists>st'. clean_keys ks h st =
      Inr (Some (\<lambda>r. if r \<in> woken st (set ks) then wake (h r) else h r, st')) \<and>
    (\<forall>j. store_lookup st' j = (if j \<in> set ks then None else store_lookup st j)) \<and>
    store_inv (\<lambda>r. if r \<in> woken st (set ks) then wake (h r) else h r) st'"
  using assms
proof (induction ks arbitrary: h st)
  case Nil
  then show ?case by (simp add: woken_def)
next
  case (Cons k ks)
  show ?case
  proof (cases "store_lookup st k")
    case None
    have "\<exists>st'. clean_keys ks h st =
        Inr (Some (\<lambda>r. if r \<in> woken st (set ks) then wake (h r) else h r, st')) \<and>
      (\<forall>j. store_lookup st' j = (if j \<in> set ks then None else store_lookup st j)) \<and>
      store_inv (\<lambda>r. if r \<in> woken st (set ks) then wake (h r) else h r) st'"
      by (rule Cons.IH) (use Cons.prems in auto)
    moreover have "woken st (set (k # ks)) = woken st (set ks)"
      using None by (auto simp: woken_def)
    ultimately show ?thesis using None by fastforce
  next
    case (Some it)
    let ?r = "item_lease it"
    let ?h = "h(?r := wake (h ?r))" and ?st = "store_delete st k"
    have not: "\<not> entry_closed h it" using Cons.prems(3) [of k it] Some by simp
    have inv: "store_inv ?h ?st" by (rule clean_step(2) [OF Cons.prems(1) Some not])
    have "\<exists>st'. clean_keys ks ?h ?st =
        Inr (Some (\<lambda>r. if r \<in> woken ?st (set ks) then wake (?h r) else ?h r, st')) \<and>
      (\<forall>j. store_lookup st' j = (if j \<in> set ks then None else store_lookup ?st j)) \<and>
      store_inv (\<lambda>r. if r \<in> woken ?st (set ks) then wake (?h r) else ?h r) st'"
    proof (rule Cons.IH [OF inv])
      show "distinct ks" using Cons.prems(2) by simp
      fix j jt
      assume "j \<in> set ks" "store_lookup ?st j = Some jt"
      then show "\<not> entry_closed ?h jt"
        using Cons.prems(3) entry_closed_other [OF Cons.prems(1) Some] by (auto split: if_splits)
    qed
    moreover have "(\<lambda>r. if r \<in> woken ?st (set ks) then wake (?h r) else ?h r) =
        (\<lambda>r. if r \<in> woken st (set (k # ks)) then wake (h r) else h r)"
    proof -
      have "r \<in> woken st (set (k # ks)) \<longleftrightarrow> r = ?r \<or> r \<in> woken ?st (set ks)" for r
        using Some Cons.prems(2) by (auto simp: woken_def)
      moreover have "?r \<notin> woken ?st (set ks)"
        using entries_unshared [OF Cons.prems(1) Some] by (auto simp: woken_def split: if_splits)
      ultimately show ?thesis by auto
    qed
    ultimately show ?thesis
      using clean_step(1) [OF Cons.prems(1) Some not, of ks] by fastforce
  qed
qed

lemma clean_keys_closed:
  assumes "store_inv h st" and "distinct ks"
    and "k \<in> set ks" and "store_lookup st k = Some it" and "entry_closed h it"
  shows "clean_keys ks h st = Inl SendOnClosed"
  using assms
proof (induction ks arbitrary: h st)
  case Nil
  then show ?case by simp
next
  case (Cons j ks)
  show ?case
  proof (cases "store_lookup st j")
    case None
    with Cons show ?thesis by auto
  next
    case (Some jt)
    show ?thesis
    proof (cases "entry_closed h jt")
      case True
      then show ?thesis using Some by (auto simp: entry_closed_def chan_send_def)
    next
      case False
      with Some Cons.prems have "j \<noteq> k" by auto
      let ?h = "h(item_lease jt := wake (h (item_lease jt)))"
      have "entry_closed ?h it"
        using Cons.prems(5) \<open>j \<noteq> k\<close> entry_closed_other [OF Cons.prems(1) Some Cons.prems(4)] by simp
      moreover have "distinct ks" "k \<in> set ks" "store_lookup (store_delete st j) k = Some it"
        using Cons.prems \<open>j \<noteq> k\<close> by auto
      ultimately have "clean_keys ks ?h (store_delete st j) = Inl SendOnClosed"
        using Cons.IH [OF clean_step(2) [OF Cons.prems(1) Some False]] by blast
      then show ?thesis by (simp only: clean_step(1) [OF Cons.prems(1) Some False])
    qed
  qed
qed

lemma woken_outdated:
  assumes "store_inv h st" and "store_lookup st k = Some it"
  shows "item_lease it \<in> woken st (set (outdated now st)) \<longleftrightarrow> Expire it < now"
proof
  note kd = store_inv_keys [OF assms(1)]
  assume "item_lease it \<in> woken st (set (outdated now st))"
  then obtain j jt where j: "j \<in> set (outdated now st)" "store_lookup st j = Some jt"
    "item_lease it = item_lease jt"
    by (auto simp: woken_def)
  then have "j = k" using entries_unshared [OF assms] by simp
  with j assms(2) show "Expire it < now" by (simp add: outdated_iff [OF kd])
next
  note kd = store_inv_keys [OF assms(1)]
  assume "Expire it < now"
  with assms(2) have "k \<in> set (outdated now st)" by (simp add: outdated_iff [OF kd])
  with assms(2) show "item_lease it \<in> woken st (set (outdated now st))"
    by (auto simp: woken_def)
qed

subsection \<open>Properties\<close>

definition sample_store :: "time \<Rightarrow> lease_store" where
  "sample_store e = store_put (NewStore 60) 1999 \<lparr>item_lease = 0, Expire = e, Status = 1\<rparr>"

lemma sample_store_inv:
  "DHCP4 (h 0) = Some sample_offer \<Longrightarrow> Done (h 0) = Some c \<Longrightarrow> buffered c = 0 \<Longrightarrow>
     store_inv h (sample_store e)"
  by (auto simp: sample_store_def entry_ok_def sample_offer_def intro!: store_inv_put)

lemma sample_store_lookup:
  "store_lookup (sample_store e) k =
     (if k = 1999 then Some \<lparr>item_lease = 0, Expire = e, Status = 1\<rparr> else None)"
  by (simp add: sample_store_def) (simp add: store_lookup_def NewStore_def)

lemma Clean_open:
  assumes "store_inv h st"
    and "\<And>k it. store_lookup st k = Some it \<Longrightarrow> Expire it < now \<Longrightarrow> \<not> entry_closed h it"
  shows "\<exists>h' st'. Clean now h st = Inr (Some (h', st')) \<and> store_inv h' st' \<and>
    (\<forall>k. store_lookup st' k = (case store_lookup st k of None \<Rightarrow> None
        | Some it \<Rightarrow> if Expire it < now then None else Some it)) \<and>
    (\<forall>k it. store_lookup st k = Some it \<longrightarrow>
       h' (item_lease it) = (if Expire it < now then wake (h (item_lease it)) else h (item_lease it)))"
proof -
  let ?ks = "outdated now st"
  note kd = store_inv_keys [OF assms(1)]
  let ?h = "\<lambda>r. if r \<in> woken st (set ?ks) then wake (h r) else h r"
  obtain st' where st': "clean_keys ?ks h st = Inr (Some (?h, st'))"
    "\<forall>j. store_lookup st' j = (if j \<in> set ?ks then None else store_lookup st j)" "store_inv ?h st'"
    using clean_keys_open [OF assms(1) distinct_outdated [OF kd], of now] assms(2)
    by (auto simp: outdated_iff [OF kd])
  have woken: "item_lease it \<in> woken st (set ?ks) \<longleftrightarrow> Expire it < now"
    if "store_lookup st k = Some it" for k it
    by (rule woken_outdated [OF assms(1) that])
  show ?thesis
  proof (intro exI conjI)
    show "Clean now h st = Inr (Some (?h, st'))"
      using st'(1) by (cases ?ks) (simp_all add: Clean_def Let_def)
    show "store_inv ?h st'" by (rule st'(3))
    show "\<forall>k. store_lookup st' k = (case store_lookup st k of None \<Rightarrow> None
        | Some it \<Rightarrow> if Expire it < now then None else Some it)"
      using st'(2) by (auto simp: outdated_iff [OF kd] split: option.split)
    show "\<forall>k it. store_lookup st k = Some it \<longrightarrow> ?h (item_lease it) =
        (if Expire it < now then wake (h (item_lease it)) else h (item_lease it))"
      using woken by simp
  qed
qed

text \<open>
  C37. When no expired entry's \<open>Done\<close> channel is closed, \<open>Clean\<close> returns, removes exactly
  the expired entries, wakes exactly their waiters, leaves every other entry and its lease
  alone and keeps the invariant of the store.
\<close>

theorem Clean_removes_expired:
  assumes "store_inv h st"
    and "\<And>k it. store_lookup st k = Some it \<Longrightarrow> Expire it < now \<Longrightarrow> \<not> entry_closed h it"
  shows "\<exists>h' st'. Clean now h st = Inr (Some (h', st')) \<and> store_inv h' st' \<and>
    (\<forall>k. store_lookup st' k = (case store_lookup st k of None \<Rightarrow> None
        | Some it \<Rightarrow> if Expire it < now then None else Some it)) \<and>
    (\<forall>k it. store_lookup st k = Some it \<longrightarrow>
       h' (item_lease it) = (if Expire it < now then wake (h (item_lease it)) else h (item_lease it)))"
  by (rule Clean_open [OF assms])

theorem Clean_removes_expired_witness:
  "\<exists>h' st'. Clean 61 (\<lambda>_. sample_lease\<lparr>Done := Some make_chan1\<rparr>) (sample_store 60) = Inr (Some (h', st')) \<and>
     store_lookup st' 1999 = None \<and> buffered (the (Done (h' 0))) = 1"
proof -
  let ?h = "\<lambda>_ :: nat. sample_lease\<lparr>Done := Some make_chan1\<rparr>"
  have inv: "store_inv ?h (sample_store 60)"
    by (rule sample_store_inv [of _ make_chan1]) (simp_all add: sample_lease_def)
  obtain h' st' where "Clean 61 ?h (sample_store 60) = Inr (Some (h', st'))"
    and "\<forall>k. store_lookup st' k = (case store_lookup (sample_store 60) k of None \<Rightarrow> None
        | Some it \<Rightarrow> if Expire it < 61 then None else Some it)"
    and "\<forall>k it. store_lookup (sample_store 60) k = Some it \<longrightarrow>
       h' (item_lease it) = (if Expire it < 61 then wake (?h (item_lease it)) else ?h (item_lease it))"
    using Clean_removes_expired [OF inv, of 61] by (auto simp: entry_closed_def)
  then show ?thesis
    by (auto simp: sample_store_lookup wake_def
        dest!: spec [of _ "1999 :: u32"] spec [of _ "\<lparr>item_lease = 0, Expire = 60, Status = 1\<rparr>"])
qed

text \<open>
  \<open>Clean\<close> panics, sending on a closed channel, exactly when some expired entry's \<open>Done\<close>
  channel has been closed, that is, when a response to it was accepted and nobody removed
  the entry.
\<close>

theorem Clean_panics_iff:
  assumes "store_inv h st"
  shows "Clean now h st = Inl SendOnClosed \<longleftrightarrow>
    (\<exists>k it. store_lookup st k = Some it \<and> Expire it < now \<and> entry_closed h it)"
proof
  assume "Clean now h st = Inl SendOnClosed"
  then show "\<exists>k it. store_lookup st k = Some it \<and> Expire it < now \<and> entry_closed h it"
    using Clean_open [OF assms, of now] by fastforce
next
  note kd = store_inv_keys [OF assms]
  assume "\<exists>k it. store_lookup st k = Some it \<and> Expire it < now \<and> entry_closed h it"
  then obtain k it where k: "k \<in> set (outdated now st)" "store_lookup st k = Some it" "entry_closed h it"
    by (auto simp: outdated_iff [OF kd])
  with clean_keys_closed [OF assms distinct_outdated [OF kd]] show "Clean now h st = Inl SendOnClosed"
    by (auto simp: Clean_def Let_def)
qed

theorem Clean_panics_iff_witness:
  "Clean 61 (\<lambda>_. sample_lease) (sample_store 60) = Inl SendOnClosed"
proof -
  have inv: "store_inv (\<lambda>_. sample_lease) (sample_store 60)"
    by (rule sample_store_inv [of _ "make_chan1\<lparr>closed := True\<rparr>"]) (simp_all add: sample_lease_def)
  show ?thesis
    by (subst Clean_panics_iff [OF inv])
      (auto simp: sample_store_lookup entry_closed_def sample_lease_def intro!: exI [of _ 1999])
qed

end
