(* ===== verification/Dhcp_Client.thy ===== *)
theory Dhcp_Client
  imports Lease_Store
begin

text \<open>
  \<open>dhcp/client.go\<close>: the pieces of the DHCP client that run as one atomic step each. They
  work on the state the goroutines of the client share, the heap of leases and the lease
  store: the handling of a response, the check after a retry pause (\<open>error\<close>), the start of
  a DISCOVER and of a REQUEST, and the hardware address made up from a host name.
  \<open>Client_System\<close> runs them interleaved.

  An operation returns \<open>Inl\<close> when it panics and \<open>Inr None\<close> when it blocks on the mutex of a
  lease. Log output is left out, but the log calls evaluate their arguments, and where such
  an argument dereferences a pointer the model does too.
\<close>

subsection \<open>Shared state\<close>

record cstate =
  heap_of :: heap
  nref :: nat
  leases :: lease_store
  now :: time

definition alloc :: "lease \<Rightarrow> cstate \<Rightarrow> nat \<times> cstate" where
  "alloc l s = (nref s, s\<lparr>heap_of := (heap_of s)(nref s := l), nref := Suc (nref s)\<rparr>)"

definition upd_lease :: "nat \<Rightarrow> (lease \<Rightarrow> lease) \<Rightarrow> cstate \<Rightarrow> cstate" where
  "upd_lease r f s = s\<lparr>heap_of := (heap_of s)(r := f (heap_of s r))\<rparr>"

definition remove_xid :: "u32 \<Rightarrow> cstate \<Rightarrow> cstate" where
  "remove_xid xid s = s\<lparr>leases := snd (store_remove (leases s) xid)\<rparr>"

text \<open>\<open>c.store.Remove(lease.Xid)\<close>\<close>

definition remove_lease :: "nat \<Rightarrow> cstate \<Rightarrow> cstate result" where
  "remove_lease r s =
     bind_r (deref (DHCP4 (heap_of s r))) (\<lambda>d. Inr (remove_xid (Xid d) s))"

text \<open>\<open>c.store.Set(lease)\<close>, whose error the client ignores.\<close>

definition set_lease :: "nat \<Rightarrow> cstate \<Rightarrow> cstate result" where
  "set_lease r s =
     bind_r (store_set (heap_of s) (now s) (leases s) (Some r)) (\<lambda>(e, st). Inr (s\<lparr>leases := st\<rparr>))"

subsection \<open>Responses\<close>

definition nak_error :: "dhcp4 \<Rightarrow> string" where
  "nak_error dhcp =
     (case GetOption dhcp DHCPOptMessage of
        Some msg \<Rightarrow> ''NAK: '' @ string_of (opt_data msg)
      | None \<Rightarrow> ''NAK'')"

definition accept_response :: "time \<Rightarrow> dhcp4 \<Rightarrow> msg_type \<Rightarrow> lease \<Rightarrow> lease" where
  "accept_response t dhcp msgType l =
     lease_touch t ((if msgType = DHCPMsgTypeNak then SetError l (nak_error dhcp) else l)
       \<lparr>DHCP4 := Some dhcp\<rparr>)"

definition processDHCPReponse :: "dhcp4 \<Rightarrow> cstate \<Rightarrow> cstate option result" where
  "processDHCPReponse dhcp s =
     (case store_get (heap_of s) (leases s) (Xid dhcp) of
        None \<Rightarrow> Inr None
      | Some (None, h) \<Rightarrow> Inr (Some s)
      | Some (Some r, h) \<Rightarrow>
          bind_r (GetMsgType dhcp) (\<lambda>msgType.
          bind_r (deref (DHCP4 (h r))) (\<lambda>_.
          bind_r (CheckResponseType (h r) dhcp) (\<lambda>ok.
            if \<not> ok then Inr (Some (s\<lparr>heap_of := unlock_lease h (Some r)\<rparr>))
            else
              let l = accept_response (now s) dhcp msgType (h r) in
              bind_r (chan_close (Done l)) (\<lambda>ch.
                Inr (Some (s\<lparr>heap_of := unlock_lease (h(r := l\<lparr>Done := ch\<rparr>)) (Some r)\<rparr>)))))))"

subsection \<open>The check after a pause\<close>

text \<open>
  \<open>error\<close> after its sleep, in the two parts between which it may have to wait for the write
  lock of the store. First it looks the transaction up once more, which locks the lease, and
  reads its message type, before \<open>ok\<close> is looked at. If the type is none of the given ones the
  lease is unlocked and the caller retries (\<open>None\<close>), otherwise the lease stays locked.
\<close>

definition error_check ::
  "u32 \<Rightarrow> msg_type list \<Rightarrow> cstate \<Rightarrow> (nat option \<times> cstate) option result" where
  "error_check xid types s =
     (case store_get (heap_of s) (leases s) xid of
        None \<Rightarrow> Inr None
      | Some (l, h) \<Rightarrow>
          bind_r (deref l) (\<lambda>r.
          bind_r (lease_msg_type (h r)) (\<lambda>msgType.
            Inr (Some (if msgType \<in> set types then (l, s\<lparr>heap_of := h\<rparr>)
                       else (None, s\<lparr>heap_of := unlock_lease h l\<rparr>))))))"

text \<open>Then the entry of the lease is removed and the lease is unlocked and returned.\<close>

definition error_finish :: "nat \<Rightarrow> cstate \<Rightarrow> cstate result" where
  "error_finish r s =
     bind_r (remove_lease r s) (\<lambda>s'. Inr (s'\<lparr>heap_of := unlock_lease (heap_of s') (Some r)\<rparr>))"

text \<open>Both parts without a pause between them: the lease, if any, and whether to retry.\<close>

definition client_error ::
  "u32 \<Rightarrow> msg_type list \<Rightarrow> cstate \<Rightarrow> (nat option \<times> bool \<times> cstate) option result" where
  "client_error xid types s =
     bind_r (error_check xid types s) (\<lambda>res.
       case res of
         None \<Rightarrow> Inr None
       | Some (None, s') \<Rightarrow> Inr (Some (None, True, s'))
       | Some (Some r, s') \<Rightarrow>
           bind_r (error_finish r s') (\<lambda>s''. Inr (Some (Some r, False, s''))))"

text \<open>
  The same check in \<open>Renew\<close>, which does look at \<open>ok\<close> first. Its unlock is deferred to the end
  of the goroutine. The lease it locked and whether that is the answer.
\<close>

definition renew_check ::
  "u32 \<Rightarrow> cstate \<Rightarrow> (nat option \<times> bool \<times> cstate) option result" where
  "renew_check xid s =
     (case store_get (heap_of s) (leases s) xid of
        None \<Rightarrow> Inr None
      | Some (None, h) \<Rightarrow> Inr (Some (None, False, s))
      | Some (Some r, h) \<Rightarrow>
          bind_r (lease_msg_type (h r)) (\<lambda>msgType.
            Inr (Some (Some r, msgType = DHCPMsgTypeAck \<or> msgType = DHCPMsgTypeNak,
              s\<lparr>heap_of := h\<rparr>))))"

subsection \<open>Starting a DISCOVER and a REQUEST\<close>

text \<open>
  The goroutine of \<open>discover\<close> up to its \<open>Send\<close>: a new lease with host name and relay
  address, put into the store. \<open>rnd\<close> is the id that \<open>NewPackage\<close> would draw for id 0.
\<close>

definition start_discover ::
  "ip \<Rightarrow> u32 \<Rightarrow> u32 \<Rightarrow> string \<Rightarrow> hwaddr \<Rightarrow> cstate \<Rightarrow> (nat \<times> cstate) result" where
  "start_discover relayIP rnd xid hostname chaddr s =
     bind_r (lease_set_hostname (NewLease rnd DHCPMsgTypeDiscover xid chaddr []) hostname) (\<lambda>l.
     bind_r (deref (DHCP4 l)) (\<lambda>d.
       let (r, s') = alloc (l\<lparr>DHCP4 := Some (d\<lparr>RelayAgentIP := relayIP\<rparr>)\<rparr>) s in
       bind_r (set_lease r s') (\<lambda>s''. Inr (r, s''))))"

text \<open>The goroutine of \<open>request\<close> up to its \<open>Send\<close>; \<open>r0\<close> is the lease it asks for.\<close>

definition start_request :: "u32 \<Rightarrow> nat \<Rightarrow> cstate \<Rightarrow> (nat \<times> cstate) result" where
  "start_request rnd r0 s =
     bind_r (GetRequest rnd (heap_of s r0) DHCPMsgTypeRequest []) (\<lambda>l.
     bind_r (deref (DHCP4 (heap_of s r0))) (\<lambda>d0.
       let (r, s') = alloc l (upd_lease r0 (\<lambda>l0. l0\<lparr>DHCP4 := Some (SetMsgType d0 DHCPMsgTypeRequest)\<rparr>) s) in
       bind_r (set_lease r s') (\<lambda>s''. Inr (r, s''))))"

text \<open>The lease that \<open>Renew\<close> builds before its request.\<close>

definition renew_lease ::
  "ip \<Rightarrow> u32 \<Rightarrow> u32 \<Rightarrow> string \<Rightarrow> hwaddr \<Rightarrow> ip \<Rightarrow> lease result" where
  "renew_lease relayIP rnd xid hostname chaddr a =
     (let l = NewLease rnd DHCPMsgTypeDiscover xid chaddr [] in
      bind_r (deref (DHCP4 l)) (\<lambda>d.
        let l = l\<lparr>DHCP4 := Some (d\<lparr>RelayAgentIP := relayIP, YourClientIP := a\<rparr>)\<rparr> in
        if hostname \<noteq> [] then lease_set_hostname l hostname else Inr l))"

subsection \<open>Release\<close>

definition release_packet :: "ip \<Rightarrow> u32 \<Rightarrow> u32 \<Rightarrow> hwaddr \<Rightarrow> ip \<Rightarrow> dhcp4" where
  "release_packet relayIP rnd xid chaddr a =
     (NewPackage rnd DHCPMsgTypeRelease xid chaddr [])\<lparr>RelayAgentIP := relayIP, ClientIP := a\<rparr>"

text \<open>What the connection reports first, and the error \<open>Release\<close> answers with.\<close>

datatype send_outcome = Sent nat | SendFailed string | SendCtxDone string

fun release_result :: "send_outcome \<Rightarrow> string option" where
  "release_result (SendFailed e) = Some e"
| "release_result (Sent n) = None"
| "release_result (SendCtxDone e) = Some (''Release error: '' @ e)"

subsection \<open>Hardware addresses from host names\<close>

text \<open>
  \<open>hash/crc64\<close> with the reversed ECMA polynomial: the table entry of a byte, the update
  loop and the checksum.
\<close>

definition crc64_ecma :: u64 where "crc64_ecma = 0xC96C5795D7870F42"

fun crc64_shift :: "nat \<Rightarrow> u64 \<Rightarrow> u64" where
  "crc64_shift 0 c = c"
| "crc64_shift (Suc n) c =
     crc64_shift n (if bit c 0 then drop_bit 1 c XOR crc64_ecma else drop_bit 1 c)"

definition crc64_table :: "byte \<Rightarrow> u64" where
  "crc64_table b = crc64_shift 8 (ucast b)"

fun crc64_update :: "u64 \<Rightarrow> bytes \<Rightarrow> u64" where
  "crc64_update c [] = c"
| "crc64_update c (v # vs) = crc64_update (crc64_table (ucast c XOR v) XOR drop_bit 8 c) vs"

definition crc64_checksum :: "bytes \<Rightarrow> u64" where
  "crc64_checksum bs = NOT (crc64_update (NOT 0) bs)"

definition getHardwareAddr :: "string \<Rightarrow> bytes" where
  "getHardwareAddr name =
     (case parse_mac name of
        Some addr \<Rightarrow> addr
      | None \<Rightarrow>
          let h = crc64_checksum (bytes_of name) in
          [ucast (0xff AND h),
           ucast (0xff AND drop_bit 8 h),
           ucast (0xff AND drop_bit 16 h),
           ucast (0xff AND drop_bit 24 h),
           ucast (0xff AND drop_bit 32 h),
           ucast (0xff AND drop_bit 40 h)])"

text \<open>\<open>if chaddr == nil { chaddr = c.getHardwareAddr(hostname) }\<close>\<close>

definition choose_hwaddr :: "hwaddr \<Rightarrow> string \<Rightarrow> hwaddr" where
  "choose_hwaddr chaddr hostname =
     (if chaddr = None then Some (getHardwareAddr hostname) else chaddr)"


subsection \<open>The invariant of the shared state\<close>

text \<open>
  A lease is either the error carrier of \<open>NewLeaseError\<close>, or it holds a packet with a
  readable message type and a \<open>Done\<close> channel. While the channel is open the lease waits for
  an answer and has no error; once it is closed the lease was answered, and it has an error
  just when the answer was a NAK.
\<close>

definition lease_wf :: "lease \<Rightarrow> bool" where
  "lease_wf l \<longleftrightarrow>
     (case DHCP4 l of
        None \<Rightarrow> Done l = None \<and> err l \<noteq> None
      | Some d \<Rightarrow> \<exists>t c. GetMsgType d = Inr t \<and> Done l = Some c \<and>
          (if closed c
           then t \<in> {DHCPMsgTypeOffer, DHCPMsgTypeAck, DHCPMsgTypeRequest} \<and> err l = None
              \<or> t = DHCPMsgTypeNak \<and> err l \<noteq> None
           else t \<in> {DHCPMsgTypeDiscover, DHCPMsgTypeRequest} \<and> err l = None))"

definition lease_closed :: "lease \<Rightarrow> bool" where
  "lease_closed l \<longleftrightarrow> (\<exists>c. Done l = Some c \<and> closed c)"

lemma lease_closed_code [code]: "lease_closed l = (case Done l of None \<Rightarrow> False | Some c \<Rightarrow> closed c)"
  by (auto simp: lease_closed_def split: option.split)

text \<open>The leases the store refers to.\<close>

definition refs :: "cstate \<Rightarrow> nat set" where
  "refs s = {item_lease it | k it. store_lookup (leases s) k = Some it}"

text \<open>An answered lease in the store still shows its answer.\<close>

definition unasked :: "lease \<Rightarrow> bool" where
  "unasked l \<longleftrightarrow> (lease_closed l \<longrightarrow> lease_msg_type l \<noteq> Inr DHCPMsgTypeRequest)"

definition cinv :: "cstate \<Rightarrow> bool" where
  "cinv s \<longleftrightarrow> store_inv (heap_of s) (leases s) \<and>
     (\<forall>r < nref s. lease_wf (heap_of s r)) \<and>
     (\<forall>r \<in> refs s. r < nref s \<and>
        unasked (heap_of s r))"

text \<open>
  A lease that started as a DISCOVER (or was made up by \<open>Renew\<close>): it can be asked for by a
  REQUEST once the store no longer refers to it (\<open>i\<close>: whether it does). And a lease that
  started as a REQUEST: as long as it is not answered its packet offers nothing.
\<close>

definition base_like :: "bool \<Rightarrow> lease \<Rightarrow> bool" where
  "base_like i l \<longleftrightarrow> (\<exists>t. lease_msg_type l = Inr t \<and>
     (t = DHCPMsgTypeDiscover \<or> t = DHCPMsgTypeOffer \<or> t = DHCPMsgTypeRequest \<and> \<not> i))"

definition req_like :: "lease \<Rightarrow> bool" where
  "req_like l \<longleftrightarrow> (\<exists>t. lease_msg_type l = Inr t \<and>
     (if lease_closed l then t = DHCPMsgTypeAck \<or> t = DHCPMsgTypeNak
      else t = DHCPMsgTypeRequest \<and> (\<exists>d. DHCP4 l = Some d \<and> offers_nothing d)))"

text \<open>
  The phases of a lease, and how it moves between them: a DISCOVER is answered by an OFFER, a
  REQUEST by an ACK or a NAK, and a DISCOVER, answered or given up, is turned into a REQUEST.
\<close>

datatype phase = Carrier | Waiting msg_type | Answered msg_type

definition phase_of :: "lease \<Rightarrow> phase" where
  "phase_of l = (case lease_msg_type l of
       Inl p \<Rightarrow> Carrier
     | Inr t \<Rightarrow> if lease_closed l then Answered t else Waiting t)"

inductive phase_step :: "phase \<Rightarrow> phase \<Rightarrow> bool" where
  offered: "phase_step (Waiting DHCPMsgTypeDiscover) (Answered DHCPMsgTypeOffer)"
| acked: "phase_step (Waiting DHCPMsgTypeRequest) (Answered DHCPMsgTypeAck)"
| refused: "phase_step (Waiting DHCPMsgTypeRequest) (Answered DHCPMsgTypeNak)"
| asked: "phase_step (Answered DHCPMsgTypeOffer) (Answered DHCPMsgTypeRequest)"
| given_up: "phase_step (Waiting DHCPMsgTypeDiscover) (Waiting DHCPMsgTypeRequest)"

definition later :: "lease \<Rightarrow> lease \<Rightarrow> bool" where
  "later l l' \<longleftrightarrow> phase_step\<^sup>*\<^sup>* (phase_of l) (phase_of l')"

lemma later_refl [simp]: "later l l"
  by (simp add: later_def)

lemma later_trans: "later l l' \<Longrightarrow> later l' l'' \<Longrightarrow> later l l''"
  unfolding later_def by (rule rtranclp_trans)

lemma later_same: "phase_of l = phase_of l' \<Longrightarrow> later l l'"
  by (simp add: later_def)

lemma later_unchanged:
  "lease_msg_type l' = lease_msg_type l \<Longrightarrow> lease_closed l' = lease_closed l \<Longrightarrow> later l l'"
  by (rule later_same) (simp add: phase_of_def split: sum.split)

lemma later_one: "phase_step (phase_of l) (phase_of l') \<Longrightarrow> later l l'"
  unfolding later_def by (rule r_into_rtranclp)

definition base_lease :: "cstate \<Rightarrow> nat \<Rightarrow> bool" where
  "base_lease s r \<longleftrightarrow> r < nref s \<and> base_like (r \<in> refs s) (heap_of s r)"

definition offline :: "cstate \<Rightarrow> nat \<Rightarrow> bool" where
  "offline s r \<longleftrightarrow> base_lease s r \<and> r \<notin> refs s"

definition req_lease :: "cstate \<Rightarrow> nat \<Rightarrow> bool" where
  "req_lease s r \<longleftrightarrow> r < nref s \<and> req_like (heap_of s r)"

text \<open>
  \<open>good s s'\<close>: the operation from \<open>s\<close> to \<open>s'\<close> keeps the invariant and everything other
  goroutines know about their leases.
\<close>

definition extends :: "cstate \<Rightarrow> cstate \<Rightarrow> bool" where
  "extends s s' \<longleftrightarrow> nref s \<le> nref s' \<and>
     (\<forall>r. base_lease s r \<longrightarrow> base_lease s' r) \<and>
     (\<forall>r. offline s r \<longrightarrow> offline s' r) \<and>
     (\<forall>r. req_lease s r \<longrightarrow> req_lease s' r) \<and>
     (\<forall>r < nref s. lease_closed (heap_of s r) \<longrightarrow> lease_closed (heap_of s' r)) \<and>
     (\<forall>r < nref s. DHCP4 (heap_of s r) = None \<longrightarrow> DHCP4 (heap_of s' r) = None) \<and>
     (\<forall>r < nref s. later (heap_of s r) (heap_of s' r))"

definition good :: "cstate \<Rightarrow> cstate \<Rightarrow> bool" where
  "good s s' \<longleftrightarrow> (cinv s \<longrightarrow> cinv s' \<and> extends s s')"

lemma extends_refl [simp]: "extends s s"
  by (simp add: extends_def)

lemma extends_trans: "extends s t \<Longrightarrow> extends t u \<Longrightarrow> extends s u"
  unfolding extends_def by (meson later_trans order_less_le_trans order_trans)

lemma good_refl [simp]: "good s s"
  by (simp add: good_def)

lemma good_trans: "good s t \<Longrightarrow> good t u \<Longrightarrow> good s u"
  by (auto simp: good_def intro: extends_trans)

lemma lease_wf_cases:
  assumes "lease_wf l" and "DHCP4 l = Some d"
  obtains t c where "GetMsgType d = Inr t" "lease_msg_type l = Inr t" "Done l = Some c"
    "lease_closed l = closed c"
    "if closed c
     then t \<in> {DHCPMsgTypeOffer, DHCPMsgTypeAck, DHCPMsgTypeRequest} \<and> err l = None
        \<or> t = DHCPMsgTypeNak \<and> err l \<noteq> None
     else t \<in> {DHCPMsgTypeDiscover, DHCPMsgTypeRequest} \<and> err l = None"
  using assms by (auto simp: lease_wf_def lease_msg_type_def lease_closed_def)

lemma cinv_wf: "cinv s \<Longrightarrow> r < nref s \<Longrightarrow> lease_wf (heap_of s r)"
  by (simp add: cinv_def)

lemma cinv_store: "cinv s \<Longrightarrow> store_inv (heap_of s) (leases s)"
  by (simp add: cinv_def)

lemma refsI: "store_lookup (leases s) k = Some it \<Longrightarrow> item_lease it \<in> refs s"
  by (auto simp: refs_def)

definition slot_ok :: "u32 \<Rightarrow> lease \<Rightarrow> bool" where
  "slot_ok k l \<longleftrightarrow> (\<exists>d c. DHCP4 l = Some d \<and> Xid d = k \<and> Done l = Some c \<and> buffered c = 0)"

lemma entry_ok_slot: "entry_ok h k it = slot_ok k (h (item_lease it))"
  by (simp add: entry_ok_def slot_ok_def)

text \<open>
  Changing one lease without touching the store (\<open>i\<close>: whether the store refers to it): the
  new lease is well formed, keeps its transaction id and its empty buffer, and stays what it
  was for the others.
\<close>

definition lease_step :: "bool \<Rightarrow> lease \<Rightarrow> lease \<Rightarrow> bool" where
  "lease_step i l l' \<longleftrightarrow>
     (lease_wf l \<longrightarrow> lease_wf l') \<and>
     (i \<longrightarrow> (\<forall>k. slot_ok k l \<longrightarrow> slot_ok k l') \<and> (unasked l \<longrightarrow> unasked l')) \<and>
     (base_like i l \<longrightarrow> base_like i l') \<and>
     (req_like l \<longrightarrow> req_like l') \<and>
     (lease_closed l \<longrightarrow> lease_closed l') \<and>
     (DHCP4 l = None \<longrightarrow> DHCP4 l' = None)"

lemma refs_upd_lease [simp]: "refs (upd_lease r f s) = refs s"
  by (simp add: refs_def upd_lease_def)

lemma upd_lease_simps [simp]:
  "heap_of (upd_lease r f s) = (heap_of s)(r := f (heap_of s r))"
  "leases (upd_lease r f s) = leases s" "nref (upd_lease r f s) = nref s"
  "now (upd_lease r f s) = now s"
  by (simp_all add: upd_lease_def)

lemma good_upd_lease:
  assumes "cinv s \<Longrightarrow> lease_step (r \<in> refs s) (heap_of s r) (f (heap_of s r))"
    and later: "cinv s \<Longrightarrow> r < nref s \<Longrightarrow> later (heap_of s r) (f (heap_of s r))"
  shows "good s (upd_lease r f s)"
  unfolding good_def
proof (intro impI conjI)
  assume inv: "cinv s"
  note step = assms(1) [OF inv, unfolded lease_step_def]
  have "store_inv (heap_of (upd_lease r f s)) (leases s)"
    by (rule store_inv_cong [OF cinv_store [OF inv]])
      (use step refsI in \<open>auto simp: entry_ok_slot\<close>)
  then show "cinv (upd_lease r f s)"
    using inv step by (auto simp: cinv_def)
  show "extends s (upd_lease r f s)"
    using step later [OF inv] by (auto simp: extends_def offline_def req_lease_def base_lease_def)
qed

text \<open>Locking, unlocking and time.\<close>

lemma lease_fields_mux [simp]:
  "lease_msg_type (l\<lparr>mux := m\<rparr>) = lease_msg_type l" "lease_closed (l\<lparr>mux := m\<rparr>) = lease_closed l"
  "lease_wf (l\<lparr>mux := m\<rparr>) = lease_wf l" "slot_ok k (l\<lparr>mux := m\<rparr>) = slot_ok k l"
  by (simp_all add: lease_msg_type_def lease_closed_def lease_wf_def slot_ok_def split: option.split)

lemma good_mux: "good s (upd_lease r (\<lambda>l. l\<lparr>mux := m\<rparr>) s)"
  by (rule good_upd_lease)
    (simp_all add: lease_step_def base_like_def req_like_def unasked_def later_unchanged)

lemma good_now: "good s (s\<lparr>now := t\<rparr>)"
  by (simp add: good_def cinv_def refs_def extends_def base_lease_def offline_def req_lease_def)

text \<open>Removing an entry.\<close>

lemma good_remove_xid: "good s (remove_xid x s)"
proof -
  have sub: "refs (remove_xid x s) \<subseteq> refs s"
    by (auto simp: refs_def remove_xid_def store_simps split: if_splits)
  have "base_like (r \<in> refs s) l \<Longrightarrow> base_like (r \<in> refs (remove_xid x s)) l" for r l
    using sub by (auto simp: base_like_def)
  with sub show ?thesis
    by (auto simp: good_def cinv_def extends_def base_lease_def offline_def req_lease_def
        remove_xid_def store_inv_remove)
qed

lemma remove_lease_good: "remove_lease r s = Inr s' \<Longrightarrow> good s s'"
  by (auto simp: remove_lease_def bind_r_eq_Inr good_remove_xid)

text \<open>After \<open>Remove(lease.Xid)\<close> the store no longer refers to the lease.\<close>

lemma remove_lease_refs:
  assumes "cinv s" and "remove_lease r s = Inr s'"
  shows "r \<notin> refs s'"
proof -
  obtain d where d: "DHCP4 (heap_of s r) = Some d" "s' = remove_xid (Xid d) s"
    using assms(2) by (auto simp: remove_lease_def bind_r_eq_Inr)
  have "k = Xid d" if "store_lookup (leases s) k = Some it" "item_lease it = r" for k it
    using store_invD [OF cinv_store [OF assms(1)] that(1)] that(2) d by (simp add: entry_ok_def)
  then show ?thesis
    using d by (auto simp: refs_def remove_xid_def store_simps split: if_splits)
qed

text \<open>New leases.\<close>

lemma alloc_simps [simp]:
  "fst (alloc l s) = nref s" "nref (snd (alloc l s)) = Suc (nref s)"
  "heap_of (snd (alloc l s)) = (heap_of s)(nref s := l)" "leases (snd (alloc l s)) = leases s"
  "now (snd (alloc l s)) = now s" "refs (snd (alloc l s)) = refs s"
  by (simp_all add: alloc_def refs_def)

lemma cinv_refs_less: "cinv s \<Longrightarrow> r \<in> refs s \<Longrightarrow> r < nref s"
  by (simp add: cinv_def)

lemma good_alloc: "lease_wf l \<Longrightarrow> good s (snd (alloc l s))"
  unfolding good_def
proof (intro impI conjI)
  assume wf: "lease_wf l" and inv: "cinv s"
  have "store_inv (heap_of (snd (alloc l s))) (leases s)"
    by (rule store_inv_cong [OF cinv_store [OF inv]])
      (use cinv_refs_less [OF inv] refsI in \<open>fastforce simp: entry_ok_slot\<close>)
  then show "cinv (snd (alloc l s))"
    using inv wf by (auto simp: cinv_def less_Suc_eq)
  show "extends s (snd (alloc l s))"
    using inv by (auto simp: extends_def offline_def base_lease_def req_lease_def)
qed

lemma set_lease_Inr:
  "set_lease r s = Inr s' \<longleftrightarrow>
     (\<exists>d t. DHCP4 (heap_of s r) = Some d \<and> GetMsgType d = Inr t \<and>
        s' = s\<lparr>leases := store_put (leases s) (Xid d)
               \<lparr>item_lease = r, Expire = now s + ttl (leases s), Status = t\<rparr>\<rparr>)"
  by (auto simp: set_lease_def store_set_def bind_r_eq_Inr)

lemma refs_put:
  "refs (s\<lparr>leases := store_put (leases s) k it\<rparr>) \<subseteq> insert (item_lease it) (refs s)"
  "item_lease it \<in> refs (s\<lparr>leases := store_put (leases s) k it\<rparr>)"
  by (auto simp: refs_def split: if_splits)

text \<open>Allocating a lease and putting it into the store.\<close>

lemma good_new_lease:
  assumes wf: "lease_wf l" and slot: "slot_ok k l" "DHCP4 l = Some d" and open_: "\<not> lease_closed l"
    and set: "set_lease (nref s) (snd (alloc l s)) = Inr s'"
  shows "good s s'"
  unfolding good_def
proof (intro impI)
  assume inv: "cinv s"
  let ?s1 = "snd (alloc l s)"
  have i1: "cinv ?s1" and e1: "extends s ?s1"
    using good_alloc [OF wf] inv by (auto simp: good_def)
  obtain t where t: "s' = ?s1\<lparr>leases := store_put (leases ?s1) (Xid d)
       \<lparr>item_lease = nref s, Expire = now s + ttl (leases s), Status = t\<rparr>\<rparr>"
    using set slot by (auto simp: set_lease_Inr)
  have flds: "heap_of s' = heap_of ?s1" "nref s' = nref ?s1"
    by (simp_all add: t)
  have new: "x = nref s \<or> x \<in> refs s" if "x \<in> refs s'" for x
    using that refs_put(1) [of ?s1 "Xid d" "\<lparr>item_lease = nref s, Expire = now s + ttl (leases s), Status = t\<rparr>"]
    unfolding t by auto
  have "store_inv (heap_of s') (leases s')"
    using cinv_store [OF i1] slot unfolding t
    by (auto simp: entry_ok_slot slot_ok_def intro!: store_inv_put)
  moreover have "unasked l" using open_ by (simp add: unasked_def)
  ultimately have "cinv s'"
    using i1 flds by (fastforce simp: cinv_def dest!: new)
  moreover have "extends s s'"
  proof -
    have "base_like (x \<in> refs s') (heap_of s x)" if "base_like (x \<in> refs s) (heap_of s x)" "x < nref s" for x
      using that new [of x] by (auto simp: base_like_def)
    moreover have "x \<notin> refs s'" if "x \<notin> refs s" "x < nref s" for x
      using that new [of x] by auto
    ultimately show ?thesis
      using flds by (auto simp: extends_def base_lease_def offline_def req_lease_def less_Suc_eq)
  qed
  ultimately show "cinv s' \<and> extends s s'" ..
qed

subsection \<open>Responses\<close>

text \<open>Which answers \<open>CheckResponseType\<close> accepts.\<close>

definition answers :: "msg_type \<Rightarrow> msg_type \<Rightarrow> bool" where
  "answers old new \<longleftrightarrow>
     old = DHCPMsgTypeDiscover \<and> new = DHCPMsgTypeOffer \<or>
     (old = DHCPMsgTypeRequest \<or> old = DHCPMsgTypeInform) \<and>
       (new = DHCPMsgTypeAck \<or> new = DHCPMsgTypeNak)"

lemma CheckResponseType_answers:
  "lease_msg_type l = Inr old \<Longrightarrow> GetMsgType d = Inr new \<Longrightarrow>
     CheckResponseType l d = Inr (answers old new)"
  by (auto simp: CheckResponseType_def answers_def)

lemma accept_response_simps [simp]:
  "DHCP4 (accept_response n d t l) = Some d" "Done (accept_response n d t l) = Done l"
  "Timestamp (accept_response n d t l) = n" "Hostname (accept_response n d t l) = Hostname l"
  "mux (accept_response n d t l) = mux l"
  "err (accept_response n d t l) =
     (if t = DHCPMsgTypeNak then Some (nak_error d) else err l)"
  by (simp_all add: accept_response_def lease_touch_def SetError_def)

definition answered :: "time \<Rightarrow> dhcp4 \<Rightarrow> msg_type \<Rightarrow> lease \<Rightarrow> lease" where
  "answered n d t l =
     (accept_response n d t l)\<lparr>Done := map_option (\<lambda>c. c\<lparr>closed := True\<rparr>) (Done l)\<rparr>"

lemma awaiting_open:
  assumes "lease_wf l" and "unasked l" and "lease_msg_type l = Inr old" and "answers old new"
  obtains c where "Done l = Some c" "\<not> closed c" "err l = None"
    "old = DHCPMsgTypeDiscover \<or> old = DHCPMsgTypeRequest"
proof -
  obtain d where d: "DHCP4 l = Some d"
    using assms(3) by (cases "DHCP4 l") (auto simp: lease_msg_type_def)
  obtain c where c: "Done l = Some c" "lease_closed l = closed c"
    "if closed c
     then old \<in> {DHCPMsgTypeOffer, DHCPMsgTypeAck, DHCPMsgTypeRequest} \<and> err l = None
        \<or> old = DHCPMsgTypeNak \<and> err l \<noteq> None
     else old \<in> {DHCPMsgTypeDiscover, DHCPMsgTypeRequest} \<and> err l = None"
    using assms(3) by (cases rule: lease_wf_cases [OF assms(1) d]) auto
  then have "\<not> closed c"
    using assms(2-4) by (auto simp: unasked_def answers_def)
  then show thesis using c that by auto
qed

lemma answered_step:
  assumes "lease_wf l" and "unasked l" and "lease_msg_type l = Inr old"
    and "GetMsgType d = Inr new" and "answers old new" and "\<And>k. slot_ok k l \<Longrightarrow> k = Xid d"
  shows "lease_step True l (answered n d new l)" and "later l (answered n d new l)"
proof -
  obtain c where c: "Done l = Some c" "\<not> closed c" "err l = None"
    "old = DHCPMsgTypeDiscover \<or> old = DHCPMsgTypeRequest"
    using awaiting_open [OF assms(1,2,3,5)] .
  let ?l = "answered n d new l"
  have f: "DHCP4 ?l = Some d" "Done ?l = Some (c\<lparr>closed := True\<rparr>)"
    "lease_msg_type ?l = Inr new" "lease_closed ?l" "\<not> lease_closed l"
    "err ?l = (if new = DHCPMsgTypeNak then Some (nak_error d) else None)"
    using c assms(4) by (simp_all add: answered_def lease_msg_type_def lease_closed_def)
  have new: "new = DHCPMsgTypeOffer \<and> old = DHCPMsgTypeDiscover \<or>
      (new = DHCPMsgTypeAck \<or> new = DHCPMsgTypeNak) \<and> old = DHCPMsgTypeRequest"
    using assms(5) c(4) by (auto simp: answers_def)
  have "lease_wf ?l" using f assms(4) new by (auto simp: lease_wf_def)
  moreover have "slot_ok k l \<Longrightarrow> slot_ok k ?l" for k
    using f(1,2) c(1) assms(6) by (auto simp: slot_ok_def)
  moreover have "unasked ?l" using f(3) new by (auto simp: unasked_def)
  moreover have "base_like True l \<Longrightarrow> base_like True ?l"
    using f(3) new assms(3) by (auto simp: base_like_def)
  moreover have "req_like l \<Longrightarrow> req_like ?l"
    using f(3,4,5) new assms(3) by (auto simp: req_like_def)
  moreover have "DHCP4 l \<noteq> None" using assms(3) by (cases "DHCP4 l") (auto simp: lease_msg_type_def)
  ultimately show "lease_step True l ?l"
    using f(4) by (auto simp: lease_step_def)
  show "later l ?l"
    by (rule later_one) (use new f(3-5) assms(3) in \<open>auto simp: phase_of_def intro: phase_step.intros\<close>)
qed

lemma cinv_entry:
  assumes "cinv s" and "store_lookup (leases s) k = Some it"
  shows "item_lease it < nref s" "item_lease it \<in> refs s" "lease_wf (heap_of s (item_lease it))"
    "unasked (heap_of s (item_lease it))" "slot_ok k (heap_of s (item_lease it))"
    "\<exists>d t. DHCP4 (heap_of s (item_lease it)) = Some d \<and> Xid d = k \<and>
       lease_msg_type (heap_of s (item_lease it)) = Inr t"
proof -
  show r: "item_lease it \<in> refs s" using assms(2) by (rule refsI)
  then show "item_lease it < nref s" using assms(1) by (rule cinv_refs_less [rotated])
  then show wf: "lease_wf (heap_of s (item_lease it))" using assms(1) by (simp add: cinv_def)
  show "unasked (heap_of s (item_lease it))" using assms(1) r by (simp add: cinv_def)
  show sl: "slot_ok k (heap_of s (item_lease it))"
    using store_invD [OF cinv_store [OF assms(1)] assms(2)] by (simp add: entry_ok_slot)
  then show "\<exists>d t. DHCP4 (heap_of s (item_lease it)) = Some d \<and> Xid d = k \<and>
       lease_msg_type (heap_of s (item_lease it)) = Inr t"
    using wf by (auto simp: slot_ok_def elim: lease_wf_cases)
qed

text \<open>
  What the handler of a response does to the shared state: nothing for an unknown id or an
  answer of the wrong type, otherwise the lease under the packet's id is answered. The only
  panic is an empty message type option in the packet.
\<close>

lemma accept_relock:
  "\<not> mux l \<Longrightarrow> (accept_response n d t (l\<lparr>mux := True\<rparr>))\<lparr>Done := x, mux := False\<rparr>
     = (accept_response n d t l)\<lparr>Done := x\<rparr>"
  by (cases l) (simp add: accept_response_def lease_touch_def SetError_def)

lemma response_unknown:
  "store_lookup (leases s) (Xid d) = None \<Longrightarrow> processDHCPReponse d s = Inr (Some s)"
  by (simp add: processDHCPReponse_def store_get_def)

lemma response_locked:
  "store_lookup (leases s) (Xid d) = Some it \<Longrightarrow> mux (heap_of s (item_lease it)) \<Longrightarrow>
     processDHCPReponse d s = Inr None"
  by (simp add: processDHCPReponse_def store_get_def Let_def)

lemma response_known:
  assumes inv: "cinv s" and it: "store_lookup (leases s) (Xid d) = Some it"
    and mux: "\<not> mux (heap_of s (item_lease it))"
    and old: "lease_msg_type (heap_of s (item_lease it)) = Inr old"
  shows "processDHCPReponse d s =
     bind_r (GetMsgType d) (\<lambda>new.
       Inr (Some (if answers old new
                  then upd_lease (item_lease it) (answered (now s) d new) s else s)))"
proof (cases "GetMsgType d")
  case (Inl p)
  then show ?thesis using it mux by (simp add: processDHCPReponse_def store_get_def Let_def)
next
  case (Inr new)
  let ?r = "item_lease it"
  obtain d0 where d0: "DHCP4 (heap_of s ?r) = Some d0"
    using cinv_entry(6) [OF inv it] by blast
  have same: "(heap_of s)(?r := (heap_of s ?r)\<lparr>mux := False\<rparr>) = heap_of s"
    using mux by (intro ext) simp
  have chk: "CheckResponseType ((heap_of s ?r)\<lparr>mux := True\<rparr>) d = Inr (answers old new)"
    using old Inr by (simp add: CheckResponseType_answers)
  show ?thesis
  proof (cases "answers old new")
    case False
    then show ?thesis
      using it mux Inr d0 chk same
      by (simp add: processDHCPReponse_def store_get_def Let_def unlock_lease_def)
  next
    case True
    obtain c where c: "Done (heap_of s ?r) = Some c" "\<not> closed c"
      using awaiting_open [OF cinv_entry(3,4) [OF inv it] old True] .
    show ?thesis
      using it mux Inr d0 chk c True
      by (simp add: processDHCPReponse_def store_get_def Let_def unlock_lease_def
          chan_close_simps upd_lease_def answered_def accept_relock [OF mux])
  qed
qed

lemma response_good:
  assumes "processDHCPReponse d s = Inr (Some s')"
  shows "good s s'"
  unfolding good_def
proof
  assume inv: "cinv s"
  show "cinv s' \<and> extends s s'"
  proof (cases "store_lookup (leases s) (Xid d)")
    case None
    then show ?thesis using assms inv by (simp add: response_unknown)
  next
    case (Some it)
    let ?r = "item_lease it"
    have mux: "\<not> mux (heap_of s ?r)"
      using assms response_locked [OF Some] by auto
    obtain old where old: "lease_msg_type (heap_of s ?r) = Inr old"
      using cinv_entry(6) [OF inv Some] by blast
    obtain new where new: "GetMsgType d = Inr new"
      and s': "s' = (if answers old new then upd_lease ?r (answered (now s) d new) s else s)"
      using assms by (auto simp: response_known [OF inv Some mux old] bind_r_eq_Inr)
    have "good s (upd_lease ?r (answered (now s) d new) s)" if "answers old new"
      by (rule good_upd_lease)
        (use answered_step [OF cinv_entry(3,4) [OF inv Some] old new that] cinv_entry(2,5) [OF inv Some]
          in \<open>auto simp: slot_ok_def\<close>)
    then show ?thesis using s' inv by (auto simp: good_def)
  qed
qed

lemma response_panic:
  assumes "cinv s" and "processDHCPReponse d s = Inl p"
  shows "p = IndexOutOfRange \<and> option_value d DHCPOptMessageType = Some []"
proof (cases "store_lookup (leases s) (Xid d)")
  case None
  then show ?thesis using assms by (simp add: response_unknown)
next
  case (Some it)
  have mux: "\<not> mux (heap_of s (item_lease it))"
    using assms response_locked [OF Some] by auto
  obtain old where old: "lease_msg_type (heap_of s (item_lease it)) = Inr old"
    using cinv_entry(6) [OF assms(1) Some] by blast
  have "GetMsgType d = Inl p"
    using assms(2) by (auto simp: response_known [OF assms(1) Some mux old] bind_r_eq_Inl)
  then show ?thesis
    by (auto simp: GetMsgType_value index_r_def split: option.splits if_splits)
qed

subsection \<open>The other operations\<close>

lemma error_check_unknown:
  "store_lookup (leases s) xid = None \<Longrightarrow> error_check xid types s = Inl NilDeref"
  by (simp add: error_check_def store_get_def)

lemma error_check_locked:
  "store_lookup (leases s) xid = Some it \<Longrightarrow> mux (heap_of s (item_lease it)) \<Longrightarrow>
     error_check xid types s = Inr None"
  by (simp add: error_check_def store_get_def Let_def)

lemma unlock_same: "\<not> mux (h r) \<Longrightarrow> h(r := (h r)\<lparr>mux := False\<rparr>) = h"
  by (intro ext) simp

lemma error_check_known:
  assumes inv: "cinv s" and it: "store_lookup (leases s) xid = Some it"
    and mux: "\<not> mux (heap_of s (item_lease it))"
    and t: "lease_msg_type (heap_of s (item_lease it)) = Inr t"
  shows "error_check xid types s =
     Inr (Some (if t \<in> set types
                then (Some (item_lease it), upd_lease (item_lease it) (\<lambda>l. l\<lparr>mux := True\<rparr>) s)
                else (None, s)))"
  using it mux t unlock_same [of "heap_of s" "item_lease it"]
  by (simp add: error_check_def store_get_def Let_def unlock_lease_def upd_lease_def)

lemma error_check_cases:
  assumes "cinv s"
  obtains "store_lookup (leases s) xid = None" "error_check xid types s = Inl NilDeref"
  | it where "store_lookup (leases s) xid = Some it" "mux (heap_of s (item_lease it))"
      "error_check xid types s = Inr None"
  | it t where "store_lookup (leases s) xid = Some it" "\<not> mux (heap_of s (item_lease it))"
      "lease_msg_type (heap_of s (item_lease it)) = Inr t" "t \<in> set types"
      "error_check xid types s =
         Inr (Some (Some (item_lease it), upd_lease (item_lease it) (\<lambda>l. l\<lparr>mux := True\<rparr>) s))"
  | it where "store_lookup (leases s) xid = Some it" "error_check xid types s = Inr (Some (None, s))"
proof (cases "store_lookup (leases s) xid")
  case None
  then show thesis using that(1) error_check_unknown by blast
next
  case (Some it)
  obtain t where t: "lease_msg_type (heap_of s (item_lease it)) = Inr t"
    using cinv_entry(6) [OF assms Some] by blast
  show thesis
  proof (cases "mux (heap_of s (item_lease it))")
    case True
    then show thesis using that(2) [OF Some] error_check_locked [OF Some] by blast
  next
    case False
    show thesis
      using that(3) [OF Some False t] that(4) [OF Some]
        error_check_known [OF assms Some False t, of types] by (cases "t \<in> set types") auto
  qed
qed

lemma renew_check_cases:
  assumes "cinv s"
  obtains "store_lookup (leases s) xid = None" "renew_check xid s = Inr (Some (None, False, s))"
  | it where "store_lookup (leases s) xid = Some it" "mux (heap_of s (item_lease it))"
      "renew_check xid s = Inr None"
  | it t where "store_lookup (leases s) xid = Some it" "\<not> mux (heap_of s (item_lease it))"
      "lease_msg_type (heap_of s (item_lease it)) = Inr t"
      "renew_check xid s = Inr (Some (Some (item_lease it), t = DHCPMsgTypeAck \<or> t = DHCPMsgTypeNak,
         upd_lease (item_lease it) (\<lambda>l. l\<lparr>mux := True\<rparr>) s))"
proof (cases "store_lookup (leases s) xid")
  case None
  then show thesis using that(1) by (simp add: renew_check_def store_get_def)
next
  case (Some it)
  obtain t where t: "lease_msg_type (heap_of s (item_lease it)) = Inr t"
    using cinv_entry(6) [OF assms Some] by blast
  show thesis
    using that(2) [OF Some] that(3) [OF Some _ t] Some t
    by (cases "mux (heap_of s (item_lease it))")
      (simp_all add: renew_check_def store_get_def upd_lease_def Let_def)
qed

lemma remove_lease_known:
  "DHCP4 (heap_of s r) = Some d \<Longrightarrow> remove_lease r s = Inr (remove_xid (Xid d) s)"
  by (simp add: remove_lease_def)

lemma client_error_known:
  assumes inv: "cinv s" and it: "store_lookup (leases s) xid = Some it"
    and mux: "\<not> mux (heap_of s (item_lease it))"
    and t: "lease_msg_type (heap_of s (item_lease it)) = Inr t"
  shows "client_error xid types s =
     Inr (Some (if t \<in> set types then (Some (item_lease it), False, remove_xid xid s)
                else (None, True, s)))"
proof -
  obtain d where d: "DHCP4 (heap_of s (item_lease it)) = Some d" "Xid d = xid"
    using cinv_entry(6) [OF inv it] by blast
  show ?thesis
    using d unlock_same [of "heap_of s", OF mux]
    by (simp add: client_error_def error_check_known [OF assms] error_finish_def remove_lease_def
        unlock_lease_def remove_xid_def upd_lease_def)
qed

text \<open>The lease a DISCOVER starts with, and the store entry of a fresh lease.\<close>

definition discover_lease :: "ip \<Rightarrow> u32 \<Rightarrow> u32 \<Rightarrow> string \<Rightarrow> hwaddr \<Rightarrow> lease" where
  "discover_lease relayIP rnd xid hostname chaddr =
     (NewLease rnd DHCPMsgTypeDiscover xid chaddr [])\<lparr>Hostname := hostname,
       DHCP4 := Some ((SetHostname (NewPackage rnd DHCPMsgTypeDiscover xid chaddr []) hostname)
         \<lparr>RelayAgentIP := relayIP\<rparr>)\<rparr>"

definition stored :: "lease \<Rightarrow> u32 \<Rightarrow> msg_type \<Rightarrow> cstate \<Rightarrow> cstate" where
  "stored l k t s = (snd (alloc l s))\<lparr>leases := store_put (leases s) k
     \<lparr>item_lease = nref s, Expire = now s + ttl (leases s), Status = t\<rparr>\<rparr>"

lemma stored_simps [simp]:
  "heap_of (stored l k t s) = (heap_of s)(nref s := l)" "nref (stored l k t s) = Suc (nref s)"
  "now (stored l k t s) = now s"
  by (simp_all add: stored_def)

lemma set_lease_stored:
  "DHCP4 l = Some d \<Longrightarrow> GetMsgType d = Inr t \<Longrightarrow> k = Xid d \<Longrightarrow>
     set_lease (nref s) (snd (alloc l s)) = Inr (stored l k t s)"
  by (simp add: set_lease_Inr stored_def)

lemma good_stored:
  assumes "DHCP4 l = Some d" "GetMsgType d = Inr t" "Done l = Some make_chan1" "err l = None"
    and "t = DHCPMsgTypeDiscover \<or> t = DHCPMsgTypeRequest"
  shows "good s (stored l (Xid d) t s)"
  by (rule good_new_lease [OF _ _ assms(1) _ set_lease_stored [OF assms(1,2) refl], of "Xid d"])
    (use assms in \<open>auto simp: lease_wf_def slot_ok_def lease_closed_def\<close>)

lemma discover_lease_simps:
  "Done (discover_lease rip rnd xid hn ch) = Some make_chan1"
  "err (discover_lease rip rnd xid hn ch) = None"
  "lease_msg_type (discover_lease rip rnd xid hn ch) = Inr DHCPMsgTypeDiscover"
  "\<exists>d. DHCP4 (discover_lease rip rnd xid hn ch) = Some d \<and>
     GetMsgType d = Inr DHCPMsgTypeDiscover \<and> Xid d = (if xid = 0 then rnd else xid)"
  by (simp_all add: discover_lease_def lease_msg_type_def)

lemma start_discover_eq:
  "start_discover rip rnd xid hn ch s = Inr (nref s,
     stored (discover_lease rip rnd xid hn ch) (if xid = 0 then rnd else xid) DHCPMsgTypeDiscover s)"
proof -
  let ?l = "discover_lease rip rnd xid hn ch"
  obtain d where d: "DHCP4 ?l = Some d" "GetMsgType d = Inr DHCPMsgTypeDiscover"
    "(if xid = 0 then rnd else xid) = Xid d"
    using discover_lease_simps(4) [of rip rnd xid hn ch] by metis
  show ?thesis
    using set_lease_stored [OF d, of s]
    by (simp add: start_discover_def lease_set_hostname_def split_beta discover_lease_def)
qed

lemma start_discover_good:
  assumes "start_discover rip rnd xid hn ch s = Inr (r, s')"
  shows "good s s'" and "r = nref s" and "base_lease s' r"
proof -
  obtain d where d: "DHCP4 (discover_lease rip rnd xid hn ch) = Some d"
    "GetMsgType d = Inr DHCPMsgTypeDiscover" "Xid d = (if xid = 0 then rnd else xid)"
    using discover_lease_simps(4) by blast
  show r: "r = nref s" using assms by (simp add: start_discover_eq)
  have s': "s' = stored (discover_lease rip rnd xid hn ch) (Xid d) DHCPMsgTypeDiscover s"
    using assms d by (simp add: start_discover_eq)
  show "good s s'" unfolding s'
    by (rule good_stored [OF d(1,2)]) (simp_all add: discover_lease_simps)
  show "base_lease s' r" unfolding s' r
    by (simp add: base_lease_def base_like_def discover_lease_simps)
qed

lemma ask_step:
  assumes "base_like False l" and "DHCP4 l = Some d"
  shows "lease_step False l (l\<lparr>DHCP4 := Some (SetMsgType d DHCPMsgTypeRequest)\<rparr>)"
    and "lease_wf l \<Longrightarrow> later l (l\<lparr>DHCP4 := Some (SetMsgType d DHCPMsgTypeRequest)\<rparr>)"
proof -
  let ?l = "l\<lparr>DHCP4 := Some (SetMsgType d DHCPMsgTypeRequest)\<rparr>"
  obtain t where t: "GetMsgType d = Inr t"
    "t = DHCPMsgTypeDiscover \<or> t = DHCPMsgTypeOffer \<or> t = DHCPMsgTypeRequest"
    using assms by (auto simp: base_like_def lease_msg_type_def)
  then show "lease_step False l ?l"
    using assms(2)
    by (auto simp: lease_step_def lease_wf_def lease_msg_type_def lease_closed_def
        base_like_def req_like_def split: if_splits)
  assume wf: "lease_wf l"
  have ph: "lease_msg_type ?l = Inr DHCPMsgTypeRequest" "lease_closed ?l = lease_closed l"
      "lease_msg_type l = Inr t"
    using assms(2) t(1) by (simp_all add: lease_msg_type_def lease_closed_def)
  have closed: "t = DHCPMsgTypeOffer \<Longrightarrow> lease_closed l" "t = DHCPMsgTypeDiscover \<Longrightarrow> \<not> lease_closed l"
    using t(1) by (cases rule: lease_wf_cases [OF wf assms(2)]; auto split: if_splits)+
  show "later l ?l"
  proof (cases "t = DHCPMsgTypeRequest")
    case True
    then show ?thesis by (intro later_same) (simp add: phase_of_def ph)
  next
    case False
    then show ?thesis using t(2) closed
      by (intro later_one) (auto simp: phase_of_def ph intro: phase_step.intros)
  qed
qed

lemma start_request_good:
  assumes start: "start_request rnd r0 s = Inr (r, s')" and off: "offline s r0"
  shows "r = nref s" and "good s s'" and "req_lease s' r"
    and "\<exists>d0. DHCP4 (heap_of s r0) = Some d0 \<and>
      GetRequest rnd (heap_of s r0) DHCPMsgTypeRequest [] = Inr (heap_of s' r)"
proof -
  obtain d0 where d0: "DHCP4 (heap_of s r0) = Some d0"
    using start by (auto simp: start_request_def bind_r_eq_Inr)
  obtain l d where l: "GetRequest rnd (heap_of s r0) DHCPMsgTypeRequest [] = Inr l" "DHCP4 l = Some d"
    "GetMsgType d = Inr DHCPMsgTypeRequest" "Done l = Some make_chan1" "err l = None"
    "offers_nothing d"
    using GetRequest_fresh [OF d0, of rnd] by blast
  let ?s1 = "upd_lease r0 (\<lambda>l0. l0\<lparr>DHCP4 := Some (SetMsgType d0 DHCPMsgTypeRequest)\<rparr>) s"
  have eq: "r = nref s" "s' = stored l (Xid d) DHCPMsgTypeRequest ?s1"
    using start l d0 set_lease_stored [OF l(2,3) refl, of ?s1]
    by (auto simp: start_request_def split_beta)
  show "r = nref s" by (fact eq(1))
  have "good s ?s1"
    by (rule good_upd_lease)
      (use off ask_step [OF _ d0] cinv_wf [of s r0] in \<open>auto simp: offline_def base_lease_def\<close>)
  then show "good s s'"
    using good_trans good_stored [OF l(2,3,4,5), of ?s1] eq(2) by simp
  show "req_lease s' r"
    using l eq by (simp add: req_lease_def req_like_def lease_msg_type_def lease_closed_def)
  show "\<exists>d0. DHCP4 (heap_of s r0) = Some d0 \<and>
      GetRequest rnd (heap_of s r0) DHCPMsgTypeRequest [] = Inr (heap_of s' r)"
    using d0 l(1) eq by simp
qed

lemma start_request_ok:
  assumes "offline s r0"
  shows "\<exists>r s'. start_request rnd r0 s = Inr (r, s')"
proof -
  obtain d0 where d0: "DHCP4 (heap_of s r0) = Some d0"
    using assms by (cases "DHCP4 (heap_of s r0)")
      (auto simp: offline_def base_lease_def base_like_def lease_msg_type_def)
  obtain l d where l: "GetRequest rnd (heap_of s r0) DHCPMsgTypeRequest [] = Inr l" "DHCP4 l = Some d"
    "GetMsgType d = Inr DHCPMsgTypeRequest"
    using GetRequest_fresh [OF d0, of rnd] by blast
  show ?thesis
    using d0 l set_lease_stored [OF l(2,3) refl,
        of "upd_lease r0 (\<lambda>l0. l0\<lparr>DHCP4 := Some (SetMsgType d0 DHCPMsgTypeRequest)\<rparr>) s"]
    by (simp add: start_request_def split_beta)
qed

lemma lease_wf_Done:
  assumes "\<And>c. closed (f c) = closed c"
  shows "lease_wf (l\<lparr>Done := map_option f (Done l)\<rparr>) = lease_wf l"
  using assms by (cases "Done l"; cases "DHCP4 l") (simp_all add: lease_wf_def cong: if_cong split del: if_split)

lemma lease_Done_simps:
  assumes "\<And>c. closed (f c) = closed c"
  shows "lease_closed (l\<lparr>Done := map_option f (Done l)\<rparr>) = lease_closed l"
    "lease_msg_type (l\<lparr>Done := map_option f (Done l)\<rparr>) = lease_msg_type l"
  using assms by (cases "Done l", simp_all add: lease_closed_def lease_msg_type_def)

lemma good_recv: "good s (upd_lease r (\<lambda>l. l\<lparr>Done := map_option chan_recv (Done l)\<rparr>) s)"
proof (rule good_upd_lease)
  show "lease_step (r \<in> refs s) (heap_of s r) ((heap_of s r)\<lparr>Done := map_option chan_recv (Done (heap_of s r))\<rparr>)"
    by (auto simp: lease_step_def lease_wf_Done lease_Done_simps base_like_def req_like_def
        unasked_def slot_ok_def chan_recv_def)
  show "later (heap_of s r) ((heap_of s r)\<lparr>Done := map_option chan_recv (Done (heap_of s r))\<rparr>)"
    by (rule later_unchanged) (simp_all add: lease_Done_simps)
qed

lemma wake_simps [simp]:
  "lease_closed (wake l) = lease_closed l" "lease_msg_type (wake l) = lease_msg_type l"
  "DHCP4 (wake l) = DHCP4 l" "err (wake l) = err l" "mux (wake l) = mux l"
  by (auto simp: lease_closed_def lease_msg_type_def wake_def)

lemma wake_step: "lease_step False l (wake l)"
proof -
  have "lease_wf (wake l) = lease_wf l"
    unfolding wake_def by (rule lease_wf_Done) simp
  then show ?thesis by (simp add: lease_step_def base_like_def req_like_def)
qed

lemma good_clean_entry:
  assumes "store_lookup (leases s) k = Some it"
  shows "good s (upd_lease (item_lease it) wake (remove_xid k s))"
  unfolding good_def
proof
  assume inv: "cinv s"
  let ?s1 = "remove_xid k s"
  have "item_lease it \<notin> refs ?s1"
    using entries_unshared [OF cinv_store [OF inv] assms]
    by (auto simp: refs_def remove_xid_def store_simps split: if_splits)
  then have "good ?s1 (upd_lease (item_lease it) wake ?s1)"
    by (intro good_upd_lease) (simp_all add: wake_step later_unchanged)
  with good_remove_xid have "good s (upd_lease (item_lease it) wake ?s1)" by (rule good_trans)
  then show "cinv (upd_lease (item_lease it) wake ?s1) \<and> extends s (upd_lease (item_lease it) wake ?s1)"
    using inv by (simp add: good_def)
qed

lemma clean_good:
  assumes "cinv s"
  shows "(case clean_keys ks (heap_of s) (leases s) of
      Inl p \<Rightarrow> p = SendOnClosed
    | Inr None \<Rightarrow> False
    | Inr (Some (h, st)) \<Rightarrow> good s (s\<lparr>heap_of := h, leases := st\<rparr>))"
  using assms
proof (induction ks arbitrary: s)
  case Nil
  then show ?case by simp
next
  case (Cons k ks)
  show ?case
  proof (cases "store_lookup (leases s) k")
    case None
    then show ?thesis using Cons by simp
  next
    case (Some it)
    note st = cinv_store [OF Cons.prems]
    show ?thesis
    proof (cases "entry_closed (heap_of s) it")
      case True
      then show ?thesis using Some by (auto simp: entry_closed_def chan_send_def)
    next
      case False
      let ?s = "upd_lease (item_lease it) wake (remove_xid k s)"
      have g: "good s ?s" by (rule good_clean_entry [OF Some])
      then have inv: "cinv ?s" using Cons.prems by (simp add: good_def)
      have eq: "clean_keys (k # ks) (heap_of s) (leases s) = clean_keys ks (heap_of ?s) (leases ?s)"
        using clean_step(1) [OF st Some False, of ks] Some
        by (simp add: remove_xid_def store_remove_def)
      show ?thesis
      proof (cases "clean_keys ks (heap_of ?s) (leases ?s)")
        case (Inl p)
        have "p = SendOnClosed"
          using Cons.IH [OF inv] unfolding Inl by simp
        then show ?thesis unfolding eq Inl by simp
      next
        case (Inr out)
        then obtain h st' where out: "out = Some (h, st')"
          using Cons.IH [OF inv] unfolding Inr by (cases out) auto
        have "good ?s (?s\<lparr>heap_of := h, leases := st'\<rparr>)"
          using Cons.IH [OF inv] unfolding Inr out by simp
        then have "good s (s\<lparr>heap_of := h, leases := st'\<rparr>)"
          using good_trans [OF g] by (simp add: upd_lease_def remove_xid_def)
        then show ?thesis unfolding eq Inr out by simp
      qed
    qed
  qed
qed


subsection \<open>Hardware addresses\<close>

text \<open>A host name always gives a hardware address of a length the printer and the parser
  share, and the printed address, given as a host name, stands for the same address.\<close>

theorem hardware_addr_stable:
  "mac_len_ok (length (getHardwareAddr name)) \<and>
    getHardwareAddr (mac_string (getHardwareAddr name)) = getHardwareAddr name"
proof -
  have l: "mac_len_ok (length (getHardwareAddr name))"
  proof (cases "parse_mac name")
    case None
    then show ?thesis by (simp add: getHardwareAddr_def Let_def mac_len_ok_def)
  next
    case (Some m)
    then show ?thesis using parse_mac_len [OF Some] by (simp add: getHardwareAddr_def)
  qed
  then show ?thesis
    using parse_mac_string [OF l] by (simp add: getHardwareAddr_def [of "mac_string (getHardwareAddr name)"])
qed

end
