(* ===== verification/Client_System.thy ===== *)
theory Client_System
  imports Dhcp_Client
begin

text \<open>
  \<open>dhcp/client.go\<close>: the goroutines of the DHCP client, interleaved. A call of \<open>GetLease\<close> or
  \<open>Renew\<close> runs one goroutine (\<open>proc\<close>), which starts a helper goroutine per attempt
  (\<open>discover\<close> and \<open>request\<close>) and waits for it; beside them run the receive loop of \<open>Start\<close> and
  the cleaner of the store. One step runs one goroutine up to the next point where it can
  block: a receive or \<open>select\<close>, a lock that may be held, a \<open>Send\<close>. What the environment
  decides is in the event: which goroutine runs and which ready case of a \<open>select\<close> it takes,
  what the connection reports, the random numbers, the relay address, the passing of time.

  \<open>Inl\<close> is a panic, which ends the whole program; \<open>Inr None\<close> means the event cannot happen.
\<close>

subsection \<open>Goroutines\<close>

datatype job = JDiscover u32 string hwaddr | JRequest nat

text \<open>
  A helper: before it runs, inside the select on \<open>Send\<close>, inside the select on \<open>Done\<close>,
  with a result on its channel, and received.
\<close>

datatype helper_pc =
    HStart job
  | HSending nat
  | HWaiting nat
  | HDeliver "nat option"
  | HEnd

text \<open>
  \<open>hdisc\<close>: runs \<open>discover\<close>; \<open>hctx\<close>: the deadline of its own timeout context, or \<open>None\<close> when
  it was given the caller's context.
\<close>

record helper =
  hpc :: helper_pc
  hdisc :: bool
  howner :: nat
  hctx :: "time option"

datatype kind = GetLease | Renew ip

text \<open>Which of the three loops pauses: the transaction it looks up and the lease it asks for.\<close>

datatype loop = LDiscover u32 | LRequest nat u32 | LRenew nat u32

text \<open>
  A call: at the head of its first loop, waiting for a helper (with the deadline of the
  timeout context), at the head of the second loop of \<open>GetLease\<close>, in the pause, before the
  lookup in the store, before the removal of an answered lease, and finished.
\<close>

datatype proc_pc =
    PBegin
  | PDiscover nat u32 time
  | PAsk nat
  | PRequest nat nat u32 time
  | PRenew nat nat u32 time
  | PPause loop time
  | PGet loop
  | PRemove loop nat
  | PDone "nat option"

record proc =
  pc :: proc_pc
  pkind :: kind
  phostname :: string
  pchaddr :: hwaddr
  deadline :: "time option"
  cancelled :: bool
  held :: "nat list"

text \<open>
  The whole client. \<open>rx\<close> is the packet the receive loop has taken and not yet handled,
  \<open>sweep\<close> the list of outdated keys the cleaner has collected and not yet deleted.
\<close>

record sys =
  cs :: cstate
  procs :: "proc list"
  helpers :: "helper list"
  rx :: "dhcp4 option"
  sweep :: "u32 list option"

record config =
  timeout :: time
  retry :: time

subsection \<open>Contexts and locks\<close>

definition finished :: "proc \<Rightarrow> bool" where
  "finished p \<longleftrightarrow> (case pc p of PDone l \<Rightarrow> True | _ \<Rightarrow> False)"

definition ctx_done :: "proc \<Rightarrow> time \<Rightarrow> bool" where
  "ctx_done p t \<longleftrightarrow> cancelled p \<or> (case deadline p of Some d \<Rightarrow> d \<le> t | None \<Rightarrow> False)"

text \<open>\<open>context.WithTimeout\<close>: the earlier of the two deadlines.\<close>

definition with_timeout :: "config \<Rightarrow> proc \<Rightarrow> time \<Rightarrow> time" where
  "with_timeout cfg p t =
     (case deadline p of Some d \<Rightarrow> min d (t + timeout cfg) | None \<Rightarrow> t + timeout cfg)"

text \<open>
  The context of a helper. The deferred \<open>cancel\<close> calls end the timeout contexts of a call
  when its goroutine ends.
\<close>

definition hctx_done :: "sys \<Rightarrow> helper \<Rightarrow> bool" where
  "hctx_done S h \<longleftrightarrow>
     (let p = procs S ! howner h in
      ctx_done p (now (cs S)) \<or>
      (case hctx h of Some d \<Rightarrow> d \<le> now (cs S) \<or> finished p | None \<Rightarrow> False))"

fun loop_xid :: "loop \<Rightarrow> u32" where
  "loop_xid (LDiscover x) = x"
| "loop_xid (LRequest r x) = x"
| "loop_xid (LRenew r x) = x"

text \<open>
  \<open>Get\<close> waits for the lock of the lease it found, holding the read lock of the store: while
  one does, nobody gets the write lock.
\<close>

definition get_blocked :: "cstate \<Rightarrow> u32 \<Rightarrow> bool" where
  "get_blocked s x \<longleftrightarrow>
     (case store_lookup (leases s) x of Some it \<Rightarrow> mux (heap_of s (item_lease it)) | None \<Rightarrow> False)"

definition proc_blocked :: "cstate \<Rightarrow> proc \<Rightarrow> bool" where
  "proc_blocked s p \<longleftrightarrow> (case pc p of PGet a \<Rightarrow> get_blocked s (loop_xid a) | _ \<Rightarrow> False)"

definition rx_blocked :: "sys \<Rightarrow> bool" where
  "rx_blocked S \<longleftrightarrow> (case rx S of Some d \<Rightarrow> get_blocked (cs S) (Xid d) | None \<Rightarrow> False)"

definition store_free :: "sys \<Rightarrow> bool" where
  "store_free S \<longleftrightarrow> \<not> rx_blocked S \<and> (\<forall>p \<in> set (procs S). \<not> proc_blocked (cs S) p)"

definition unlock_all :: "nat list \<Rightarrow> cstate \<Rightarrow> cstate" where
  "unlock_all rs s = fold (\<lambda>r. upd_lease r (\<lambda>l. l\<lparr>mux := False\<rparr>)) rs s"

subsection \<open>Steps of a helper\<close>

datatype helper_event =
    HGo ip u32
  | HSendOk
  | HSendErr string
  | HDoneReady
  | HCtxDone

definition set_helper :: "nat \<Rightarrow> helper_pc \<Rightarrow> cstate \<Rightarrow> sys \<Rightarrow> sys" where
  "set_helper i c s S = S\<lparr>cs := s, helpers := (helpers S)[i := (helpers S ! i)\<lparr>hpc := c\<rparr>]\<rparr>"

text \<open>A step that is possible only under a condition.\<close>

definition guarded :: "bool \<Rightarrow> 'a option result \<Rightarrow> 'a option result" where
  "guarded b x = (if b then x else Inr None)"

definition helper_start :: "nat \<Rightarrow> job \<Rightarrow> ip \<Rightarrow> u32 \<Rightarrow> sys \<Rightarrow> sys option result" where
  "helper_start i j relayIP rnd S =
     bind_r (case j of
               JDiscover xid hostname chaddr \<Rightarrow> start_discover relayIP rnd xid hostname chaddr (cs S)
             | JRequest r0 \<Rightarrow> start_request rnd r0 (cs S))
       (\<lambda>(r, s). Inr (Some (set_helper i (HSending r) s S)))"

definition helper_send_error :: "nat \<Rightarrow> nat \<Rightarrow> string \<Rightarrow> sys \<Rightarrow> sys option result" where
  "helper_send_error i r e S =
     bind_r (if hdisc (helpers S ! i) then remove_lease r (cs S) else Inr (cs S)) (\<lambda>s.
       let (r', s') = alloc (NewLeaseError e) s in
       Inr (Some (set_helper i (HDeliver (Some r')) s' S)))"

definition helper_done :: "nat \<Rightarrow> nat \<Rightarrow> sys \<Rightarrow> sys option result" where
  "helper_done i r S =
     guarded (case Done (heap_of (cs S) r) of Some c \<Rightarrow> chan_ready c | None \<Rightarrow> False)
       (Inr (Some (set_helper i (HDeliver (Some r))
          (upd_lease r (\<lambda>l. l\<lparr>Done := map_option chan_recv (Done l)\<rparr>) (cs S)) S)))"

fun helper_act :: "nat \<Rightarrow> helper_pc \<Rightarrow> helper_event \<Rightarrow> sys \<Rightarrow> sys option result" where
  "helper_act i (HStart j) (HGo relayIP rnd) S = guarded (store_free S) (helper_start i j relayIP rnd S)"
| "helper_act i (HSending r) HSendOk S = Inr (Some (set_helper i (HWaiting r) (cs S) S))"
| "helper_act i (HSending r) (HSendErr e) S =
     guarded (\<not> hdisc (helpers S ! i) \<or> store_free S) (helper_send_error i r e S)"
| "helper_act i (HSending r) HCtxDone S =
     guarded (hctx_done S (helpers S ! i)) (Inr (Some (set_helper i (HDeliver None) (cs S) S)))"
| "helper_act i (HWaiting r) HDoneReady S = helper_done i r S"
| "helper_act i (HWaiting r) HCtxDone S =
     guarded (hctx_done S (helpers S ! i)) (Inr (Some (set_helper i (HDeliver None) (cs S) S)))"
| "helper_act _ _ _ _ = Inr None"

definition helper_step :: "nat \<Rightarrow> helper_event \<Rightarrow> sys \<Rightarrow> sys option result" where
  "helper_step i ev S =
     guarded (i < length (helpers S)) (helper_act i (hpc (helpers S ! i)) ev S)"

subsection \<open>Steps of a call\<close>

datatype proc_event =
    PGo u32 ip u32
  | PRecv
  | PTimeout
  | PTimer
  | PCancelled
  | PRun

definition set_pc :: "nat \<Rightarrow> proc_pc \<Rightarrow> cstate \<Rightarrow> sys \<Rightarrow> sys" where
  "set_pc i c s S = S\<lparr>cs := s, procs := (procs S)[i := (procs S ! i)\<lparr>pc := c\<rparr>]\<rparr>"

definition set_held :: "nat \<Rightarrow> nat list \<Rightarrow> sys \<Rightarrow> sys" where
  "set_held i rs S = S\<lparr>procs := (procs S)[i := (procs S ! i)\<lparr>held := rs\<rparr>]\<rparr>"

text \<open>Starting a helper; its index is the one the list grows at.\<close>

definition spawn :: "helper \<Rightarrow> sys \<Rightarrow> sys" where
  "spawn h S = S\<lparr>helpers := helpers S @ [h]\<rparr>"

text \<open>The end of the goroutine: the result is sent and the deferred calls run.\<close>

definition finish :: "nat \<Rightarrow> nat option \<Rightarrow> cstate \<Rightarrow> sys \<Rightarrow> sys" where
  "finish i l s S =
     set_held i [] (set_pc i (PDone l) (unlock_all (held (procs S ! i)) s) S)"

text \<open>After the first loop of \<open>GetLease\<close>.\<close>

definition after_discover :: "nat \<Rightarrow> nat \<Rightarrow> cstate \<Rightarrow> sys \<Rightarrow> sys" where
  "after_discover i r s S =
     (if lease_ok (heap_of s r) then set_pc i (PAsk r) s S else finish i (Some r) s S)"

definition begin_discover :: "config \<Rightarrow> nat \<Rightarrow> u32 \<Rightarrow> sys \<Rightarrow> sys option result" where
  "begin_discover cfg i xid S =
     (let p = procs S ! i; d = with_timeout cfg p (now (cs S)) in
      Inr (Some (spawn \<lparr>hpc = HStart (JDiscover xid (phostname p) (pchaddr p)), hdisc = True,
                        howner = i, hctx = Some d\<rparr>
        (set_pc i (PDiscover (length (helpers S)) xid d) (cs S) S))))"

definition begin_request :: "config \<Rightarrow> nat \<Rightarrow> nat \<Rightarrow> sys \<Rightarrow> sys option result" where
  "begin_request cfg i r S =
     (let p = procs S ! i; d = with_timeout cfg p (now (cs S)) in
      bind_r (deref (DHCP4 (heap_of (cs S) r))) (\<lambda>pk.
      Inr (Some (spawn \<lparr>hpc = HStart (JRequest r), hdisc = False, howner = i, hctx = Some d\<rparr>
        (set_pc i (PRequest (length (helpers S)) r (Xid pk) d) (cs S) S)))))"

definition begin_renew ::
  "config \<Rightarrow> nat \<Rightarrow> ip \<Rightarrow> u32 \<Rightarrow> ip \<Rightarrow> u32 \<Rightarrow> sys \<Rightarrow> sys option result" where
  "begin_renew cfg i a xid relayIP rnd S =
     (let p = procs S ! i; d = with_timeout cfg p (now (cs S)) in
      bind_r (renew_lease relayIP rnd xid (phostname p) (pchaddr p) a) (\<lambda>l.
      bind_r (deref (DHCP4 l)) (\<lambda>pk.
        let (r, s) = alloc l (cs S) in
        Inr (Some (spawn \<lparr>hpc = HStart (JRequest r), hdisc = False, howner = i, hctx = None\<rparr>
          (set_pc i (PRenew (length (helpers S)) r (Xid pk) d) s S))))))"

text \<open>
  \<open>wait\<close> got a value. The log call reads a field of the packet, then the entry is removed.
  Without a lease the loop pauses.
\<close>

definition take_result :: "config \<Rightarrow> nat \<Rightarrow> nat \<Rightarrow> loop \<Rightarrow> sys \<Rightarrow> sys option result" where
  "take_result cfg i hid a S =
     (case hpc (helpers S ! hid) of
        HDeliver None \<Rightarrow>
          Inr (Some (set_pc i (PPause a (now (cs S) + retry cfg)) (cs S) (set_helper hid HEnd (cs S) S)))
      | HDeliver (Some r) \<Rightarrow>
          bind_r (deref (DHCP4 (heap_of (cs S) r))) (\<lambda>_.
            guarded (store_free S)
              (bind_r (remove_lease r (cs S)) (\<lambda>s.
                 let S' = set_helper hid HEnd s S in
                 Inr (Some (case a of LDiscover x \<Rightarrow> after_discover i r s S' | _ \<Rightarrow> finish i (Some r) s S')))))
      | _ \<Rightarrow> Inr None)"

definition wait_timeout :: "config \<Rightarrow> nat \<Rightarrow> loop \<Rightarrow> time \<Rightarrow> sys \<Rightarrow> sys option result" where
  "wait_timeout cfg i a d S =
     guarded (ctx_done (procs S ! i) (now (cs S)) \<or> d \<le> now (cs S))
       (Inr (Some (set_pc i (PPause a (now (cs S) + retry cfg)) (cs S) S)))"

definition loop_head :: "loop \<Rightarrow> proc_pc" where
  "loop_head a = (case a of LRequest r x \<Rightarrow> PAsk r | _ \<Rightarrow> PBegin)"

definition look_again :: "nat \<Rightarrow> loop \<Rightarrow> sys \<Rightarrow> sys option result" where
  "look_again i a S =
     (case a of
        LRenew r0 x \<Rightarrow>
          bind_r (renew_check x (cs S)) (\<lambda>res.
            case res of
              None \<Rightarrow> Inr None
            | Some (None, fin, s) \<Rightarrow> Inr (Some (set_pc i (loop_head a) s S))
            | Some (Some r, fin, s) \<Rightarrow>
                Inr (Some (set_held i (r # held (procs S ! i))
                  (set_pc i (if fin then PRemove a r else loop_head a) s S))))
      | _ \<Rightarrow>
          bind_r (error_check (loop_xid a)
              (case a of LDiscover x \<Rightarrow> [DHCPMsgTypeOffer]
               | _ \<Rightarrow> [DHCPMsgTypeAck, DHCPMsgTypeNak]) (cs S)) (\<lambda>res.
            case res of
              None \<Rightarrow> Inr None
            | Some (None, s) \<Rightarrow> Inr (Some (set_pc i (loop_head a) s S))
            | Some (Some r, s) \<Rightarrow>
                Inr (Some (set_held i (r # held (procs S ! i)) (set_pc i (PRemove a r) s S)))))"

definition take_found :: "nat \<Rightarrow> loop \<Rightarrow> nat \<Rightarrow> sys \<Rightarrow> sys option result" where
  "take_found i a r S =
     (case a of
        LDiscover x \<Rightarrow>
          bind_r (error_finish r (cs S)) (\<lambda>s. Inr (Some (after_discover i r s (set_held i [] S))))
      | LRequest r0 x \<Rightarrow>
          bind_r (error_finish r (cs S)) (\<lambda>s. Inr (Some (finish i (Some r) s (set_held i [] S))))
      | LRenew r0 x \<Rightarrow>
          bind_r (remove_lease r (cs S)) (\<lambda>s. Inr (Some (finish i (Some r) s S))))"

fun proc_act :: "config \<Rightarrow> nat \<Rightarrow> proc_pc \<Rightarrow> proc_event \<Rightarrow> sys \<Rightarrow> sys option result" where
  "proc_act cfg i PBegin (PGo xid relayIP rnd) S =
     (case pkind (procs S ! i) of
        GetLease \<Rightarrow> begin_discover cfg i xid S
      | Renew a \<Rightarrow> begin_renew cfg i a xid relayIP rnd S)"
| "proc_act cfg i (PAsk r) PRun S = begin_request cfg i r S"
| "proc_act cfg i (PDiscover hid x d) PRecv S = take_result cfg i hid (LDiscover x) S"
| "proc_act cfg i (PDiscover hid x d) PTimeout S = wait_timeout cfg i (LDiscover x) d S"
| "proc_act cfg i (PRequest hid r x d) PRecv S = take_result cfg i hid (LRequest r x) S"
| "proc_act cfg i (PRequest hid r x d) PTimeout S = wait_timeout cfg i (LRequest r x) d S"
| "proc_act cfg i (PRenew hid r x d) PRecv S = take_result cfg i hid (LRenew r x) S"
| "proc_act cfg i (PRenew hid r x d) PTimeout S = wait_timeout cfg i (LRenew r x) d S"
| "proc_act cfg i (PPause a t) PTimer S =
     guarded (t \<le> now (cs S)) (Inr (Some (set_pc i (PGet a) (cs S) S)))"
| "proc_act cfg i (PPause a t) PCancelled S =
     guarded (ctx_done (procs S ! i) (now (cs S))) (Inr (Some (finish i None (cs S) S)))"
| "proc_act cfg i (PGet a) PRun S = look_again i a S"
| "proc_act cfg i (PRemove a r) PRun S = guarded (store_free S) (take_found i a r S)"
| "proc_act _ _ _ _ _ = Inr None"

definition proc_step :: "config \<Rightarrow> nat \<Rightarrow> proc_event \<Rightarrow> sys \<Rightarrow> sys option result" where
  "proc_step cfg i ev S =
     guarded (i < length (procs S)) (proc_act cfg i (pc (procs S ! i)) ev S)"

subsection \<open>The client\<close>

datatype event =
    ECall kind string hwaddr "time option"
  | ECancel nat
  | EProc nat proc_event
  | EHelper nat helper_event
  | EPacket dhcp4
  | EEmptyPacket
  | EReceiveError
  | EHandle
  | EScan
  | ESweep
  | ETick time

definition new_proc :: "kind \<Rightarrow> string \<Rightarrow> hwaddr \<Rightarrow> time option \<Rightarrow> proc" where
  "new_proc k hostname chaddr d =
     \<lparr>pc = PBegin, pkind = k, phostname = hostname, pchaddr = choose_hwaddr chaddr hostname,
      deadline = d, cancelled = False, held = []\<rparr>"

fun step :: "config \<Rightarrow> event \<Rightarrow> sys \<Rightarrow> sys option result" where
  "step cfg (ECall k hostname chaddr d) S =
     Inr (Some (S\<lparr>procs := procs S @ [new_proc k hostname chaddr d]\<rparr>))"
| "step cfg (ECancel i) S =
     Inr (Some (S\<lparr>procs := (procs S)[i := (procs S ! i)\<lparr>cancelled := True\<rparr>]\<rparr>))"
| "step cfg (EProc i ev) S = proc_step cfg i ev S"
| "step cfg (EHelper i ev) S = helper_step i ev S"
| "step cfg (EPacket d) S = guarded (rx S = None) (Inr (Some (S\<lparr>rx := Some d\<rparr>)))"
| "step cfg EEmptyPacket S = guarded (rx S = None) (Inr (Some S))"
| "step cfg EReceiveError S = guarded (rx S = None) (Inr (Some S))"
| "step cfg EHandle S =
     (case rx S of
        None \<Rightarrow> Inr None
      | Some d \<Rightarrow> bind_r (processDHCPReponse d (cs S)) (\<lambda>res.
          case res of None \<Rightarrow> Inr None | Some s \<Rightarrow> Inr (Some (S\<lparr>cs := s, rx := None\<rparr>))))"
| "step cfg EScan S =
     (let ks = outdated (now (cs S)) (leases (cs S)) in
      guarded (sweep S = None \<and> 0 < length ks) (Inr (Some (S\<lparr>sweep := Some ks\<rparr>))))"
| "step cfg ESweep S =
     (case sweep S of
        None \<Rightarrow> Inr None
      | Some ks \<Rightarrow> guarded (store_free S)
          (bind_r (clean_keys ks (heap_of (cs S)) (leases (cs S))) (\<lambda>res.
             case res of None \<Rightarrow> Inr None
             | Some (h, st) \<Rightarrow> Inr (Some (S\<lparr>cs := (cs S)\<lparr>heap_of := h, leases := st\<rparr>, sweep := None\<rparr>)))))"
| "step cfg (ETick dt) S =
     guarded (0 \<le> dt) (Inr (Some (S\<lparr>cs := (cs S)\<lparr>now := now (cs S) + dt\<rparr>\<rparr>)))"

text \<open>\<open>NewClient\<close> at time \<open>t\<close>.\<close>

definition init_state :: "time \<Rightarrow> sys" where
  "init_state t =
     \<lparr>cs = \<lparr>heap_of = (\<lambda>_. NewLeaseError []), nref = 0, leases = NewStore (dur_of_secs 60), now = t\<rparr>,
      procs = [], helpers = [], rx = None, sweep = None\<rparr>"

text \<open>The states reached by events of a set \<open>A\<close> without a panic, and a run of given events.\<close>

inductive reach :: "(event \<Rightarrow> bool) \<Rightarrow> config \<Rightarrow> sys \<Rightarrow> bool" for A cfg where
  reach_init: "reach A cfg (init_state t)"
| reach_step: "reach A cfg S \<Longrightarrow> A ev \<Longrightarrow> step cfg ev S = Inr (Some S') \<Longrightarrow> reach A cfg S'"

fun run :: "config \<Rightarrow> event list \<Rightarrow> sys \<Rightarrow> sys option result" where
  "run cfg [] S = Inr (Some S)"
| "run cfg (ev # evs) S = bind_r (step cfg ev S) (\<lambda>res.
     case res of None \<Rightarrow> Inr None | Some S' \<Rightarrow> run cfg evs S')"

lemma reach_run: "reach A cfg S \<Longrightarrow> (\<And>ev. ev \<in> set evs \<Longrightarrow> A ev) \<Longrightarrow>
    run cfg evs S = Inr (Some S') \<Longrightarrow> reach A cfg S'"
proof (induction evs arbitrary: S)
  case Nil
  then show ?case by simp
next
  case (Cons ev evs)
  obtain S1 where S1: "step cfg ev S = Inr (Some S1)" "run cfg evs S1 = Inr (Some S')"
    using Cons.prems(3) by (auto simp: bind_r_eq_Inr split: option.splits)
  have "reach A cfg S1" by (rule reach_step [OF Cons.prems(1) _ S1(1)]) (simp add: Cons.prems(2))
  then show ?case using Cons.IH Cons.prems(2) S1(2) by simp
qed


lemma guarded_Inr [simp]: "guarded b x = Inr (Some y) \<longleftrightarrow> b \<and> x = Inr (Some y)"
  by (simp add: guarded_def)

lemma guarded_Inl [simp]: "guarded b x = Inl p \<longleftrightarrow> b \<and> x = Inl p"
  by (simp add: guarded_def)

subsection \<open>The invariant of the client\<close>

text \<open>
  What a goroutine knows about the leases it holds: the lease a call asks for stays out of
  the store, a \<open>discover\<close> carries a lease that started as a DISCOVER and a \<open>request\<close> one
  that started as a REQUEST, or the carrier of a \<open>Send\<close> error.
\<close>

definition error_lease :: "cstate \<Rightarrow> nat \<Rightarrow> bool" where
  "error_lease s r \<longleftrightarrow> r < nref s \<and> DHCP4 (heap_of s r) = None"

fun job_ok :: "cstate \<Rightarrow> bool \<Rightarrow> job \<Rightarrow> bool" where
  "job_ok s disc (JDiscover x h c) \<longleftrightarrow> disc"
| "job_ok s disc (JRequest r) \<longleftrightarrow> \<not> disc \<and> offline s r"

definition result_ok :: "cstate \<Rightarrow> bool \<Rightarrow> nat \<Rightarrow> bool" where
  "result_ok s disc r \<longleftrightarrow> (if disc then base_lease s r else req_lease s r)"

fun hpc_ok :: "cstate \<Rightarrow> bool \<Rightarrow> helper_pc \<Rightarrow> bool" where
  "hpc_ok s disc (HStart j) \<longleftrightarrow> job_ok s disc j"
| "hpc_ok s disc (HSending r) \<longleftrightarrow> result_ok s disc r"
| "hpc_ok s disc (HWaiting r) \<longleftrightarrow> result_ok s disc r"
| "hpc_ok s disc (HDeliver (Some r)) \<longleftrightarrow> error_lease s r \<or> result_ok s disc r"
| "hpc_ok s disc (HDeliver None) \<longleftrightarrow> True"
| "hpc_ok s disc HEnd \<longleftrightarrow> True"

definition loop_disc :: "loop \<Rightarrow> bool" where
  "loop_disc a \<longleftrightarrow> (case a of LDiscover x \<Rightarrow> True | _ \<Rightarrow> False)"

fun loop_ok :: "cstate \<Rightarrow> loop \<Rightarrow> bool" where
  "loop_ok s (LDiscover x) \<longleftrightarrow> True"
| "loop_ok s (LRequest r x) \<longleftrightarrow> offline s r"
| "loop_ok s (LRenew r x) \<longleftrightarrow> offline s r"

definition waits_on :: "helper list \<Rightarrow> nat \<Rightarrow> bool \<Rightarrow> bool" where
  "waits_on hs hid disc \<longleftrightarrow> hid < length hs \<and> hdisc (hs ! hid) = disc"

fun pc_ok :: "cstate \<Rightarrow> helper list \<Rightarrow> proc_pc \<Rightarrow> bool" where
  "pc_ok s hs PBegin \<longleftrightarrow> True"
| "pc_ok s hs (PDiscover hid x d) \<longleftrightarrow> waits_on hs hid True"
| "pc_ok s hs (PAsk r) \<longleftrightarrow> offline s r"
| "pc_ok s hs (PRequest hid r x d) \<longleftrightarrow> waits_on hs hid False \<and> offline s r"
| "pc_ok s hs (PRenew hid r x d) \<longleftrightarrow> waits_on hs hid False \<and> offline s r"
| "pc_ok s hs (PPause a t) \<longleftrightarrow> loop_ok s a"
| "pc_ok s hs (PGet a) \<longleftrightarrow> loop_ok s a"
| "pc_ok s hs (PRemove a r) \<longleftrightarrow> loop_ok s a \<and> result_ok s (loop_disc a) r \<and> lease_closed (heap_of s r)"
| "pc_ok s hs (PDone None) \<longleftrightarrow> True"
| "pc_ok s hs (PDone (Some r)) \<longleftrightarrow> req_lease s r"

definition sinv :: "sys \<Rightarrow> bool" where
  "sinv S \<longleftrightarrow> cinv (cs S) \<and>
     (\<forall>h \<in> set (helpers S). hpc_ok (cs S) (hdisc h) (hpc h)) \<and>
     (\<forall>p \<in> set (procs S). pc_ok (cs S) (helpers S) (pc p))"

lemma sinvD:
  assumes "sinv S"
  shows "cinv (cs S)"
    and "i < length (helpers S) \<Longrightarrow> hpc_ok (cs S) (hdisc (helpers S ! i)) (hpc (helpers S ! i))"
    and "i < length (procs S) \<Longrightarrow> pc_ok (cs S) (helpers S) (pc (procs S ! i))"
  using assms by (auto simp: sinv_def)

lemma offline_base: "offline s r \<Longrightarrow> base_lease s r"
  by (simp add: offline_def)

lemma extendsD:
  assumes "extends s s'"
  shows "base_lease s r \<Longrightarrow> base_lease s' r" "offline s r \<Longrightarrow> offline s' r"
    "req_lease s r \<Longrightarrow> req_lease s' r" "result_ok s disc r \<Longrightarrow> result_ok s' disc r"
    "error_lease s r \<Longrightarrow> error_lease s' r"
  using assms by (auto simp: extends_def result_ok_def error_lease_def)

lemma result_ok_nref: "result_ok s disc r \<Longrightarrow> r < nref s"
  by (auto simp: result_ok_def base_lease_def req_lease_def split: if_splits)

lemma extends_closed:
  "extends s s' \<Longrightarrow> r < nref s \<Longrightarrow> lease_closed (heap_of s r) \<Longrightarrow> lease_closed (heap_of s' r)"
  by (simp add: extends_def)

lemma hpc_ok_extends: "extends s s' \<Longrightarrow> hpc_ok s disc c \<Longrightarrow> hpc_ok s' disc c"
  by (cases "(s, disc, c)" rule: hpc_ok.cases) (auto dest: extendsD elim!: job_ok.elims)

lemma loop_ok_extends: "extends s s' \<Longrightarrow> loop_ok s a \<Longrightarrow> loop_ok s' a"
  by (cases a) (auto dest: extendsD)

lemma pc_ok_extends:
  assumes "extends s s'" and "\<And>hid disc. waits_on hs hid disc \<Longrightarrow> waits_on hs' hid disc"
    and "pc_ok s hs c"
  shows "pc_ok s' hs' c"
  using assms(3)
  by (cases "(s, hs, c)" rule: pc_ok.cases)
    (auto dest: extendsD [OF assms(1)] loop_ok_extends [OF assms(1)] assms(2)
        intro: extends_closed [OF assms(1) result_ok_nref])

text \<open>
  One step changes the shared state and then at most one call and one helper. So for the
  invariant it is enough that the new program counters are fine in the new state.
\<close>

lemma sinv_cs:
  assumes "sinv S" and "good (cs S) s"
  shows "sinv (S\<lparr>cs := s\<rparr>)"
proof -
  have e: "extends (cs S) s" and "cinv s"
    using assms by (auto simp: sinv_def good_def)
  then show ?thesis
    using assms(1) hpc_ok_extends [OF e] pc_ok_extends [OF e] by (fastforce simp: sinv_def)
qed

lemma sinv_set_helper:
  assumes inv: "sinv S" and good: "good (cs S) s" and c: "hpc_ok s (hdisc (helpers S ! i)) c"
  shows "sinv (set_helper i c s S)"
proof (cases "i < length (helpers S)")
  case True
  have e: "extends (cs S) s" and "cinv s"
    using inv good by (auto simp: sinv_def good_def)
  have "hpc_ok s (hdisc h) (hpc h)" if h: "h \<in> set (helpers (set_helper i c s S))" for h
  proof -
    consider "h = (helpers S ! i)\<lparr>hpc := c\<rparr>" | "h \<in> set (helpers S)"
      using subsetD [OF set_update_subset_insert, of h "helpers S" i "(helpers S ! i)\<lparr>hpc := c\<rparr>"] h
      by (auto simp: set_helper_def)
    then show ?thesis
      using inv c hpc_ok_extends [OF e] by cases (auto simp: sinv_def)
  qed
  moreover have "waits_on (helpers S) hid disc \<Longrightarrow>
      waits_on ((helpers S)[i := (helpers S ! i)\<lparr>hpc := c\<rparr>]) hid disc" for hid disc
    by (cases "hid = i") (auto simp: waits_on_def)
  from pc_ok_extends [OF e this]
  have "pc_ok s (helpers (set_helper i c s S)) (pc p)" if "p \<in> set (procs S)" for p
    using that inv by (simp add: set_helper_def sinv_def)
  ultimately show ?thesis using \<open>cinv s\<close> by (auto simp: sinv_def set_helper_def)
next
  case False
  then show ?thesis using sinv_cs [OF inv good] by (cases S) (simp add: set_helper_def list_update_beyond)
qed

lemma sinv_set_pc:
  assumes inv: "sinv S" and good: "good (cs S) s" and c: "pc_ok s (helpers S) c"
  shows "sinv (set_pc i c s S)"
proof -
  have s: "sinv (S\<lparr>cs := s\<rparr>)" by (rule sinv_cs [OF inv good])
  have "pc_ok s (helpers S) (pc p)" if "p \<in> set ((procs S)[i := (procs S ! i)\<lparr>pc := c\<rparr>])" for p
    using subsetD [OF set_update_subset_insert that] s c by (auto simp: sinv_def)
  then show ?thesis using s by (auto simp: set_pc_def sinv_def)
qed

lemma sinv_set_held:
  assumes inv: "sinv S" and i: "i < length (procs S)"
  shows "sinv (set_held i rs S)"
proof -
  have "pc_ok (cs S) (helpers S) (pc p)"
    if "p \<in> set ((procs S)[i := (procs S ! i)\<lparr>held := rs\<rparr>])" for p
    using subsetD [OF set_update_subset_insert that] inv sinvD(3) [OF inv i]
    by (auto simp: sinv_def)
  then show ?thesis using inv by (simp add: sinv_def set_held_def)
qed

lemma sinv_spawn:
  assumes inv: "sinv S" and h: "hpc_ok (cs S) (hdisc h) (hpc h)"
  shows "sinv (spawn h S)"
proof -
  have "waits_on (helpers S) hid disc \<Longrightarrow> waits_on (helpers S @ [h]) hid disc" for hid disc
    by (simp add: waits_on_def nth_append)
  from pc_ok_extends [OF extends_refl this]
  have "pc_ok (cs S) (helpers S @ [h]) (pc p)" if "p \<in> set (procs S)" for p
    using inv that by (simp add: sinv_def)
  then show ?thesis using inv h by (auto simp: sinv_def spawn_def)
qed

lemma set_simps [simp]:
  "helpers (set_pc i c s S) = helpers S" "cs (set_pc i c s S) = s"
  "length (procs (set_pc i c s S)) = length (procs S)"
  "procs (set_helper i d s S) = procs S" "cs (set_helper i d s S) = s"
  "length (helpers (set_helper i d s S)) = length (helpers S)"
  "cs (set_held i rs S) = cs S" "helpers (set_held i rs S) = helpers S"
  "length (procs (set_held i rs S)) = length (procs S)"
  "cs (spawn h S) = cs S" "procs (spawn h S) = procs S" "helpers (spawn h S) = helpers S @ [h]"
  by (simp_all add: set_pc_def set_helper_def set_held_def spawn_def)

lemma good_unlock_all: "good s (unlock_all rs s)"
proof (induction rs arbitrary: s)
  case Nil
  then show ?case by (simp add: unlock_all_def)
next
  case (Cons r rs)
  show ?case
    using good_trans [OF good_mux [of s r False] Cons.IH] by (simp add: unlock_all_def)
qed

lemma sinv_finish:
  assumes inv: "sinv S" and good: "good (cs S) s" and i: "i < length (procs S)"
    and l: "\<And>r. l = Some r \<Longrightarrow> req_lease s r"
  shows "sinv (finish i l s S)"
proof -
  let ?s = "unlock_all (held (procs S ! i)) s"
  have g: "good (cs S) ?s" by (rule good_trans [OF good good_unlock_all])
  have "extends s ?s"
    using good good_unlock_all [of s] inv by (auto simp: good_def sinv_def)
  then have "pc_ok ?s (helpers S) (PDone l)"
    using l by (cases l) (auto dest: extendsD)
  then show ?thesis
    using sinv_set_held [OF sinv_set_pc [OF inv g]] i by (simp add: finish_def)
qed

text \<open>What one action may do: panic with one of \<open>Q\<close>, be impossible, or lead to one of \<open>P\<close>.\<close>

definition outcome :: "('s \<Rightarrow> bool) \<Rightarrow> (go_panic \<Rightarrow> bool) \<Rightarrow> 's option result \<Rightarrow> bool" where
  "outcome P Q res \<longleftrightarrow> (case res of Inl p \<Rightarrow> Q p | Inr None \<Rightarrow> True | Inr (Some S) \<Rightarrow> P S)"

lemma outcome_simps [simp]:
  "outcome P Q (Inl p) = Q p" "outcome P Q (Inr None)" "outcome P Q (Inr (Some S)) = P S"
  by (simp_all add: outcome_def)

lemma outcome_guarded [simp]: "outcome P Q (guarded b x) = (b \<longrightarrow> outcome P Q x)"
  by (simp add: guarded_def)

lemma outcome_mono: "outcome P Q x \<Longrightarrow> (\<And>p. Q p \<Longrightarrow> R p) \<Longrightarrow> outcome P R x"
  by (auto simp: outcome_def split: sum.splits option.splits)

subsection \<open>The steps of a helper keep the invariant\<close>

lemma base_lease_packet:
  "base_lease s r \<Longrightarrow> \<exists>d. DHCP4 (heap_of s r) = Some d"
  "req_lease s r \<Longrightarrow> \<exists>d. DHCP4 (heap_of s r) = Some d"
  by (cases "DHCP4 (heap_of s r)";
      auto simp: base_lease_def base_like_def req_lease_def req_like_def lease_msg_type_def)+

lemma result_packet: "result_ok s disc r \<Longrightarrow> \<exists>d. DHCP4 (heap_of s r) = Some d"
  using base_lease_packet by (auto simp: result_ok_def split: if_splits)

lemma helper_start_ok:
  assumes inv: "sinv S" and i: "i < length (helpers S)" and pc: "hpc (helpers S ! i) = HStart j"
  shows "outcome sinv (\<lambda>p. False) (helper_start i j rip rnd S)"
proof -
  have j: "job_ok (cs S) (hdisc (helpers S ! i)) j"
    using sinvD(2) [OF inv i] pc by simp
  show ?thesis
  proof (cases j)
    case (JDiscover x hn ch)
    obtain r s where st: "start_discover rip rnd x hn ch (cs S) = Inr (r, s)"
      by (simp add: start_discover_eq)
    have "sinv (set_helper i (HSending r) s S)"
      by (rule sinv_set_helper [OF inv start_discover_good(1) [OF st]])
        (use start_discover_good(3) [OF st] j JDiscover in \<open>simp add: result_ok_def\<close>)
    then show ?thesis using JDiscover st by (simp add: helper_start_def)
  next
    case (JRequest r0)
    then have off: "offline (cs S) r0" and nd: "\<not> hdisc (helpers S ! i)" using j by simp_all
    obtain r s where st: "start_request rnd r0 (cs S) = Inr (r, s)"
      using start_request_ok [OF off] by blast
    have "sinv (set_helper i (HSending r) s S)"
      by (rule sinv_set_helper [OF inv start_request_good(2) [OF st off]])
        (use start_request_good(3) [OF st off] nd in \<open>simp add: result_ok_def\<close>)
    then show ?thesis using JRequest st by (simp add: helper_start_def)
  qed
qed

lemma remove_result:
  assumes "cinv s" and "result_ok s disc r"
  obtains s' where "remove_lease r s = Inr s'" "good s s'" "cinv s'" "extends s s'"
    "result_ok s' disc r" "r \<notin> refs s'"
proof -
  obtain d where d: "DHCP4 (heap_of s r) = Some d" using result_packet [OF assms(2)] by blast
  define s' where "s' = remove_xid (Xid d) s"
  have rem: "remove_lease r s = Inr s'" using d by (simp add: remove_lease_def s'_def)
  have g: "good s s'" by (rule remove_lease_good [OF rem])
  then have e: "cinv s'" "extends s s'" using assms(1) by (simp_all add: good_def)
  show thesis
    by (rule that [OF rem g e extendsD(4) [OF e(2) assms(2)] remove_lease_refs [OF assms(1) rem]])
qed

lemma helper_send_error_ok:
  assumes inv: "sinv S" and i: "i < length (helpers S)" and pc: "hpc (helpers S ! i) = HSending r"
  shows "outcome sinv (\<lambda>p. False) (helper_send_error i r e S)"
proof -
  let ?disc = "hdisc (helpers S ! i)"
  have r: "result_ok (cs S) ?disc r" using sinvD(2) [OF inv i] pc by simp
  obtain s where s: "(if ?disc then remove_lease r (cs S) else Inr (cs S)) = Inr s" "good (cs S) s"
  proof (cases ?disc)
    case True
    then show thesis using remove_result [OF sinvD(1) [OF inv] r] that by metis
  next
    case False
    then show thesis using that [of "cs S"] by simp
  qed
  let ?s' = "snd (alloc (NewLeaseError e) s)"
  have "good (cs S) ?s'"
    by (rule good_trans [OF s(2) good_alloc]) (simp add: lease_wf_def)
  then have "sinv (set_helper i (HDeliver (Some (nref s))) ?s' S)"
    by (rule sinv_set_helper [OF inv]) (simp add: error_lease_def)
  then show ?thesis using s(1) by (simp add: helper_send_error_def split_beta)
qed

lemma helper_step_ok:
  assumes inv: "sinv S"
  shows "outcome sinv (\<lambda>p. False) (helper_step i ev S)"
proof (cases "i < length (helpers S)")
  case True
  let ?h = "helpers S ! i"
  have ok: "hpc_ok (cs S) (hdisc ?h) (hpc ?h)" by (rule sinvD(2) [OF inv True])
  have none: "sinv (set_helper i (HDeliver None) (cs S) S)"
    by (rule sinv_set_helper [OF inv]) simp_all
  have snt: "sinv (set_helper i (HWaiting r) (cs S) S)" if "hpc ?h = HSending r" for r
    by (rule sinv_set_helper [OF inv]) (use ok that in simp_all)
  have dn: "outcome sinv (\<lambda>p. False) (helper_done i r S)" if r: "hpc ?h = HWaiting r" for r
  proof -
    let ?s = "upd_lease r (\<lambda>l. l\<lparr>Done := map_option chan_recv (Done l)\<rparr>) (cs S)"
    have g: "good (cs S) ?s" by (rule good_recv)
    then have "extends (cs S) ?s" using sinvD(1) [OF inv] by (simp add: good_def)
    then have "sinv (set_helper i (HDeliver (Some r)) ?s S)"
      by (intro sinv_set_helper [OF inv g]) (use ok r extendsD(4) in simp)
    then show ?thesis by (simp add: helper_done_def)
  qed
  show ?thesis
    using True helper_start_ok [OF inv True] helper_send_error_ok [OF inv True] none snt dn
    by (cases "(i, hpc ?h, ev, S)" rule: helper_act.cases) (simp_all add: helper_step_def)
qed (simp add: helper_step_def guarded_def)

subsection \<open>The steps of a call keep the invariant\<close>

lemma base_lease_ok: "cinv s \<Longrightarrow> base_lease s r \<Longrightarrow> lease_ok (heap_of s r)"
  by (auto simp: lease_ok_def base_lease_def base_like_def cinv_def lease_wf_def lease_msg_type_def
      split: option.splits if_splits)

lemma sinv_after_discover:
  assumes inv: "sinv S" and good: "good (cs S) s" and r: "offline s r"
  shows "sinv (after_discover i r s S)"
proof -
  have "cinv s" using inv good by (simp add: sinv_def good_def)
  then have "lease_ok (heap_of s r)" using base_lease_ok offline_base [OF r] by blast
  then show ?thesis using sinv_set_pc [OF inv good, of "PAsk r" i] r by (simp add: after_discover_def)
qed

lemma sinv_begin:
  assumes inv: "sinv S" and good: "good (cs S) s" and h: "hpc_ok s (hdisc h) (hpc h)"
    and c: "pc_ok s (helpers S @ [h]) c"
  shows "sinv (spawn h (set_pc i c s S))"
proof -
  have "sinv (S\<lparr>cs := s\<rparr>)" by (rule sinv_cs [OF inv good])
  then have "sinv (spawn h (S\<lparr>cs := s\<rparr>))" by (rule sinv_spawn) (simp add: h)
  then have "sinv (set_pc i c s (spawn h (S\<lparr>cs := s\<rparr>)))"
    by (rule sinv_set_pc) (use c in \<open>simp_all add: spawn_def\<close>)
  then show ?thesis by (cases S) (simp add: set_pc_def spawn_def)
qed

lemma begin_discover_ok: "sinv S \<Longrightarrow> outcome sinv Q (begin_discover cfg i xid S)"
  by (auto simp: begin_discover_def Let_def waits_on_def intro!: sinv_begin)

lemma begin_request_ok:
  assumes inv: "sinv S" and r: "offline (cs S) r"
  shows "outcome sinv Q (begin_request cfg i r S)"
proof -
  obtain d where d: "DHCP4 (heap_of (cs S) r) = Some d"
    using base_lease_packet(1) [OF offline_base [OF r]] by blast
  show ?thesis
    by (auto simp: begin_request_def Let_def waits_on_def d r intro!: sinv_begin inv)
qed

lemma renew_lease_spec:
  "\<exists>l d. renew_lease rip rnd xid hn ch a = Inr l \<and> DHCP4 l = Some d \<and>
     GetMsgType d = Inr DHCPMsgTypeDiscover \<and> Xid d = (if xid = 0 then rnd else xid) \<and>
     YourClientIP d = a \<and> RelayAgentIP d = rip \<and> ClientHWAddr d = ch \<and>
     Done l = Some make_chan1 \<and> err l = None \<and> \<not> mux l"
  by (auto simp: renew_lease_def lease_set_hostname_def Let_def)

lemma begin_renew_ok:
  assumes inv: "sinv S"
  shows "outcome sinv Q (begin_renew cfg i a xid rip rnd S)"
proof -
  let ?p = "procs S ! i"
  obtain l d where l: "renew_lease rip rnd xid (phostname ?p) (pchaddr ?p) a = Inr l"
    "DHCP4 l = Some d" "GetMsgType d = Inr DHCPMsgTypeDiscover" "Done l = Some make_chan1" "err l = None"
    using renew_lease_spec by blast
  let ?s = "snd (alloc l (cs S))"
  have g: "good (cs S) ?s"
    by (rule good_alloc) (use l in \<open>simp add: lease_wf_def\<close>)
  have "nref (cs S) \<notin> refs (cs S)"
    using cinv_refs_less [OF sinvD(1) [OF inv]] by blast
  then have "offline ?s (nref (cs S))"
    using l by (simp add: offline_def base_lease_def base_like_def lease_msg_type_def)
  then show ?thesis
    by (auto simp: begin_renew_def Let_def split_beta l waits_on_def intro!: sinv_begin inv g)
qed

lemma take_result_ok:
  assumes inv: "sinv S" and i: "i < length (procs S)"
    and hid: "waits_on (helpers S) hid (loop_disc a)" and a: "loop_ok (cs S) a"
  shows "outcome sinv (\<lambda>p. p = NilDeref \<and> (\<exists>r. hpc (helpers S ! hid) = HDeliver (Some r) \<and>
     error_lease (cs S) r)) (take_result cfg i hid a S)"
proof (cases "\<exists>l. hpc (helpers S ! hid) = HDeliver l")
  case False
  then show ?thesis by (simp add: take_result_def split: helper_pc.split)
next
  case True
  then obtain l where l: "hpc (helpers S ! hid) = HDeliver l" ..
  have hok: "hpc_ok (cs S) (loop_disc a) (HDeliver l)"
    using sinvD(2) [OF inv, of hid] hid l by (simp add: waits_on_def)
  show ?thesis
  proof (cases l)
    case None
    have "sinv (set_helper hid HEnd (cs S) S)" by (rule sinv_set_helper [OF inv]) simp_all
    then have "sinv (set_pc i (PPause a (now (cs S) + retry cfg)) (cs S) (set_helper hid HEnd (cs S) S))"
      by (rule sinv_set_pc) (use a in simp_all)
    then show ?thesis using l None by (simp add: take_result_def)
  next
    case (Some r)
    consider "error_lease (cs S) r" | "result_ok (cs S) (loop_disc a) r"
      using hok Some by auto
    then show ?thesis
    proof cases
      case 1
      then show ?thesis using l Some by (simp add: take_result_def error_lease_def)
    next
      case 2
      obtain s where s: "remove_lease r (cs S) = Inr s" "good (cs S) s"
          "result_ok s (loop_disc a) r" "r \<notin> refs s"
        using remove_result [OF sinvD(1) [OF inv] 2] by metis
      let ?S = "set_helper hid HEnd s S"
      have S': "sinv ?S" by (rule sinv_set_helper [OF inv s(2)]) simp
      have "sinv (case a of LDiscover x \<Rightarrow> after_discover i r s ?S | _ \<Rightarrow> finish i (Some r) s ?S)"
        using s(3,4) i
        by (cases a) (auto simp: loop_disc_def result_ok_def offline_def
            intro!: sinv_after_discover sinv_finish S')
      then show ?thesis using l Some s(1) by (auto simp: take_result_def remove_lease_def bind_r_eq_Inr Let_def)
    qed
  qed
qed

lemma wait_timeout_ok:
  "sinv S \<Longrightarrow> loop_ok (cs S) a \<Longrightarrow> outcome sinv Q (wait_timeout cfg i a d S)"
  by (simp add: wait_timeout_def sinv_set_pc)

lemma loop_head_ok: "loop_ok s a \<Longrightarrow> pc_ok s hs (loop_head a)"
  by (cases a) (simp_all add: loop_head_def)

text \<open>\<open>Renew\<close> looks at \<open>ok\<close> after its lookup, \<open>error\<close> does not.\<close>

definition minds_ok :: "loop \<Rightarrow> bool" where
  "minds_ok a \<longleftrightarrow> (case a of LRenew r x \<Rightarrow> True | _ \<Rightarrow> False)"

lemma found_ok:
  assumes inv: "cinv s" and it: "store_lookup (leases s) x = Some it"
    and t: "lease_msg_type (heap_of s (item_lease it)) = Inr t"
    and types: "t = DHCPMsgTypeOffer \<and> disc \<or> (t = DHCPMsgTypeAck \<or> t = DHCPMsgTypeNak) \<and> \<not> disc"
  shows "result_ok s disc (item_lease it)" "lease_closed (heap_of s (item_lease it))"
proof -
  let ?l = "heap_of s (item_lease it)"
  obtain d where d: "DHCP4 ?l = Some d" using cinv_entry(6) [OF inv it] by blast
  show cl: "lease_closed ?l"
    using t types by (cases rule: lease_wf_cases [OF cinv_entry(3) [OF inv it] d])
      (auto split: if_splits)
  show "result_ok s disc (item_lease it)"
    using t types cl cinv_entry(1) [OF inv it]
    by (auto simp: result_ok_def base_lease_def base_like_def req_lease_def req_like_def)
qed

lemma sinv_found:
  assumes inv: "sinv S" and i: "i < length (procs S)" and a: "loop_ok (cs S) a"
    and r: "result_ok (cs S) (loop_disc a) r" "lease_closed (heap_of (cs S) r)"
  shows "sinv (set_held i rs (set_pc i (PRemove a r) (upd_lease r (\<lambda>l. l\<lparr>mux := True\<rparr>) (cs S)) S))"
proof -
  let ?s = "upd_lease r (\<lambda>l. l\<lparr>mux := True\<rparr>) (cs S)"
  have g: "good (cs S) ?s" by (rule good_mux)
  then have e: "extends (cs S) ?s" using sinvD(1) [OF inv] by (simp add: good_def)
  have "sinv (set_pc i (PRemove a r) ?s S)"
    by (rule sinv_set_pc [OF inv g])
      (use loop_ok_extends [OF e a] extendsD(4) [OF e r(1)] r(2) in simp)
  then show ?thesis by (rule sinv_set_held) (simp add: i)
qed

lemma look_again_ok:
  assumes inv: "sinv S" and i: "i < length (procs S)" and a: "loop_ok (cs S) a"
  shows "outcome sinv (\<lambda>p. p = NilDeref \<and> \<not> minds_ok a \<and>
     store_lookup (leases (cs S)) (loop_xid a) = None) (look_again i a S)"
proof -
  note c = sinvD(1) [OF inv]
  have head: "sinv (set_pc i (loop_head a) (cs S) S)"
    by (rule sinv_set_pc [OF inv]) (simp_all add: loop_head_ok [OF a])
  have mx: "sinv (set_held i rs (set_pc i (loop_head a) (upd_lease r (\<lambda>l. l\<lparr>mux := True\<rparr>) (cs S)) S))"
    for r rs
  proof (rule sinv_set_held [OF sinv_set_pc [OF inv good_mux]])
    have "extends (cs S) (upd_lease r (\<lambda>l. l\<lparr>mux := True\<rparr>) (cs S))"
      using good_mux [of "cs S" r True] c by (simp add: good_def)
    from loop_ok_extends [OF this a]
    show "pc_ok (upd_lease r (\<lambda>l. l\<lparr>mux := True\<rparr>) (cs S)) (helpers S) (loop_head a)"
      by (rule loop_head_ok)
  qed (simp add: i)
  note found = sinv_found [OF inv i a]
  show ?thesis
  proof (cases a)
    case (LDiscover x)
    show ?thesis
    proof (cases rule: error_check_cases [OF c, of x "[DHCPMsgTypeOffer]"])
      case (3 it t)
      then show ?thesis
        using found found_ok [OF c 3(1,3)] LDiscover by (simp add: look_again_def loop_disc_def)
    qed (use head LDiscover in \<open>auto simp: look_again_def minds_ok_def\<close>)
  next
    case (LRequest r0 x)
    show ?thesis
    proof (cases rule: error_check_cases [OF c, of x "[DHCPMsgTypeAck, DHCPMsgTypeNak]"])
      case (3 it t)
      then show ?thesis
        using found found_ok [OF c 3(1,3)] LRequest by (auto simp: look_again_def loop_disc_def)
    qed (use head LRequest in \<open>auto simp: look_again_def minds_ok_def\<close>)
  next
    case (LRenew r0 x)
    show ?thesis
    proof (cases rule: renew_check_cases [OF c, of x])
      case (3 it t)
      then show ?thesis
        using found found_ok [OF c 3(1,3)] LRenew mx by (auto simp: look_again_def loop_disc_def)
    qed (use head LRenew in \<open>auto simp: look_again_def minds_ok_def\<close>)
  qed
qed

lemma take_found_ok:
  assumes inv: "sinv S" and i: "i < length (procs S)" and a: "result_ok (cs S) (loop_disc a) r"
  shows "outcome sinv Q (take_found i a r S)"
proof -
  obtain s where s: "remove_lease r (cs S) = Inr s" "good (cs S) s" "cinv s"
      "result_ok s (loop_disc a) r" "r \<notin> refs s"
    using remove_result [OF sinvD(1) [OF inv] a] by metis
  let ?s = "upd_lease r (\<lambda>l. l\<lparr>mux := False\<rparr>) s"
  have g: "good (cs S) ?s" using good_trans [OF s(2) good_mux] .
  have e: "extends s ?s" using good_mux [of s r False] s(3) by (simp add: good_def)
  have fin: "error_finish r (cs S) = Inr ?s"
    using s(1) by (simp add: error_finish_def unlock_lease_def upd_lease_def)
  have S': "sinv (set_held i [] S)" by (rule sinv_set_held [OF inv i])
  have ok: "result_ok ?s (loop_disc a) r" using extendsD(4) [OF e s(4)] .
  show ?thesis
  proof (cases a)
    case (LDiscover x)
    then have "offline ?s r" using ok s(5) by (simp add: offline_def loop_disc_def result_ok_def)
    then show ?thesis
      using sinv_after_discover [OF S', of ?s r i] g fin LDiscover by (simp add: take_found_def)
  next
    case (LRequest r0 x)
    then show ?thesis
      using sinv_finish [OF S', of ?s i "Some r"] g fin ok i
      by (simp add: take_found_def loop_disc_def result_ok_def)
  next
    case (LRenew r0 x)
    then show ?thesis
      using sinv_finish [OF inv s(2) i, of "Some r"] s(1,4)
      by (simp add: take_found_def loop_disc_def result_ok_def)
  qed
qed

text \<open>The only ways the client can panic, by the event that triggers it.\<close>

definition awaited :: "proc_pc \<Rightarrow> nat option" where
  "awaited c = (case c of PDiscover hid x d \<Rightarrow> Some hid | PRequest hid r x d \<Rightarrow> Some hid
     | PRenew hid r x d \<Rightarrow> Some hid | _ \<Rightarrow> None)"

definition send_failed :: "sys \<Rightarrow> nat \<Rightarrow> bool" where
  "send_failed S i \<longleftrightarrow> (\<exists>hid r. awaited (pc (procs S ! i)) = Some hid \<and>
     hpc (helpers S ! hid) = HDeliver (Some r) \<and> DHCP4 (heap_of (cs S) r) = None)"

definition entry_gone :: "sys \<Rightarrow> nat \<Rightarrow> bool" where
  "entry_gone S i \<longleftrightarrow> (\<exists>a. pc (procs S ! i) = PGet a \<and> \<not> minds_ok a \<and>
     store_lookup (leases (cs S)) (loop_xid a) = None)"

definition bad_packet :: "sys \<Rightarrow> bool" where
  "bad_packet S \<longleftrightarrow> (\<exists>d. rx S = Some d \<and> option_value d DHCPOptMessageType = Some [])"

definition answered_entry :: "sys \<Rightarrow> bool" where
  "answered_entry S \<longleftrightarrow> (\<exists>ks k it. sweep S = Some ks \<and> k \<in> set ks \<and>
     store_lookup (leases (cs S)) k = Some it \<and> entry_closed (heap_of (cs S)) it)"

fun crash :: "sys \<Rightarrow> event \<Rightarrow> go_panic \<Rightarrow> bool" where
  "crash S (EProc i PRecv) p \<longleftrightarrow> p = NilDeref \<and> send_failed S i"
| "crash S (EProc i PRun) p \<longleftrightarrow> p = NilDeref \<and> entry_gone S i"
| "crash S EHandle p \<longleftrightarrow> p = IndexOutOfRange \<and> bad_packet S"
| "crash S ESweep p \<longleftrightarrow> p = SendOnClosed \<and> answered_entry S"
| "crash S _ p \<longleftrightarrow> False"

lemma clean_keys_panic:
  assumes "store_inv h st" and "clean_keys ks h st = Inl p"
  shows "p = SendOnClosed \<and> (\<exists>k \<in> set ks. \<exists>it. store_lookup st k = Some it \<and> entry_closed h it)"
  using assms
proof (induction ks arbitrary: h st)
  case Nil
  then show ?case by simp
next
  case (Cons k ks)
  show ?case
  proof (cases "store_lookup st k")
    case None
    then show ?thesis using Cons.IH [OF Cons.prems(1)] Cons.prems(2) by simp
  next
    case (Some it)
    show ?thesis
    proof (cases "entry_closed h it")
      case True
      then show ?thesis
        using Cons.prems(2) Some by (auto simp: entry_closed_def chan_send_def)
    next
      case False
      let ?h = "h(item_lease it := wake (h (item_lease it)))"
      note st = clean_step [OF Cons.prems(1) Some False]
      have "p = SendOnClosed \<and> (\<exists>j \<in> set ks. \<exists>jt. store_lookup (store_delete st k) j = Some jt \<and> entry_closed ?h jt)"
        using Cons.IH [OF st(2)] Cons.prems(2) unfolding st(1) by blast
      then show ?thesis
        using entry_closed_other [OF Cons.prems(1) Some] by (auto split: if_splits)
    qed
  qed
qed

lemma proc_step_ok:
  assumes inv: "sinv S"
  shows "outcome sinv (crash S (EProc i ev)) (proc_step cfg i ev S)"
proof (cases "i < length (procs S)")
  case i: True
  let ?c = "pc (procs S ! i)"
  have ok: "pc_ok (cs S) (helpers S) ?c" by (rule sinvD(3) [OF inv i])
  have recv: "outcome sinv (crash S (EProc i PRecv)) (take_result cfg i hid a S)"
    if "awaited ?c = Some hid" "waits_on (helpers S) hid (loop_disc a)" "loop_ok (cs S) a" for hid a
    by (rule outcome_mono [OF take_result_ok [OF inv i that(2,3)]])
      (use that(1) in \<open>auto simp: send_failed_def error_lease_def\<close>)
  have run_get: "outcome sinv (crash S (EProc i PRun)) (look_again i a S)" if "?c = PGet a" for a
    by (rule outcome_mono [OF look_again_ok [OF inv i]])
      (use that ok in \<open>auto simp: entry_gone_def\<close>)
  have get: "sinv (set_pc i (PGet a) (cs S) S)" if "?c = PPause a t" for a t
    by (rule sinv_set_pc [OF inv]) (use that ok in simp_all)
  show ?thesis
    using i ok recv run_get get sinv_finish [OF inv good_refl i, of None]
      begin_discover_ok [OF inv] begin_renew_ok [OF inv] begin_request_ok [OF inv]
      wait_timeout_ok [OF inv] take_found_ok [OF inv i]
    by (cases "(cfg, i, ?c, ev, S)" rule: proc_act.cases)
      (auto simp: proc_step_def awaited_def loop_disc_def split: kind.split)
qed (simp add: proc_step_def guarded_def)

subsection \<open>Every step keeps the invariant\<close>

lemma sinv_procs:
  assumes "sinv S" and "\<And>p. p \<in> set ps \<Longrightarrow> pc p = PBegin \<or> (\<exists>q \<in> set (procs S). pc p = pc q)"
  shows "sinv (S\<lparr>procs := ps\<rparr>)"
  using assms by (fastforce simp: sinv_def)

lemma sinv_fields [simp]:
  "sinv (S\<lparr>rx := x\<rparr>) = sinv S" "sinv (S\<lparr>sweep := y\<rparr>) = sinv S"
  by (simp_all add: sinv_def)

lemma step_ok:
  assumes inv: "sinv S"
  shows "outcome sinv (crash S ev) (step cfg ev S)"
proof -
  note c = sinvD(1) [OF inv]
  show ?thesis
  proof (cases ev)
    case (ECall k hn ch d)
    have "sinv (S\<lparr>procs := procs S @ [new_proc k hn ch d]\<rparr>)"
      by (rule sinv_procs [OF inv]) (auto simp: new_proc_def)
    then show ?thesis by (simp add: ECall)
  next
    case (ECancel i)
    let ?p = "(procs S ! i)\<lparr>cancelled := True\<rparr>"
    have "sinv (S\<lparr>procs := (procs S)[i := ?p]\<rparr>)"
    proof (cases "i < length (procs S)")
      case True
      show ?thesis
      proof (rule sinv_procs [OF inv])
        fix p
        assume "p \<in> set ((procs S)[i := ?p])"
        then have "p = ?p \<or> p \<in> set (procs S)"
          using set_update_subset_insert by (metis insert_iff subsetD)
        then show "pc p = PBegin \<or> (\<exists>q \<in> set (procs S). pc p = pc q)"
        proof
          assume "p = ?p"
          then have "pc p = pc (procs S ! i)" by simp
          then show ?thesis using nth_mem [OF True] by blast
        qed blast
      qed
    qed (use inv in \<open>simp add: list_update_beyond\<close>)
    then show ?thesis by (simp add: ECancel)
  next
    case (EProc i e)
    then show ?thesis using proc_step_ok [OF inv] by simp
  next
    case (EHelper i e)
    then show ?thesis using outcome_mono [OF helper_step_ok [OF inv]] by simp
  next
    case EHandle
    show ?thesis
    proof (cases "rx S")
      case (Some d)
      have "outcome (\<lambda>s. sinv (S\<lparr>cs := s, rx := None\<rparr>)) (crash S ev) (processDHCPReponse d (cs S))"
        using response_panic [OF c, of d] response_good [of d "cs S"] sinv_cs [OF inv] Some
        by (auto simp: outcome_def EHandle bad_packet_def split: sum.split option.split)
      then show ?thesis
        using Some EHandle
        by (auto simp: outcome_def bind_r_def split: sum.splits option.splits)
    qed (simp add: EHandle)
  next
    case ESweep
    show ?thesis
    proof (cases "sweep S")
      case (Some ks)
      show ?thesis
        using clean_good [OF c, of ks] clean_keys_panic [OF cinv_store [OF c], of ks] Some
          sinv_cs [OF inv, of "(cs S)\<lparr>heap_of := h, leases := st\<rparr>" for h st]
        by (auto simp: ESweep outcome_def bind_r_def answered_entry_def guarded_def
            split: sum.splits option.splits)
    qed (simp add: ESweep)
  next
    case (ETick dt)
    then show ?thesis using sinv_cs [OF inv good_now] by simp
  qed (use inv in \<open>auto simp: Let_def\<close>)
qed

lemma sinv_init: "sinv (init_state t)"
  by (simp add: sinv_def init_state_def cinv_def refs_def store_lookup_def NewStore_def
      store_inv_NewStore [unfolded NewStore_def])

lemma reach_sinv: "reach A cfg S \<Longrightarrow> sinv S"
proof (induction rule: reach.induct)
  case (reach_init t)
  show ?case by (rule sinv_init)
next
  case (reach_step S ev S')
  then show ?case using step_ok [of S ev cfg] by simp
qed

end
