(* ===== verification/Client_Locks.thy ===== *)
theory Client_Locks
  imports Client_System
begin

text \<open>
  The locks of the client: which step locks or unlocks which lease, and the discipline that
  every reachable state keeps: a lease is locked exactly while one call holds it.
\<close>

subsection \<open>Locks and buffers\<close>

text \<open>
  \<open>tame s s'\<close>: the operation locks and unlocks no lease and puts nothing into the buffer of a
  \<open>Done\<close> channel. That holds for all of them but the lookups of a call and the cleaner.
\<close>

definition tame_lease :: "lease \<Rightarrow> lease \<Rightarrow> bool" where
  "tame_lease l l' \<longleftrightarrow> mux l' = mux l \<and>
     (\<forall>c'. Done l' = Some c' \<longrightarrow> (\<exists>c. Done l = Some c \<and> buffered c' \<le> buffered c))"

definition fresh_lease :: "lease \<Rightarrow> bool" where
  "fresh_lease l \<longleftrightarrow> \<not> mux l \<and> (\<forall>c. Done l = Some c \<longrightarrow> buffered c = 0)"

definition tame :: "cstate \<Rightarrow> cstate \<Rightarrow> bool" where
  "tame s s' \<longleftrightarrow> nref s \<le> nref s' \<and>
     (\<forall>r < nref s. tame_lease (heap_of s r) (heap_of s' r)) \<and>
     (\<forall>r < nref s'. nref s \<le> r \<longrightarrow> fresh_lease (heap_of s' r)) \<and>
     (\<forall>r \<ge> nref s'. heap_of s' r = heap_of s r)"

lemma tame_lease_refl [simp]: "tame_lease l l"
  by (simp add: tame_lease_def)

lemma tame_lease_trans: "tame_lease k l \<Longrightarrow> tame_lease l m \<Longrightarrow> tame_lease k m"
  by (simp add: tame_lease_def) (meson le_trans)

lemma tame_fresh: "fresh_lease k \<Longrightarrow> tame_lease k l \<Longrightarrow> fresh_lease l"
  unfolding tame_lease_def fresh_lease_def by (metis le_zero_eq)

lemma tame_refl [simp]: "tame s s"
  by (simp add: tame_def)

lemma tame_trans:
  assumes "tame s t" and "tame t u"
  shows "tame s u"
  unfolding tame_def
proof (intro conjI allI impI)
  show "nref s \<le> nref u" using assms by (simp add: tame_def)
next
  fix r
  assume "r < nref s"
  then show "tame_lease (heap_of s r) (heap_of u r)"
    using assms tame_lease_trans [of "heap_of s r" "heap_of t r" "heap_of u r"]
    by (simp add: tame_def)
next
  fix r
  assume "r < nref u" "nref s \<le> r"
  then show "fresh_lease (heap_of u r)"
    using assms tame_fresh [of "heap_of t r" "heap_of u r"] by (cases "r < nref t") (auto simp: tame_def)
next
  fix r
  assume "nref u \<le> r"
  then show "heap_of u r = heap_of s r" using assms by (simp add: tame_def)
qed

lemma tame_heap: "heap_of s' = heap_of s \<Longrightarrow> nref s' = nref s \<Longrightarrow> tame s s'"
  by (simp add: tame_def)

lemma tame_remove_xid [simp]: "tame s (remove_xid x s)"
  by (rule tame_heap) (simp_all add: remove_xid_def)

lemma tame_remove_lease: "remove_lease r s = Inr s' \<Longrightarrow> tame s s'"
  by (auto simp: remove_lease_def bind_r_eq_Inr)

lemma tame_upd_lease: "r < nref s \<Longrightarrow> tame_lease (heap_of s r) (f (heap_of s r)) \<Longrightarrow> tame s (upd_lease r f s)"
  by (simp add: tame_def)

lemma tame_alloc: "fresh_lease l \<Longrightarrow> tame s (snd (alloc l s))"
  by (simp add: tame_def)

lemma tame_stored: "fresh_lease l \<Longrightarrow> tame s (stored l k t s)"
  by (simp add: tame_def)

lemma tame_start_discover: "start_discover rip rnd xid hn ch s = Inr (r, s') \<Longrightarrow> tame s s'"
  by (auto simp: start_discover_eq discover_lease_def fresh_lease_def make_chan1_def NewLease_def
      intro!: tame_stored)

lemma fresh_Done: "\<not> mux l \<Longrightarrow> Done l = Some make_chan1 \<Longrightarrow> fresh_lease l"
  by (simp add: fresh_lease_def make_chan1_def)

lemma tame_start_request:
  assumes start: "start_request rnd r0 s = Inr (r, s')" and r0: "r0 < nref s"
  shows "tame s s'"
proof -
  obtain d0 where d0: "DHCP4 (heap_of s r0) = Some d0"
    using start by (auto simp: start_request_def bind_r_eq_Inr)
  obtain l d where l: "GetRequest rnd (heap_of s r0) DHCPMsgTypeRequest [] = Inr l" "DHCP4 l = Some d"
    "GetMsgType d = Inr DHCPMsgTypeRequest" "Done l = Some make_chan1" "\<not> mux l"
    using GetRequest_fresh [OF d0, of rnd] by blast
  let ?s1 = "upd_lease r0 (\<lambda>l0. l0\<lparr>DHCP4 := Some (SetMsgType d0 DHCPMsgTypeRequest)\<rparr>) s"
  have "s' = stored l (Xid d) DHCPMsgTypeRequest ?s1"
    using start l d0 set_lease_stored [OF l(2,3) refl, of ?s1]
    by (auto simp: start_request_def split_beta)
  moreover have "tame s ?s1"
    by (rule tame_upd_lease [OF r0]) (simp add: tame_lease_def)
  ultimately show ?thesis
    using tame_trans tame_stored [OF fresh_Done [OF l(5,4)]] by simp
qed

lemma tame_recv:
  "r < nref s \<Longrightarrow> tame s (upd_lease r (\<lambda>l. l\<lparr>Done := map_option chan_recv (Done l)\<rparr>) s)"
  by (rule tame_upd_lease) (auto simp: tame_lease_def chan_recv_def)

lemma tame_send_error: "tame s s' \<Longrightarrow> tame s (snd (alloc (NewLeaseError e) s'))"
  by (erule tame_trans) (rule tame_alloc, simp add: fresh_lease_def)

lemma tame_now: "tame s (s\<lparr>now := t\<rparr>)"
  by (rule tame_heap) simp_all

lemma tame_response:
  assumes "cinv s" and "processDHCPReponse d s = Inr (Some s')"
  shows "tame s s'"
proof (cases "store_lookup (leases s) (Xid d)")
  case None
  then show ?thesis using assms by (simp add: response_unknown)
next
  case (Some it)
  let ?r = "item_lease it"
  have mux: "\<not> mux (heap_of s ?r)" using assms response_locked [OF Some] by auto
  obtain old where old: "lease_msg_type (heap_of s ?r) = Inr old"
    using cinv_entry(6) [OF assms(1) Some] by blast
  obtain new where "s' = (if answers old new then upd_lease ?r (answered (now s) d new) s else s)"
    using assms by (auto simp: response_known [OF assms(1) Some mux old] bind_r_eq_Inr)
  moreover have "tame s (upd_lease ?r (answered (now s) d new) s)" for new
    by (rule tame_upd_lease) (auto simp: cinv_entry(1) [OF assms(1) Some] tame_lease_def answered_def)
  ultimately show ?thesis by simp
qed

lemma tame_renew: "renew_lease rip rnd xid hn ch a = Inr l \<Longrightarrow> tame s (snd (alloc l s))"
  using renew_lease_spec [of rip rnd xid hn ch a] by (auto intro!: tame_alloc fresh_Done)

subsection \<open>Who holds which lease\<close>

definition locks :: "cstate \<Rightarrow> nat set" where
  "locks s = {r. mux (heap_of s r)}"

text \<open>
  A call of \<open>GetLease\<close> holds a lease only between finding it answered and removing it. \<open>Renew\<close>
  keeps every lease it ever found.
\<close>

definition held_ok :: "proc \<Rightarrow> bool" where
  "held_ok p \<longleftrightarrow>
     (case pkind p of
        GetLease \<Rightarrow> (case pc p of
            PRemove a r \<Rightarrow> held p = [r] \<and> \<not> minds_ok a
          | PPause a t \<Rightarrow> held p = [] \<and> \<not> minds_ok a
          | PGet a \<Rightarrow> held p = [] \<and> \<not> minds_ok a
          | PRenew hid r x d \<Rightarrow> False
          | _ \<Rightarrow> held p = [])
      | Renew a \<Rightarrow> (case pc p of
            PRemove a r \<Rightarrow> r \<in> set (held p) \<and> minds_ok a
          | PPause a t \<Rightarrow> minds_ok a
          | PGet a \<Rightarrow> minds_ok a
          | PDone l \<Rightarrow> held p = []
          | PBegin \<Rightarrow> True
          | PRenew hid r x d \<Rightarrow> True
          | _ \<Rightarrow> False))"

definition owns :: "proc list \<Rightarrow> nat \<Rightarrow> nat \<Rightarrow> bool" where
  "owns ps i r \<longleftrightarrow> i < length ps \<and> r \<in> set (held (ps ! i))"

definition linv :: "sys \<Rightarrow> bool" where
  "linv S \<longleftrightarrow>
     (\<forall>r. r \<in> locks (cs S) \<longleftrightarrow> (\<exists>i. owns (procs S) i r)) \<and>
     (\<forall>i j r. owns (procs S) i r \<longrightarrow> owns (procs S) j r \<longrightarrow> i = j) \<and>
     (\<forall>r \<in> locks (cs S). r < nref (cs S)) \<and>
     (\<forall>i < length (procs S). held_ok (procs S ! i))"

lemma tame_locks: "tame s s' \<Longrightarrow> \<forall>r \<in> locks s. r < nref s \<Longrightarrow> locks s' = locks s"
proof -
  assume t: "tame s s'" and b: "\<forall>r \<in> locks s. r < nref s"
  have "mux (heap_of s' r) = mux (heap_of s r)" for r
  proof (cases "r < nref s")
    case True
    then show ?thesis using t by (simp add: tame_def tame_lease_def)
  next
    case False
    then have "\<not> mux (heap_of s r)" using b by (auto simp: locks_def)
    moreover have "r < nref s' \<Longrightarrow> \<not> mux (heap_of s' r)"
      using t False by (simp add: tame_def fresh_lease_def)
    ultimately show ?thesis using t by (cases "r < nref s'") (simp_all add: tame_def)
  qed
  then show ?thesis by (simp add: locks_def)
qed

text \<open>Three kinds of steps: no lock changes hands, a call takes one, a call drops all.\<close>

lemma linv_tame:
  assumes inv: "linv S" and t: "tame (cs S) (cs S')"
    and p: "length (procs S') = length (procs S)"
      "\<And>j. j < length (procs S) \<Longrightarrow> held (procs S' ! j) = held (procs S ! j) \<and>
         (held_ok (procs S ! j) \<longrightarrow> held_ok (procs S' ! j))"
  shows "linv S'"
proof -
  have l: "locks (cs S') = locks (cs S)"
    using tame_locks [OF t] inv by (simp add: linv_def)
  have o: "owns (procs S') i r = owns (procs S) i r" for i r
    using p by (auto simp: owns_def)
  have "nref (cs S) \<le> nref (cs S')" using t by (simp add: tame_def)
  moreover have "\<forall>i < length (procs S'). held_ok (procs S' ! i)"
    using inv p by (simp add: linv_def)
  ultimately show ?thesis using inv by (auto simp: linv_def l o)
qed

lemma linvD:
  assumes "linv S"
  shows "\<forall>r \<in> locks (cs S). r < nref (cs S)" "i < length (procs S) \<Longrightarrow> held_ok (procs S ! i)"
  using assms by (simp_all add: linv_def)

lemma linv_take:
  assumes inv: "linv S" and i: "i < length (procs S)" and r: "r \<notin> locks (cs S)" "r < nref (cs S)"
    and cs: "cs S' = upd_lease r (\<lambda>l. l\<lparr>mux := True\<rparr>) (cs S)"
    and ps: "procs S' = (procs S)[i := p]" and p: "held p = r # held (procs S ! i)" "held_ok p"
  shows "linv S'"
proof -
  have l: "locks (cs S') = insert r (locks (cs S))" by (auto simp: locks_def cs)
  have o: "owns (procs S') j x \<longleftrightarrow> owns (procs S) j x \<or> j = i \<and> x = r" for j x
    using i by (auto simp: owns_def ps p nth_list_update)
  have "\<not> owns (procs S) j r" for j using inv r by (auto simp: linv_def)
  moreover have "\<forall>j < length (procs S'). held_ok (procs S' ! j)"
    using linvD(2) [OF inv] p(2) i by (simp add: ps nth_list_update)
  moreover have "nref (cs S') = nref (cs S)" by (simp add: cs)
  ultimately show ?thesis
    using inv r(2) unfolding linv_def l o by auto
qed

lemma linv_drop:
  assumes inv: "linv S" and i: "i < length (procs S)"
    and cs: "locks (cs S') = locks (cs S) - set (held (procs S ! i))" "nref (cs S) \<le> nref (cs S')"
    and ps: "procs S' = (procs S)[i := p]" and p: "held p = []" "held_ok p"
  shows "linv S'"
proof -
  have o: "owns (procs S') j x \<longleftrightarrow> owns (procs S) j x \<and> j \<noteq> i" for j x
    using i by (auto simp: owns_def ps p nth_list_update)
  have "x \<in> set (held (procs S ! i)) \<longleftrightarrow> owns (procs S) i x" for x
    using i by (simp add: owns_def)
  then have L: "locks (cs S') = {x. \<exists>j. owns (procs S) j x \<and> j \<noteq> i}"
    using inv unfolding cs(1) linv_def by blast
  have "x \<in> locks (cs S') \<Longrightarrow> x < nref (cs S')" for x
    using linvD(1) [OF inv] cs by (metis DiffD1 less_le_trans)
  then have "\<forall>x \<in> locks (cs S'). x < nref (cs S')" by blast
  moreover have "\<forall>j < length (procs S'). held_ok (procs S' ! j)"
    using linvD(2) [OF inv] p(2) i by (simp add: ps nth_list_update)
  ultimately show ?thesis
    using inv unfolding linv_def o L by blast
qed

lemma locks_upd_mux:
  "locks (upd_lease r (\<lambda>l. l\<lparr>mux := False\<rparr>) s) = locks s - {r}"
  by (auto simp: locks_def)

lemma locks_unlock_all: "locks (unlock_all rs s) = locks s - set rs"
proof (induction rs arbitrary: s)
  case Nil
  then show ?case by (simp add: unlock_all_def)
next
  case (Cons r rs)
  have "unlock_all (r # rs) s = unlock_all rs (upd_lease r (\<lambda>l. l\<lparr>mux := False\<rparr>) s)"
    by (simp add: unlock_all_def)
  then show ?case using Cons.IH locks_upd_mux by auto
qed

lemma nref_unlock_all [simp]: "nref (unlock_all rs s) = nref s"
  by (induction rs arbitrary: s) (simp_all add: unlock_all_def)

lemma linv_finish:
  assumes inv: "linv S" and i: "i < length (procs S)" and t: "tame (cs S) s"
  shows "linv (finish i l s S)"
proof (rule linv_drop [OF inv i])
  show "procs (finish i l s S) = (procs S)[i := (procs S ! i)\<lparr>pc := PDone l, held := []\<rparr>]"
    using i by (simp add: finish_def set_held_def set_pc_def)
  show "locks (cs (finish i l s S)) = locks (cs S) - set (held (procs S ! i))"
    using tame_locks [OF t linvD(1) [OF inv]] by (simp add: finish_def locks_unlock_all)
  show "nref (cs S) \<le> nref (cs (finish i l s S))"
    using t by (simp add: finish_def tame_def)
qed (simp_all add: held_ok_def split: kind.split)

lemma linv_set_pc:
  assumes inv: "linv S" and t: "tame (cs S) s" and i: "i < length (procs S)"
    and c: "held_ok (procs S ! i) \<Longrightarrow> held_ok ((procs S ! i)\<lparr>pc := c\<rparr>)"
  shows "linv (set_pc i c s S)"
  by (rule linv_tame [OF inv]) (use t i c in \<open>auto simp: set_pc_def nth_list_update\<close>)

lemma linv_set_helper: "linv S \<Longrightarrow> tame (cs S) s \<Longrightarrow> linv (set_helper i c s S)"
  by (rule linv_tame [of S]) simp_all

lemma linv_spawn [simp]: "linv (spawn h S) = linv S"
  by (simp add: linv_def)

subsection \<open>Every step keeps the lock discipline\<close>

lemma linv_fields [simp]:
  "linv (S\<lparr>rx := x\<rparr>) = linv S" "linv (S\<lparr>sweep := y\<rparr>) = linv S"
  by (simp_all add: linv_def)

lemma offline_nref: "offline s r \<Longrightarrow> r < nref s"
  by (simp add: offline_def base_lease_def)

lemma helper_step_linv:
  assumes s: "sinv S" and inv: "linv S" and step: "helper_step i ev S = Inr (Some S')"
  shows "linv S'"
proof -
  let ?h = "helpers S ! i"
  have i: "i < length (helpers S)" and act: "helper_act i (hpc ?h) ev S = Inr (Some S')"
    using step by (simp_all add: helper_step_def)
  note ok = sinvD(2) [OF s i]
  note set = linv_set_helper [OF inv]
  have start: "linv S'" if "hpc ?h = HStart j" "helper_start i j rip rnd S = Inr (Some S')" for j rip rnd
    using that ok by (auto simp: helper_start_def bind_r_eq_Inr split: job.splits
        intro!: set dest: offline_nref tame_start_discover tame_start_request)
  have err: "linv S'" if "helper_send_error i r e S = Inr (Some S')" for r e
    using that by (auto simp: helper_send_error_def bind_r_eq_Inr split_beta Let_def
        intro!: set tame_send_error dest: tame_remove_lease split: if_splits)
  have dn: "linv S'" if "hpc ?h = HWaiting r" "helper_done i r S = Inr (Some S')" for r
    using that ok by (auto simp: helper_done_def intro!: set tame_recv dest: result_ok_nref)
  show ?thesis
    using act start err dn
    by (cases "(i, hpc ?h, ev, S)" rule: helper_act.cases) (auto intro!: set)
qed

lemma linv_after_discover:
  assumes inv: "linv S" and i: "i < length (procs S)" and t: "tame (cs S) s"
    and c: "pkind (procs S ! i) = GetLease" "held (procs S ! i) = []"
  shows "linv (after_discover i r s S)"
  using linv_finish [OF inv i t] linv_set_pc [OF inv t i, of "PAsk r"] c
  by (simp add: after_discover_def held_ok_def)

lemma take_result_linv:
  assumes inv: "linv S" and i: "i < length (procs S)"
    and c: "awaited (pc (procs S ! i)) = Some hid"
    and a: "minds_ok a = (pkind (procs S ! i) \<noteq> GetLease)"
    and d: "loop_disc a \<Longrightarrow> pkind (procs S ! i) = GetLease"
    and res: "take_result cfg i hid a S = Inr (Some S')"
  shows "linv S'"
proof -
  let ?p = "procs S ! i"
  have ok: "held_ok ?p" by (rule linvD(2) [OF inv i])
  have nil: "held ?p = []" if "pkind ?p = GetLease"
    using ok c that by (auto simp: held_ok_def awaited_def split: proc_pc.splits)
  have pause: "held_ok (?p\<lparr>pc := PPause a t\<rparr>)" for t
    using nil a by (cases "pkind ?p") (simp_all add: held_ok_def)
  obtain l where l: "hpc (helpers S ! hid) = HDeliver l"
    using res by (auto simp: take_result_def split: helper_pc.splits)
  show ?thesis
  proof (cases l)
    case None
    have "linv (set_helper hid HEnd (cs S) S)" by (rule linv_set_helper [OF inv]) simp
    from linv_set_pc [OF this] show ?thesis
      using res l None pause i by (auto simp: take_result_def)
  next
    case (Some r)
    obtain s where s: "remove_lease r (cs S) = Inr s"
      and S': "S' = (case a of LDiscover x \<Rightarrow> after_discover i r s (set_helper hid HEnd s S)
        | _ \<Rightarrow> finish i (Some r) s (set_helper hid HEnd s S))"
      using res l Some by (auto simp: take_result_def bind_r_eq_Inr Let_def)
    have "linv (set_helper hid HEnd s S)" by (rule linv_set_helper [OF inv tame_remove_lease [OF s]])
    then show ?thesis
      using i nil d unfolding S'
      by (auto simp: loop_disc_def intro!: linv_after_discover linv_finish split: loop.split)
  qed
qed

lemma set_held_set_pc:
  "i < length (procs S) \<Longrightarrow> set_held i rs (set_pc i c s S) =
     S\<lparr>cs := s, procs := (procs S)[i := (procs S ! i)\<lparr>pc := c, held := rs\<rparr>]\<rparr>"
  by (cases S) (simp add: set_held_def set_pc_def)

lemma get_free:
  "store_lookup (leases s) x = Some it \<Longrightarrow> \<not> mux (heap_of s (item_lease it)) \<Longrightarrow>
     item_lease it \<notin> locks s"
  by (simp add: locks_def)

lemma look_again_linv:
  assumes s: "sinv S" and inv: "linv S" and i: "i < length (procs S)"
    and c: "pc (procs S ! i) = PGet a" and res: "look_again i a S = Inr (Some S')"
  shows "linv S'"
proof -
  let ?p = "procs S ! i"
  note cv = sinvD(1) [OF s]
  have ok: "held_ok ?p" by (rule linvD(2) [OF inv i])
  have head: "linv (set_pc i (loop_head a) (cs S) S)"
    by (rule linv_set_pc [OF inv tame_refl i])
      (use ok c in \<open>auto simp: held_ok_def loop_head_def minds_ok_def split: kind.splits loop.splits\<close>)
  have take: "linv (set_held i (r # held ?p) (set_pc i c' (upd_lease r (\<lambda>l. l\<lparr>mux := True\<rparr>) (cs S)) S))"
    if "r \<notin> locks (cs S)" "r < nref (cs S)"
      "c' = PRemove a r \<or> c' = loop_head a \<and> minds_ok a" for r c'
    by (rule linv_take [OF inv i that(1,2), where p = "?p\<lparr>pc := c', held := r # held ?p\<rparr>"])
      (use ok c that(3) i in \<open>auto simp: set_held_set_pc held_ok_def loop_head_def minds_ok_def
        split: kind.splits loop.splits\<close>)
  have err: "linv S'"
    if "bind_r (error_check (loop_xid a) types (cs S)) (\<lambda>res.
            case res of
              None \<Rightarrow> Inr None
            | Some (None, s) \<Rightarrow> Inr (Some (set_pc i (loop_head a) s S))
            | Some (Some r, s) \<Rightarrow>
                Inr (Some (set_held i (r # held ?p) (set_pc i (PRemove a r) s S)))) = Inr (Some S')" for types
  proof (cases rule: error_check_cases [OF cv, of "loop_xid a" types])
    case (3 it t)
    then show ?thesis
      using that take [OF get_free [OF 3(1,2)] cinv_entry(1) [OF cv 3(1)]] by auto
  qed (use that head in auto)
  show ?thesis
  proof (cases a)
    case (LRenew r0 x)
    show ?thesis
    proof (cases rule: renew_check_cases [OF cv, of x])
      case (3 it t)
      then show ?thesis
        using res LRenew take [OF get_free [OF 3(1,2)] cinv_entry(1) [OF cv 3(1)]]
        by (auto simp: look_again_def minds_ok_def split: if_splits)
    qed (use res head LRenew in \<open>auto simp: look_again_def\<close>)
  qed (use res err in \<open>auto simp: look_again_def\<close>)
qed

lemma take_found_linv:
  assumes inv: "linv S" and i: "i < length (procs S)"
    and c: "pc (procs S ! i) = PRemove a r" and res: "take_found i a r S = Inr (Some S')"
  shows "linv S'"
proof -
  let ?p = "procs S ! i"
  have ok: "held_ok ?p" by (rule linvD(2) [OF inv i])
  show ?thesis
  proof (cases "minds_ok a")
    case True
    then obtain r0 x where a: "a = LRenew r0 x" by (cases a) (auto simp: minds_ok_def)
    obtain s where "remove_lease r (cs S) = Inr s" "S' = finish i (Some r) s S"
      using res by (auto simp: take_found_def a bind_r_eq_Inr)
    then show ?thesis using linv_finish [OF inv i] tame_remove_lease by blast
  next
    case False
    then have k: "pkind ?p = GetLease" "held ?p = [r]"
      using ok c by (auto simp: held_ok_def split: kind.splits)
    obtain s where s: "remove_lease r (cs S) = Inr s"
      and S': "S' = (let s' = upd_lease r (\<lambda>l. l\<lparr>mux := False\<rparr>) s in
        case a of LDiscover x \<Rightarrow> after_discover i r s' (set_held i [] S)
        | _ \<Rightarrow> finish i (Some r) s' (set_held i [] S))"
      using res False
      by (cases a) (auto simp: take_found_def bind_r_eq_Inr error_finish_def unlock_lease_def
          upd_lease_def minds_ok_def)
    let ?s = "upd_lease r (\<lambda>l. l\<lparr>mux := False\<rparr>) s"
    let ?S = "set_held i [] (set_pc i PBegin ?s S)"
    have loc: "locks ?s = locks (cs S) - {r}"
      using tame_locks [OF tame_remove_lease [OF s] linvD(1) [OF inv]] by (simp add: locks_upd_mux)
    have nref: "nref (cs S) \<le> nref ?s"
      using tame_remove_lease [OF s] by (simp add: tame_def)
    have "linv ?S"
      by (rule linv_drop [OF inv i, where p = "?p\<lparr>pc := PBegin, held := []\<rparr>"]) (use i k loc nref in \<open>simp_all add: set_held_set_pc held_ok_def\<close>)
    moreover have "S' = (case a of LDiscover x \<Rightarrow> after_discover i r ?s ?S | _ \<Rightarrow> finish i (Some r) ?s ?S)"
      using i unfolding S'
      by (cases S; cases a) (simp_all add: after_discover_def finish_def set_held_def set_pc_def Let_def)
    moreover have "pkind (procs ?S ! i) = GetLease" "held (procs ?S ! i) = []" "cs ?S = ?s"
      using i k by (simp_all add: set_held_set_pc)
    ultimately show ?thesis
      using i by (auto intro!: linv_after_discover linv_finish split: loop.split)
  qed
qed

lemma loop_kind_simps [simp]:
  "\<not> minds_ok (LDiscover x)" "\<not> minds_ok (LRequest r x)" "minds_ok (LRenew r x)"
  "loop_disc (LDiscover x)" "\<not> loop_disc (LRequest r x)" "\<not> loop_disc (LRenew r x)"
  by (simp_all add: minds_ok_def loop_disc_def)

lemma begin_linv:
  assumes inv: "linv S" and i: "i < length (procs S)" and t: "tame (cs S) s"
    and c: "held_ok (procs S ! i) \<Longrightarrow> held_ok ((procs S ! i)\<lparr>pc := c\<rparr>)"
  shows "linv (spawn h (set_pc i c s S))"
  using linv_set_pc [OF assms(1,3,2,4)] by simp

lemma proc_step_linv:
  assumes s: "sinv S" and inv: "linv S" and step: "proc_step cfg i ev S = Inr (Some S')"
  shows "linv S'"
proof -
  let ?p = "procs S ! i"
  have i: "i < length (procs S)" and act: "proc_act cfg i (pc ?p) ev S = Inr (Some S')"
    using step by (simp_all add: proc_step_def)
  have ok: "held_ok ?p" by (rule linvD(2) [OF inv i])
  note beg = begin_linv [OF inv i] and pc = linv_set_pc [OF inv tame_refl i]
  have disc: "linv S'" if "pc ?p = PBegin" "pkind ?p = GetLease" "begin_discover cfg i xid S = Inr (Some S')" for xid
    using that by (auto simp: begin_discover_def Let_def held_ok_def intro!: beg)
  have req: "linv S'" if "pc ?p = PAsk r" "begin_request cfg i r S = Inr (Some S')" for r
    using that ok by (auto simp: begin_request_def Let_def held_ok_def bind_r_eq_Inr intro!: beg
        split: kind.splits)
  have ren: "linv S'" if "pc ?p = PBegin" "pkind ?p = Renew a" "begin_renew cfg i a xid rip rnd S = Inr (Some S')" for a xid rip rnd
    using that by (auto simp: begin_renew_def Let_def held_ok_def bind_r_eq_Inr split_beta
        intro!: beg dest: tame_renew)
  have recv: "linv S'" if "awaited (pc ?p) = Some hid" "take_result cfg i hid a S = Inr (Some S')"
    "minds_ok a = (pkind ?p \<noteq> GetLease)" "loop_disc a \<Longrightarrow> pkind ?p = GetLease" for hid a
    by (rule take_result_linv [OF inv i that(1,3,4,2)])
  note recv = recv [where a = "LDiscover x" for x] recv [where a = "LRequest r x" for r x]
    recv [where a = "LRenew r x" for r x]
  have wait: "linv S'" if "wait_timeout cfg i a d S = Inr (Some S')" "minds_ok a = (pkind ?p \<noteq> GetLease)"
    "pkind ?p = GetLease \<Longrightarrow> held ?p = []" for a d
    using that by (cases "pkind ?p") (auto simp: wait_timeout_def held_ok_def intro!: pc)
  have timer: "linv S'" if "pc ?p = PPause a t" "S' = set_pc i (PGet a) (cs S) S" for a t
    using that ok by (auto simp: held_ok_def intro!: pc split: kind.splits)
  show ?thesis
  proof (cases "pc ?p")
    case PBegin
    then show ?thesis using act disc ren by (cases ev; cases "pkind ?p") auto
  next
    case (PAsk r)
    then show ?thesis using act req by (cases ev) auto
  next
    case (PDiscover hid x d)
    then show ?thesis using act recv(1) wait ok
      by (cases ev; cases "pkind ?p") (auto simp: awaited_def held_ok_def)
  next
    case (PRequest hid r x d)
    then show ?thesis using act recv(2) wait ok
      by (cases ev; cases "pkind ?p") (auto simp: awaited_def held_ok_def)
  next
    case (PRenew hid r x d)
    then show ?thesis using act recv(3) wait ok
      by (cases ev; cases "pkind ?p") (auto simp: awaited_def held_ok_def)
  next
    case (PPause a t)
    then show ?thesis using act timer linv_finish [OF inv i tame_refl] by (cases ev) auto
  next
    case (PGet a)
    then show ?thesis using act look_again_linv [OF s inv i] by (cases ev) auto
  next
    case (PRemove a r)
    then show ?thesis using act take_found_linv [OF inv i] by (cases ev) auto
  next
    case (PDone l)
    then show ?thesis using act by (cases ev) auto
  qed
qed

lemma held_ok_cancelled [simp]: "held_ok (p\<lparr>cancelled := b\<rparr>) = held_ok p"
  by (simp add: held_ok_def split: kind.split proc_pc.split)

lemma linv_procs:
  assumes "linv S" and "length ps = length (procs S)"
    and "\<And>j. j < length ps \<Longrightarrow> held (ps ! j) = held (procs S ! j) \<and>
         (held_ok (procs S ! j) \<longrightarrow> held_ok (ps ! j))"
  shows "linv (S\<lparr>procs := ps\<rparr>)"
  by (rule linv_tame [OF assms(1)]) (use assms in simp_all)

lemma sweep_locks:
  assumes "store_inv h st" and "clean_keys ks h st = Inr (Some (h', st'))"
  shows "mux (h' r) = mux (h r)"
  using assms
proof (induction ks arbitrary: h st)
  case Nil
  then show ?case by simp
next
  case (Cons k ks)
  show ?case
  proof (cases "store_lookup st k")
    case None
    then show ?thesis using Cons by simp
  next
    case (Some it)
    have "\<not> entry_closed h it"
      using Cons.prems(2) Some by (auto simp: entry_closed_def chan_send_def)
    note st = clean_step [OF Cons.prems(1) Some this]
    have "mux (h' r) = mux ((h(item_lease it := wake (h (item_lease it)))) r)"
      by (rule Cons.IH [OF st(2)]) (use Cons.prems(2) in \<open>simp only: st(1)\<close>)
    then show ?thesis by (simp split: if_splits)
  qed
qed

lemma step_linv:
  assumes s: "sinv S" and inv: "linv S" and step: "step cfg ev S = Inr (Some S')"
  shows "linv S'"
proof (cases ev)
  case (ECall k hn ch d)
  let ?p = "new_proc k hn ch d"
  have S': "S' = S\<lparr>procs := procs S @ [?p]\<rparr>" using step by (simp add: ECall)
  have o: "owns (procs S @ [?p]) i r = owns (procs S) i r" for i r
    by (auto simp: owns_def nth_append new_proc_def)
  have "held_ok ?p" by (simp add: held_ok_def new_proc_def split: kind.split)
  then have "\<forall>i < length (procs S'). held_ok (procs S' ! i)"
    using inv by (auto simp: S' linv_def nth_append)
  then show ?thesis using inv by (simp add: linv_def S' o)
next
  case (ECancel i)
  have "linv (S\<lparr>procs := (procs S)[i := (procs S ! i)\<lparr>cancelled := True\<rparr>]\<rparr>)"
  proof (rule linv_procs [OF inv])
    fix j
    show "held ((procs S)[i := (procs S ! i)\<lparr>cancelled := True\<rparr>] ! j) = held (procs S ! j) \<and>
        (held_ok (procs S ! j) \<longrightarrow> held_ok ((procs S)[i := (procs S ! i)\<lparr>cancelled := True\<rparr>] ! j))"
      by (cases "i = j"; cases "j < length (procs S)") (simp_all add: list_update_beyond)
  qed simp
  then show ?thesis using step by (simp add: ECancel)
next
  case (EProc i e)
  then show ?thesis using step proc_step_linv [OF s inv] by simp
next
  case (EHelper i e)
  then show ?thesis using step helper_step_linv [OF s inv] by simp
next
  case EHandle
  then obtain d s' where "processDHCPReponse d (cs S) = Inr (Some s')" "S' = S\<lparr>cs := s', rx := None\<rparr>"
    using step by (auto simp: bind_r_eq_Inr split: option.splits)
  then show ?thesis
    using linv_tame [OF inv, of "S\<lparr>cs := s'\<rparr>"] tame_response [OF sinvD(1) [OF s]] by simp
next
  case ESweep
  then obtain ks h st where c: "clean_keys ks (heap_of (cs S)) (leases (cs S)) = Inr (Some (h, st))"
    and S': "S' = S\<lparr>cs := (cs S)\<lparr>heap_of := h, leases := st\<rparr>, sweep := None\<rparr>"
    using step by (auto simp: bind_r_eq_Inr split: option.splits)
  have "locks (cs S') = locks (cs S)"
    using sweep_locks [OF cinv_store [OF sinvD(1) [OF s]] c] by (simp add: S' locks_def)
  then show ?thesis using inv by (simp add: linv_def S')
next
  case (ETick dt)
  then have "S' = S\<lparr>cs := (cs S)\<lparr>now := now (cs S) + dt\<rparr>\<rparr>" using step by simp
  then show ?thesis
    by (intro linv_tame [OF inv]) (simp_all add: tame_now)
qed (use step inv in \<open>auto simp: Let_def\<close>)

lemma linv_init: "linv (init_state t)"
  by (simp add: linv_def init_state_def locks_def owns_def)

lemma reach_linv: "reach A cfg S \<Longrightarrow> linv S"
proof (induction rule: reach.induct)
  case (reach_init t)
  show ?case by (rule linv_init)
next
  case (reach_step S ev S')
  then show ?case using step_linv reach_sinv by blast
qed

text \<open>
  C4. Mutual exclusion on leases. A lease is locked between two steps exactly when a call in
  progress holds it, never two calls hold the same lease, a call that has ended holds none,
  and a call of \<open>GetLease\<close> holds at most the one answered lease it is about to remove.
\<close>

theorem lease_lock_discipline:
  assumes "reach A cfg S"
  shows "(mux (heap_of (cs S) r) \<longleftrightarrow> (\<exists>!i. i < length (procs S) \<and> r \<in> set (held (procs S ! i)))) \<and>
    (i < length (procs S) \<longrightarrow> finished (procs S ! i) \<longrightarrow> held (procs S ! i) = []) \<and>
    (i < length (procs S) \<longrightarrow> pkind (procs S ! i) = GetLease \<longrightarrow> r \<in> set (held (procs S ! i)) \<longrightarrow>
       (\<exists>a. pc (procs S ! i) = PRemove a r))"
proof -
  have inv: "linv S" by (rule reach_linv [OF assms])
  have "mux (heap_of (cs S) r) \<longleftrightarrow> (\<exists>!i. i < length (procs S) \<and> r \<in> set (held (procs S ! i)))"
    using inv unfolding linv_def locks_def owns_def by blast
  moreover have "held (procs S ! i) = []" if "i < length (procs S)" "finished (procs S ! i)"
    using linvD(2) [OF inv that(1)] that(2)
    by (auto simp: held_ok_def finished_def split: kind.splits proc_pc.splits)
  moreover have "\<exists>a. pc (procs S ! i) = PRemove a r"
    if "i < length (procs S)" "pkind (procs S ! i) = GetLease" "r \<in> set (held (procs S ! i))"
    using linvD(2) [OF inv that(1)] that(2,3)
    by (auto simp: held_ok_def split: proc_pc.splits)
  ultimately show ?thesis by blast
qed

end
