(* ===== verification/Client_Phases.thy ===== *)
theory Client_Phases
  imports Client_System
begin

text \<open>
  What the client does to its leases, seen from outside: an abstract machine that knows the phase
  of every lease and nothing of stores, locks, channels or goroutines. The client system refines
  it: every step, of whichever goroutine, is a sequence of abstract steps.
\<close>

subsection \<open>The abstract machine\<close>

definition start_phase :: "phase \<Rightarrow> bool" where
  "start_phase p \<longleftrightarrow> p = Carrier \<or> p = Waiting DHCPMsgTypeDiscover \<or> p = Waiting DHCPMsgTypeRequest"

inductive dora :: "phase list \<Rightarrow> phase list \<Rightarrow> bool" where
  created: "start_phase p \<Longrightarrow> dora ps (ps @ [p])"
| moved: "i < length ps \<Longrightarrow> phase_step (ps ! i) p \<Longrightarrow> dora ps (ps[i := p])"

definition phases :: "sys \<Rightarrow> phase list" where
  "phases S = map (\<lambda>r. phase_of (heap_of (cs S) r)) [0..<nref (cs S)]"

lemma length_phases [simp]: "length (phases S) = nref (cs S)"
  by (simp add: phases_def)

lemma moved_star:
  "phase_step\<^sup>*\<^sup>* p q \<Longrightarrow> i < length ps \<Longrightarrow> dora\<^sup>*\<^sup>* (ps[i := p]) (ps[i := q])"
proof (induction rule: rtranclp_induct)
  case (step q q')
  have "dora (ps[i := q]) ((ps[i := q])[i := q'])"
    by (rule moved) (use step in simp_all)
  then show ?case using step by (simp add: rtranclp.rtrancl_into_rtrancl)
qed simp

lemma all_moved:
  assumes "length qs = length ps" and "\<And>i. i < length ps \<Longrightarrow> phase_step\<^sup>*\<^sup>* (ps ! i) (qs ! i)"
  shows "dora\<^sup>*\<^sup>* ps qs"
proof -
  have "dora\<^sup>*\<^sup>* ps (take k qs @ drop k ps)" if "k \<le> length ps" for k
    using that
  proof (induction k)
    case (Suc k)
    let ?m = "take k qs @ drop k ps"
    have k: "k < length ?m" "?m ! k = ps ! k"
      using Suc.prems assms(1) by (simp_all add: nth_append)
    have "?m[k := qs ! k] = take (Suc k) qs @ drop (Suc k) ps"
      using Suc.prems assms(1) by (simp add: list_update_append take_Suc_conv_app_nth Cons_nth_drop_Suc [symmetric])
    then have "dora\<^sup>*\<^sup>* ?m (take (Suc k) qs @ drop (Suc k) ps)"
      using moved_star [OF assms(2) k(1), of k] Suc.prems k(2) list_update_id [of ?m k] by simp
    then show ?case using Suc by simp
  qed simp
  from this [of "length ps"] show ?thesis using assms(1) by simp
qed

lemma some_created:
  "(\<And>q. q \<in> set qs \<Longrightarrow> \<exists>p. start_phase p \<and> phase_step\<^sup>*\<^sup>* p q) \<Longrightarrow> dora\<^sup>*\<^sup>* ps (ps @ qs)"
proof (induction qs rule: rev_induct)
  case (snoc q qs)
  obtain p where p: "start_phase p" "phase_step\<^sup>*\<^sup>* p q" using snoc.prems by auto
  have "dora\<^sup>*\<^sup>* ps (ps @ qs)" using snoc by simp
  also have "dora (ps @ qs) ((ps @ qs) @ [p])" by (rule created [OF p(1)])
  also have "dora\<^sup>*\<^sup>* ((ps @ qs) @ [p]) ((ps @ qs) @ [q])"
    using moved_star [OF p(2), of "length (ps @ qs)" "(ps @ qs) @ [p]"]
    unfolding list_update_length by simp
  finally show ?case by simp
qed simp

text \<open>A well-formed lease is in a phase the machine knows.\<close>

lemma wf_phase:
  assumes "lease_wf l"
  shows "\<exists>p. start_phase p \<and> phase_step\<^sup>*\<^sup>* p (phase_of l)"
proof (cases "DHCP4 l")
  case None
  then show ?thesis by (auto simp: phase_of_def lease_msg_type_def start_phase_def)
next
  case (Some d)
  have s: "phase_step\<^sup>*\<^sup>* (Waiting DHCPMsgTypeDiscover) (Answered DHCPMsgTypeOffer)"
    "phase_step\<^sup>*\<^sup>* (Waiting DHCPMsgTypeRequest) (Answered DHCPMsgTypeAck)"
    "phase_step\<^sup>*\<^sup>* (Waiting DHCPMsgTypeRequest) (Answered DHCPMsgTypeNak)"
    by (auto intro: phase_step.intros)
  have a: "phase_step\<^sup>*\<^sup>* (Waiting DHCPMsgTypeDiscover) (Answered DHCPMsgTypeRequest)"
    using s(1) by (rule rtranclp.rtrancl_into_rtrancl) (rule phase_step.asked)
  show ?thesis
    by (cases rule: lease_wf_cases [OF assms Some])
      (use s a in \<open>auto simp: phase_of_def start_phase_def split: if_splits\<close>)
qed

lemma refines:
  assumes "cinv (cs S')" and "extends (cs S) (cs S')"
  shows "dora\<^sup>*\<^sup>* (phases S) (phases S')"
proof -
  let ?n = "nref (cs S)" and ?p = "\<lambda>r. phase_of (heap_of (cs S') r)"
  have n: "?n \<le> nref (cs S')" and l: "\<And>r. r < ?n \<Longrightarrow> phase_step\<^sup>*\<^sup>* (phase_of (heap_of (cs S) r)) (?p r)"
    using assms(2) by (simp_all add: extends_def later_def)
  have "dora\<^sup>*\<^sup>* (phases S) (map ?p [0..<?n])"
    by (rule all_moved) (use l in \<open>simp_all add: phases_def\<close>)
  also have "dora\<^sup>*\<^sup>* (map ?p [0..<?n]) (map ?p [0..<?n] @ map ?p [?n..<nref (cs S')])"
    by (rule some_created) (use assms(1) wf_phase in \<open>auto simp: cinv_def\<close>)
  also have "map ?p [0..<?n] @ map ?p [?n..<nref (cs S')] = phases S'"
    using n upt_add_eq_append [of 0 ?n "nref (cs S') - ?n"] by (simp add: phases_def flip: map_append)
  finally show ?thesis .
qed

subsection \<open>Every step extends the shared state\<close>

lemma helper_step_extends:
  assumes inv: "sinv S" and step: "helper_step i ev S = Inr (Some S')"
  shows "good (cs S) (cs S')"
proof -
  have i: "i < length (helpers S)" and act: "helper_act i (hpc (helpers S ! i)) ev S = Inr (Some S')"
    using step by (simp_all add: helper_step_def)
  have ok: "hpc_ok (cs S) (hdisc (helpers S ! i)) (hpc (helpers S ! i))" by (rule sinvD(2) [OF inv i])
  show ?thesis
  proof (cases "hpc (helpers S ! i)")
    case (HStart j)
    then have "\<exists>rip rnd. ev = HGo rip rnd" using act by (cases ev) auto
    then show ?thesis using act HStart ok start_discover_good(1) start_request_good(2)
      by (cases j) (auto simp: helper_start_def bind_r_eq_Inr)
  next
    case (HSending r)
    have "good (cs S) (snd (alloc (NewLeaseError e) s))" if "good (cs S) s" for e s
      by (rule good_trans [OF that good_alloc]) (simp add: lease_wf_def)
    then show ?thesis using act HSending remove_lease_good
      by (cases ev) (auto simp: helper_send_error_def bind_r_eq_Inr split_beta split: if_splits)
  next
    case (HWaiting r)
    then show ?thesis using act good_recv by (cases ev) (auto simp: helper_done_def)
  next
    case (HDeliver l)
    then show ?thesis using act by (cases ev) auto
  next
    case HEnd
    then show ?thesis using act by (cases ev) auto
  qed
qed

lemma finish_good: "good s t \<Longrightarrow> good s (cs (finish i l t S))"
  using good_trans [OF _ good_unlock_all] by (simp add: finish_def)

lemma after_discover_good: "good s t \<Longrightarrow> good s (cs (after_discover i r t S))"
  using finish_good by (simp add: after_discover_def)

lemma take_result_good:
  assumes "take_result cfg i hid a S = Inr (Some S')"
  shows "good (cs S) (cs S')"
  using assms remove_lease_good finish_good after_discover_good
  by (cases a) (auto simp: take_result_def bind_r_eq_Inr Let_def split: helper_pc.splits option.splits)

lemma look_again_good:
  assumes inv: "sinv S" and res: "look_again i a S = Inr (Some S')"
  shows "good (cs S) (cs S')"
proof -
  note c = sinvD(1) [OF inv]
  show ?thesis
  proof (cases a)
    case (LDiscover x)
    show ?thesis
      by (cases rule: error_check_cases [OF c, of x "[DHCPMsgTypeOffer]"])
        (use res LDiscover good_mux in \<open>auto simp: look_again_def\<close>)
  next
    case (LRequest r0 x)
    show ?thesis
      by (cases rule: error_check_cases [OF c, of x "[DHCPMsgTypeAck, DHCPMsgTypeNak]"])
        (use res LRequest good_mux in \<open>auto simp: look_again_def\<close>)
  next
    case (LRenew r0 x)
    show ?thesis
      by (cases rule: renew_check_cases [OF c, of x])
        (use res LRenew good_mux in \<open>auto simp: look_again_def split: if_splits\<close>)
  qed
qed

lemma take_found_good:
  assumes "take_found i a r S = Inr (Some S')"
  shows "good (cs S) (cs S')"
proof -
  have e: "good s t" if "error_finish r s = Inr t" for s t
    using that remove_lease_good good_trans [OF _ good_mux]
    by (auto simp: error_finish_def unlock_lease_def bind_r_eq_Inr simp flip: upd_lease_def)
  show ?thesis
    using assms e remove_lease_good finish_good after_discover_good
    by (cases a) (auto simp: take_found_def bind_r_eq_Inr)
qed

lemma begin_renew_good:
  assumes "begin_renew cfg i a xid rip rnd S = Inr (Some S')"
  shows "good (cs S) (cs S')"
proof -
  obtain l d where l: "renew_lease rip rnd xid (phostname (procs S ! i)) (pchaddr (procs S ! i)) a = Inr l"
    "DHCP4 l = Some d" "GetMsgType d = Inr DHCPMsgTypeDiscover" "Done l = Some make_chan1" "err l = None"
    using renew_lease_spec by blast
  have "good (cs S) (snd (alloc l (cs S)))"
    by (rule good_alloc) (use l in \<open>simp add: lease_wf_def\<close>)
  then show ?thesis using assms by (auto simp: begin_renew_def Let_def split_beta l)
qed

lemma proc_step_extends:
  assumes inv: "sinv S" and step: "proc_step cfg i ev S = Inr (Some S')"
  shows "good (cs S) (cs S')"
proof -
  have act: "proc_act cfg i (pc (procs S ! i)) ev S = Inr (Some S')"
    using step by (simp add: proc_step_def)
  have wait: "good (cs S) (cs S')" if "wait_timeout cfg i a d S = Inr (Some S')" for a d
    using that by (auto simp: wait_timeout_def)
  have disc: "good (cs S) (cs S')" if "begin_discover cfg i xid S = Inr (Some S')" for xid
    using that by (auto simp: begin_discover_def Let_def)
  have req: "good (cs S) (cs S')" if "begin_request cfg i r S = Inr (Some S')" for r
    using that by (auto simp: begin_request_def Let_def bind_r_eq_Inr)
  show ?thesis
  proof (cases "pc (procs S ! i)")
    case PBegin
    then show ?thesis using act disc begin_renew_good by (cases ev; cases "pkind (procs S ! i)") auto
  next
    case (PAsk r)
    then show ?thesis using act req by (cases ev) auto
  next
    case (PPause a t)
    then show ?thesis using act finish_good [OF good_refl] by (cases ev) auto
  next
    case (PGet a)
    then show ?thesis using act look_again_good [OF inv] by (cases ev) auto
  next
    case (PRemove a r)
    then show ?thesis using act take_found_good by (cases ev) auto
  qed (use act take_result_good wait in \<open>cases ev; auto\<close>)+
qed

lemma step_extends:
  assumes inv: "sinv S" and step: "step cfg ev S = Inr (Some S')"
  shows "good (cs S) (cs S')"
proof (cases ev)
  case (EProc i e)
  then show ?thesis using proc_step_extends [OF inv] step by simp
next
  case (EHelper i e)
  then show ?thesis using helper_step_extends [OF inv] step by simp
next
  case EHandle
  then show ?thesis using step response_good
    by (auto simp: bind_r_eq_Inr split: option.splits)
next
  case ESweep
  then obtain ks where "sweep S = Some ks" using step by (cases "sweep S") auto
  then show ?thesis using ESweep step clean_good [OF sinvD(1) [OF inv], of ks]
    by (auto simp: bind_r_eq_Inr split: option.splits)
qed (use step good_now in \<open>auto simp: Let_def\<close>)

subsection \<open>The refinement\<close>

text \<open>C2. The client refines the DHCP dialogue: whatever step is taken in whatever interleaving, what
  happens to the leases is a sequence of steps of the abstract machine. So an OFFER only ever
  answers a DISCOVER, an ACK or a NAK only a REQUEST, each at most once, and nothing that has
  been answered becomes unanswered again.\<close>

theorem client_refines_dora:
  assumes "reach A cfg S" and "step cfg ev S = Inr (Some S')"
  shows "dora\<^sup>*\<^sup>* (phases S) (phases S')"
proof (rule refines)
  have inv: "sinv S" by (rule reach_sinv [OF assms(1)])
  then show "extends (cs S) (cs S')" "cinv (cs S')"
    using step_extends [OF inv assms(2)] sinvD(1) [OF inv] by (simp_all add: good_def)
qed

end
