(* ===== verification/Client_Runs.thy ===== *)
theory Client_Runs
  imports Client_Locks Client_Phases
begin

text \<open>
  What the client as a whole does: the panics it can end in, a deadlock, what a call returns
  and how cancellation ends it. The concrete runs show that the states the theorems talk about
  are reached.
\<close>

subsection \<open>Runs\<close>

definition sample_cfg :: config where
  "sample_cfg = \<lparr>timeout = dur_of_secs 30, retry = dur_of_secs 5\<rparr>"

definition runs :: "config \<Rightarrow> event list \<Rightarrow> bool" where
  "runs cfg evs = (case run cfg evs (init_state 0) of Inr (Some S) \<Rightarrow> True | _ \<Rightarrow> False)"

definition reached :: "config \<Rightarrow> event list \<Rightarrow> sys" where
  "reached cfg evs = (case run cfg evs (init_state 0) of Inr (Some S) \<Rightarrow> S | _ \<Rightarrow> init_state 0)"

definition panic_of :: "'a option result \<Rightarrow> go_panic option" where
  "panic_of res = (case res of Inl p \<Rightarrow> Some p | Inr y \<Rightarrow> None)"

lemma panic_of_Some [simp]: "panic_of res = Some p \<longleftrightarrow> res = Inl p"
  by (auto simp: panic_of_def split: sum.split)

lemma run_concat: "run cfg (es @ fs) S = bind_r (run cfg es S) (\<lambda>res.
     case res of None \<Rightarrow> Inr None | Some S' \<Rightarrow> run cfg fs S')"
proof (induction es arbitrary: S)
  case (Cons e es)
  show ?case
    by (cases "step cfg e S") (auto simp: Cons.IH split: option.split)
qed simp

lemma run_reached:
  "runs cfg (es @ fs) \<Longrightarrow> run cfg fs (reached cfg es) = Inr (Some (reached cfg (es @ fs)))"
  by (auto simp: runs_def reached_def run_concat bind_r_def split: sum.splits option.splits)

lemma reach_reached:
  "runs cfg evs \<Longrightarrow> list_all A evs \<Longrightarrow> reach A cfg (reached cfg evs)"
  by (rule reach_run [OF reach_init [of A cfg 0]])
    (auto simp: runs_def reached_def list_all_iff split: sum.splits option.splits)

definition mac1 :: hwaddr where "mac1 = Some [0, 1, 2, 3, 4, 5]"

definition offer1 :: dhcp4 where
  "offer1 = (NewPackage 0 DHCPMsgTypeOffer 7 mac1 [])\<lparr>YourClientIP := Some [192, 168, 1, 20]\<rparr>"

definition ack1 :: dhcp4 where
  "ack1 = (NewPackage 0 DHCPMsgTypeAck 7 mac1 [])\<lparr>YourClientIP := Some [192, 168, 1, 20]\<rparr>"

text \<open>A call of \<open>GetLease\<close> up to its sent DISCOVER.\<close>

definition ask_run :: "event list" where
  "ask_run = [ECall GetLease ''pc'' mac1 None, EProc 0 (PGo 7 None 1), EHelper 0 (HGo None 1)]"

definition lease_run :: "event list" where
  "lease_run = ask_run @
     [EHelper 0 HSendOk, EPacket offer1, EHandle, EHelper 0 HDoneReady, EProc 0 PRecv,
      EProc 0 PRun, EHelper 1 (HGo None 1), EHelper 1 HSendOk, EPacket ack1, EHandle,
      EHelper 1 HDoneReady, EProc 0 PRecv]"

definition late_run :: "event list" where
  "late_run = ask_run @
     [EHelper 0 HSendOk, ETick (dur_of_secs 30), EProc 0 PTimeout, ETick (dur_of_secs 5),
      EProc 0 PTimer, EProc 0 PRun, EPacket offer1, EHandle, ETick (dur_of_secs 26), EScan]"

definition race_run :: "event list" where
  "race_run = ask_run @
     [EHelper 0 HSendOk, ETick (dur_of_secs 30), EProc 0 PTimeout, EPacket offer1, EHandle,
      ETick (dur_of_secs 5), EProc 0 PTimer, EProc 0 PRun, EPacket offer1]"

definition final_packet :: "sys \<Rightarrow> nat \<Rightarrow> dhcp4 option" where
  "final_packet S i = (case pc (procs S ! i) of PDone (Some r) \<Rightarrow> DHCP4 (heap_of (cs S) r) | _ \<Rightarrow> None)"

text \<open>The answer to a DISCOVER, seen by the abstract machine.\<close>

theorem client_refines_dora_witness:
  "dora\<^sup>*\<^sup>* [Waiting DHCPMsgTypeDiscover] [Answered DHCPMsgTypeOffer]"
proof -
  let ?run = "ask_run @ [EHelper 0 HSendOk, EPacket offer1]"
  let ?S = "reached sample_cfg ?run" and ?S' = "reached sample_cfg (?run @ [EHandle])"
  have "reach (\<lambda>_. True) sample_cfg ?S"
    by (rule reach_reached) (code_simp, simp add: ask_run_def)
  moreover have "runs sample_cfg (?run @ [EHandle])" by code_simp
  then have "step sample_cfg EHandle ?S = Inr (Some ?S')"
    using run_reached [of sample_cfg ?run "[EHandle]"]
    by (auto simp: bind_r_eq_Inr split: option.splits)
  ultimately have "dora\<^sup>*\<^sup>* (phases ?S) (phases ?S')" by (rule client_refines_dora)
  moreover have "phases ?S = [Waiting DHCPMsgTypeDiscover]" by code_simp
  moreover have "phases ?S' = [Answered DHCPMsgTypeOffer]" by code_simp
  ultimately show ?thesis by simp
qed

subsection \<open>A deadlock\<close>

lemma leases_unlock_all [simp]: "leases (unlock_all rs s) = leases s"
  by (induction rs arbitrary: s) (simp_all add: unlock_all_def)

lemma finish_simps [simp]:
  "leases (cs (finish i l s S)) = leases s" "rx (finish i l s S) = rx S"
  "j \<noteq> i \<Longrightarrow> procs (finish i l s S) ! j = procs S ! j"
  "length (procs (finish i l s S)) = length (procs S)"
  by (simp_all add: finish_def set_held_def set_pc_def)

lemma set_other [simp]:
  "j \<noteq> i \<Longrightarrow> procs (set_pc i c s S) ! j = procs S ! j"
  "j \<noteq> i \<Longrightarrow> procs (set_held i rs S) ! j = procs S ! j"
  "rx (set_pc i c s S) = rx S" "rx (set_held i rs S) = rx S" "rx (set_helper i c' s S) = rx S"
  "rx (spawn h S) = rx S"
  by (simp_all add: set_pc_def set_held_def set_helper_def spawn_def)

text \<open>Without the write lock of the store, a step of a call or a helper leaves the store alone.\<close>

definition untouched :: "nat \<Rightarrow> sys \<Rightarrow> sys \<Rightarrow> bool" where
  "untouched i S S' \<longleftrightarrow> leases (cs S') = leases (cs S) \<and> rx S' = rx S \<and>
     length (procs S) \<le> length (procs S') \<and>
     (\<forall>j < length (procs S). j \<noteq> i \<longrightarrow> pc (procs S' ! j) = pc (procs S ! j))"

lemma frozen_helper:
  assumes "\<not> store_free S" and "helper_step i ev S = Inr (Some S')"
  shows "untouched (length (procs S)) S S'"
  using assms
  by (cases "(i, hpc (helpers S ! i), ev, S)" rule: helper_act.cases)
    (auto simp: helper_step_def untouched_def helper_send_error_def helper_done_def alloc_def
      split: if_splits)

lemma frozen_look_again:
  assumes "sinv S" and "look_again i a S = Inr (Some S')"
  shows "untouched i S S'"
proof (cases a)
  case (LRenew r0 x)
  show ?thesis
    by (cases rule: renew_check_cases [OF sinvD(1) [OF assms(1)], of x])
      (use assms(2) LRenew in \<open>auto simp: look_again_def untouched_def split: if_splits\<close>)
next
  case (LDiscover x)
  show ?thesis
    by (cases rule: error_check_cases [OF sinvD(1) [OF assms(1)], of x "[DHCPMsgTypeOffer]"])
      (use assms(2) LDiscover in \<open>auto simp: look_again_def untouched_def\<close>)
next
  case (LRequest r0 x)
  show ?thesis
    by (cases rule: error_check_cases [OF sinvD(1) [OF assms(1)], of x "[DHCPMsgTypeAck, DHCPMsgTypeNak]"])
      (use assms(2) LRequest in \<open>auto simp: look_again_def untouched_def\<close>)
qed

lemma frozen_take_result:
  assumes "\<not> store_free S" and "take_result cfg i hid a S = Inr (Some S')"
  shows "untouched i S S'"
  using assms by (auto simp: take_result_def untouched_def bind_r_eq_Inr split: helper_pc.splits option.splits)

lemma frozen_proc:
  assumes inv: "sinv S" and free: "\<not> store_free S" and step: "proc_step cfg i ev S = Inr (Some S')"
  shows "untouched i S S' \<and> (\<forall>a r. pc (procs S ! i) \<noteq> PRemove a r)"
proof -
  have act: "proc_act cfg i (pc (procs S ! i)) ev S = Inr (Some S')"
    using step by (simp add: proc_step_def)
  show ?thesis
    using act free frozen_look_again [OF inv] frozen_take_result [OF free]
    by (cases "(cfg, i, pc (procs S ! i), ev, S)" rule: proc_act.cases)
      (auto simp: begin_discover_def begin_request_def begin_renew_def wait_timeout_def Let_def
        bind_r_eq_Inr split_beta untouched_def split: kind.splits)
qed

definition wedged :: "sys \<Rightarrow> nat \<Rightarrow> loop \<Rightarrow> nat \<Rightarrow> dhcp4 \<Rightarrow> bool" where
  "wedged S i a r d \<longleftrightarrow> i < length (procs S) \<and> pc (procs S ! i) = PRemove a r \<and> rx S = Some d \<and>
     (\<exists>it. store_lookup (leases (cs S)) (Xid d) = Some it \<and> item_lease it = r)"

lemma held_remove: "linv S \<Longrightarrow> i < length (procs S) \<Longrightarrow> pc (procs S ! i) = PRemove a r \<Longrightarrow>
    mux (heap_of (cs S) r)"
proof -
  assume inv: "linv S" and i: "i < length (procs S)" and c: "pc (procs S ! i) = PRemove a r"
  have "owns (procs S) i r"
    using linvD(2) [OF inv i] i c by (auto simp: owns_def held_ok_def split: kind.splits)
  then show ?thesis using inv by (auto simp: linv_def locks_def)
qed

lemma wedged_step:
  assumes s: "sinv S" and l: "linv S" and w: "wedged S i a r d"
    and step: "step cfg ev S = Inr (Some S')"
  shows "wedged S' i a r d \<and> leases (cs S') = leases (cs S)"
proof -
  have i: "i < length (procs S)" and c: "pc (procs S ! i) = PRemove a r" and rx: "rx S = Some d"
    using w by (simp_all add: wedged_def)
  obtain it where it: "store_lookup (leases (cs S)) (Xid d) = Some it" "item_lease it = r"
    using w by (auto simp: wedged_def)
  have mux: "mux (heap_of (cs S) r)" by (rule held_remove [OF l i c])
  then have free: "\<not> store_free S"
    using it rx by (simp add: store_free_def rx_blocked_def get_blocked_def)
  have via: ?thesis if "untouched k S S'" "k \<noteq> i" for k
    using that i c rx it by (auto simp: untouched_def wedged_def)
  show ?thesis
  proof (cases ev)
    case (EProc j e)
    then show ?thesis
      using frozen_proc [OF s free, of cfg j e S'] step c via [of j] by (cases "j = i") auto
  next
    case (EHelper j e)
    then show ?thesis
      using frozen_helper [OF free, of j e S'] step via [of "length (procs S)"] i by simp
  next
    case EHandle
    then show ?thesis
      using step rx response_locked [of "cs S" d it] it mux by simp
  next
    case (ECancel j)
    have "pc ((procs S)[j := (procs S ! j)\<lparr>cancelled := True\<rparr>] ! i) = pc (procs S ! i)"
      using i by (cases "i = j") simp_all
    then show ?thesis using ECancel step i c rx it by (auto simp: wedged_def)
  qed (use step i c rx it free in \<open>auto simp: wedged_def nth_append Let_def split: option.splits\<close>)
qed

text \<open>
  C10. A deadlock. When a call has found its transaction answered after a pause, it holds the
  lease and goes for the write lock of the store to remove the entry. If a second answer to the
  same transaction is taken by the receive loop at that moment, the loop holds the read lock and
  waits for the lease. From then on nothing ends it, neither time nor cancellation: the call
  never returns, the answer is never handled, and no entry of the store is ever added,
  removed or cleaned.
\<close>

theorem duplicate_answer_deadlock:
  assumes "reach A cfg S" and "wedged S i a r d" and "run cfg evs S = Inr (Some S')"
  shows "wedged S' i a r d \<and> \<not> finished (procs S' ! i) \<and> leases (cs S') = leases (cs S)"
proof -
  have "reach (\<lambda>_. True) cfg S"
    using assms(1) by (induction rule: reach.induct) (blast intro: reach.intros)+
  then have "wedged S' i a r d \<and> leases (cs S') = leases (cs S)"
    using assms(2,3)
  proof (induction evs arbitrary: S)
    case Nil
    then show ?case by simp
  next
    case (Cons ev evs)
    obtain S1 where S1: "step cfg ev S = Inr (Some S1)" "run cfg evs S1 = Inr (Some S')"
      using Cons.prems(3) by (auto simp: bind_r_eq_Inr split: option.splits)
    have "wedged S1 i a r d \<and> leases (cs S1) = leases (cs S)"
      by (rule wedged_step [OF reach_sinv [OF Cons.prems(1)] reach_linv [OF Cons.prems(1)]
          Cons.prems(2) S1(1)])
    then show ?case
      using Cons.IH [OF reach_step [OF Cons.prems(1) _ S1(1)] _ S1(2)] by simp
  qed
  then show ?thesis by (auto simp: wedged_def finished_def)
qed

theorem duplicate_answer_deadlock_witness:
  "wedged (reached sample_cfg (race_run @ [ETick (dur_of_secs 600), ECancel 0])) 0 (LDiscover 7) 0 offer1"
proof -
  let ?S = "reached sample_cfg race_run"
  have r: "reach (\<lambda>_. True) sample_cfg ?S"
    by (rule reach_reached) (code_simp, simp add: race_run_def ask_run_def)
  have "wedged ?S 0 (LDiscover 7) 0 offer1 = (0 < length (procs ?S) \<and>
      pc (procs ?S ! 0) = PRemove (LDiscover 7) 0 \<and> rx ?S = Some offer1 \<and>
      (case store_lookup (leases (cs ?S)) (Xid offer1) of Some it \<Rightarrow> item_lease it = 0 | None \<Rightarrow> False))"
    by (simp add: wedged_def split: option.split)
  also have "\<dots>" by code_simp
  finally have w: "wedged ?S 0 (LDiscover 7) 0 offer1" .
  have "runs sample_cfg (race_run @ [ETick (dur_of_secs 600), ECancel 0])" by code_simp
  from duplicate_answer_deadlock [OF r w run_reached [OF this]] show ?thesis by blast
qed

theorem lease_lock_discipline_witness:
  "\<exists>!i. i < length (procs (reached sample_cfg race_run)) \<and>
    0 \<in> set (held (procs (reached sample_cfg race_run) ! i))"
proof -
  let ?S = "reached sample_cfg race_run"
  have "reach (\<lambda>_. True) sample_cfg ?S"
    by (rule reach_reached) (code_simp, simp add: race_run_def ask_run_def)
  moreover have "mux (heap_of (cs ?S) 0)" by code_simp
  ultimately show ?thesis using lease_lock_discipline [of "\<lambda>_. True" sample_cfg ?S 0 0] by blast
qed

subsection \<open>Panics\<close>



text \<open>
  A \<open>Send\<close> that fails brings the program down. When the connection reports an error to the
  helper a call waits for, the call, receiving the lease that carries the error, dereferences
  its missing packet for a log message, before it asks for the lock of the store. The error never
  reaches the caller.
\<close>

theorem send_error_crashes_call:
  assumes "reach A cfg S" and "i < length (procs S)" and "awaited (pc (procs S ! i)) = Some hid"
    and "hpc (helpers S ! hid) = HSending r"
    and "step cfg (EHelper hid (HSendErr e)) S = Inr (Some S')"
  shows "step cfg (EProc i PRecv) S' = Inl NilDeref"
proof -
  have hid: "hid < length (helpers S)" and "helper_send_error hid r e S = Inr (Some S')"
    using assms(4,5) by (simp_all add: helper_step_def)
  then obtain s where S': "S' = set_helper hid (HDeliver (Some (nref s))) (snd (alloc (NewLeaseError e) s)) S"
    by (auto simp: helper_send_error_def bind_r_eq_Inr split_beta Let_def)
  have d: "DHCP4 (heap_of (cs S') (nref s)) = None" "hpc (helpers S' ! hid) = HDeliver (Some (nref s))"
    using hid by (simp_all add: S' set_helper_def)
  have "take_result cfg i hid a S' = Inl NilDeref" for a
    using d by (simp add: take_result_def)
  then show ?thesis
    using assms(2,3) by (cases "pc (procs S ! i)")
      (simp_all add: S' proc_step_def awaited_def guarded_def)
qed

theorem send_error_crashes_call_witness:
  "step sample_cfg (EProc 0 PRecv) (reached sample_cfg (ask_run @ [EHelper 0 (HSendErr ''down'')])) = Inl NilDeref"
proof -
  let ?S = "reached sample_cfg ask_run"
  have r: "reach (\<lambda>_. True) sample_cfg ?S"
    by (rule reach_reached) (code_simp, simp add: ask_run_def)
  have "0 < length (procs ?S)" "awaited (pc (procs ?S ! 0)) = Some 0" by code_simp+
  moreover have "hpc (helpers ?S ! 0) = HSending 0" by code_simp
  moreover have "runs sample_cfg (ask_run @ [EHelper 0 (HSendErr ''down'')])" by code_simp
  from run_reached [OF this]
  have "step sample_cfg (EHelper 0 (HSendErr ''down'')) ?S =
      Inr (Some (reached sample_cfg (ask_run @ [EHelper 0 (HSendErr ''down'')])))"
    by (auto simp: bind_r_eq_Inr split: option.splits)
  ultimately show ?thesis by (rule send_error_crashes_call [OF r])
qed

subsection \<open>What a call returns\<close>

definition result_shape :: "lease \<Rightarrow> bool" where
  "result_shape l \<longleftrightarrow> (\<exists>d t c. DHCP4 l = Some d \<and> GetMsgType d = Inr t \<and> Done l = Some c \<and>
     (closed c \<and> t = DHCPMsgTypeAck \<and> err l = None \<or>
      closed c \<and> t = DHCPMsgTypeNak \<and> err l \<noteq> None \<or>
      \<not> closed c \<and> t = DHCPMsgTypeRequest \<and> err l = None \<and> offers_nothing d))"

lemma req_lease_shape: "cinv s \<Longrightarrow> req_lease s r \<Longrightarrow> result_shape (heap_of s r)"
proof -
  assume inv: "cinv s" and r: "req_lease s r"
  obtain d where d: "DHCP4 (heap_of s r) = Some d"
    using base_lease_packet(2) [OF r] by blast
  have wf: "lease_wf (heap_of s r)" using inv r by (simp add: req_lease_def cinv_def)
  show ?thesis
    using r by (cases rule: lease_wf_cases [OF wf d])
      (auto simp: result_shape_def d req_lease_def req_like_def split: if_splits)
qed

lemma finished_call_shape:
  assumes "reach A cfg S" and "i < length (procs S)" and "pc (procs S ! i) = PDone (Some r)"
  shows "result_shape (heap_of (cs S) r)"
proof -
  have inv: "sinv S" by (rule reach_sinv [OF assms(1)])
  show ?thesis
    using req_lease_shape [OF sinvD(1) [OF inv]] sinvD(3) [OF inv assms(2)] assms(3) by simp
qed

text \<open>
  C6. The result of a finished call, when it is a lease, comes from a REQUEST: it is the ACK
  without an error, or the NAK with its error, or, when the cleaner woke the waiting call, the
  unanswered REQUEST itself, without an error, address or lifetime. Its \<open>Done\<close> channel tells
  which.
\<close>

theorem call_result:
  assumes "reach A cfg S" and "i < length (procs S)" and "pc (procs S ! i) = PDone (Some r)"
  shows "result_shape (heap_of (cs S) r)"
  using assms by (rule finished_call_shape)

theorem call_result_witness:
  "result_shape (heap_of (cs (reached sample_cfg lease_run)) 1)"
proof (rule call_result)
  show "reach (\<lambda>_. True) sample_cfg (reached sample_cfg lease_run)"
    by (rule reach_reached) (code_simp, simp add: lease_run_def ask_run_def)
  show "0 < length (procs (reached sample_cfg lease_run))" by code_simp
  show "pc (procs (reached sample_cfg lease_run) ! 0) = PDone (Some 1)" by code_simp
qed

subsection \<open>Cancellation\<close>

text \<open>
  The events by which a call whose context is done gets to its end from a point where it
  waits on no lock.
\<close>

fun way_out :: "nat \<Rightarrow> proc_pc \<Rightarrow> event list" where
  "way_out i PBegin = [EProc i (PGo 0 None 0), EProc i PTimeout, EProc i PCancelled]"
| "way_out i (PAsk r) = [EProc i PRun, EProc i PTimeout, EProc i PCancelled]"
| "way_out i (PPause a t) = [EProc i PCancelled]"
| "way_out i (PDone l) = []"
| "way_out i _ = [EProc i PTimeout, EProc i PCancelled]"

definition waits_lock :: "proc_pc \<Rightarrow> bool" where
  "waits_lock c \<longleftrightarrow> (case c of PGet a \<Rightarrow> True | PRemove a r \<Rightarrow> True | _ \<Rightarrow> False)"

lemma set_self [simp]:
  "i < length (procs S) \<Longrightarrow> procs (set_pc i c s S) ! i = (procs S ! i)\<lparr>pc := c\<rparr>"
  by (simp add: set_pc_def)

lemma finish_self [simp]:
  "i < length (procs S) \<Longrightarrow> pc (procs (finish i l s S) ! i) = PDone l"
  by (simp add: finish_def set_held_def)

lemma now_alloc [simp]: "now (snd (alloc l s)) = now s"
  by (simp add: alloc_def)

lemma ctx_done_pc [simp]: "ctx_done (p\<lparr>pc := c\<rparr>) t = ctx_done p t"
  by (simp add: ctx_done_def)

lemma leave_pause:
  assumes "i < length (procs S)" and "ctx_done (procs S ! i) (now (cs S))"
    and "pc (procs S ! i) = PPause a t"
  shows "run cfg [EProc i PCancelled] S = Inr (Some (finish i None (cs S) S))"
  using assms by (simp add: proc_step_def guarded_def)

lemma leave_wait:
  assumes i: "i < length (procs S)" and d: "ctx_done (procs S ! i) (now (cs S))"
    and c: "awaited (pc (procs S ! i)) = Some hid"
  shows "\<exists>S'. run cfg [EProc i PTimeout, EProc i PCancelled] S = Inr (Some S') \<and>
    pc (procs S' ! i) = PDone None"
proof -
  have "\<exists>a t. step cfg (EProc i PTimeout) S = Inr (Some (set_pc i (PPause a t) (cs S) S))"
    using i d c by (cases "pc (procs S ! i)")
      (simp_all add: awaited_def proc_step_def wait_timeout_def guarded_def, blast+)
  then obtain a t where st: "step cfg (EProc i PTimeout) S = Inr (Some (set_pc i (PPause a t) (cs S) S))"
    by blast
  let ?S = "set_pc i (PPause a t) (cs S) S"
  have "run cfg [EProc i PCancelled] ?S = Inr (Some (finish i None (cs ?S) ?S))"
    by (rule leave_pause) (use i d in simp_all)
  then show ?thesis using st i by simp
qed

lemma leave_begin:
  assumes i: "i < length (procs S)" and d: "ctx_done (procs S ! i) (now (cs S))" and s: "sinv S"
    and c: "pc (procs S ! i) = PBegin \<and> ev = PGo 0 None 0 \<or> pc (procs S ! i) = PAsk r \<and> ev = PRun"
  shows "\<exists>S' hid. step cfg (EProc i ev) S = Inr (Some S') \<and> i < length (procs S') \<and>
    ctx_done (procs S' ! i) (now (cs S')) \<and> awaited (pc (procs S' ! i)) = Some hid"
  using c
proof
  assume c: "pc (procs S ! i) = PBegin \<and> ev = PGo 0 None 0"
  show ?thesis
  proof (cases "pkind (procs S ! i)")
    case GetLease
    then show ?thesis
      using c i d by (simp add: proc_step_def guarded_def begin_discover_def Let_def awaited_def)
  next
    case (Renew a)
    obtain l pk where "renew_lease None 0 0 (phostname (procs S ! i)) (pchaddr (procs S ! i)) a = Inr l"
      "DHCP4 l = Some pk"
      using renew_lease_spec by blast
    then show ?thesis
      using c i d Renew
      by (simp add: proc_step_def guarded_def begin_renew_def Let_def awaited_def split_beta)
  qed
next
  assume c: "pc (procs S ! i) = PAsk r \<and> ev = PRun"
  then have "offline (cs S) r" using sinvD(3) [OF s i] by simp
  then obtain pk where "DHCP4 (heap_of (cs S) r) = Some pk"
    using base_lease_packet(1) offline_base by blast
  then show ?thesis
    using c i d by (simp add: proc_step_def guarded_def begin_request_def Let_def awaited_def)
qed




subsection \<open>Handling a packet\<close>

text \<open>
  C9. What the receive loop does with a packet that has a transaction id: nothing when no
  lease waits under the id or when the answer is of the wrong type for the question;
  otherwise the waiting lease, and nothing else in the whole program, is changed: it gets
  the packet, the time and, for a NAK, the error, and its \<open>Done\<close> channel is closed.
\<close>

theorem packet_handled:
  assumes "reach A cfg S" and "rx S = Some d" and "step cfg EHandle S = Inr (Some S')"
  shows "\<exists>s. S' = S\<lparr>cs := s, rx := None\<rparr> \<and>
    (case store_lookup (leases (cs S)) (Xid d) of
       None \<Rightarrow> s = cs S
     | Some it \<Rightarrow> \<exists>old new. lease_msg_type (heap_of (cs S) (item_lease it)) = Inr old \<and>
         GetMsgType d = Inr new \<and>
         s = (if answers old new
              then (cs S)\<lparr>heap_of := (heap_of (cs S))(item_lease it :=
                (heap_of (cs S) (item_lease it))
                  \<lparr>DHCP4 := Some d, Timestamp := now (cs S),
                   err := (if new = DHCPMsgTypeNak then Some (nak_error d) else None),
                   Done := Some (make_chan1\<lparr>closed := True\<rparr>)\<rparr>)\<rparr>
              else cs S))"
proof -
  note inv = sinvD(1) [OF reach_sinv [OF assms(1)]]
  obtain s where s: "processDHCPReponse d (cs S) = Inr (Some s)" "S' = S\<lparr>cs := s, rx := None\<rparr>"
    using assms(2,3) by (auto simp: bind_r_eq_Inr split: option.splits)
  show ?thesis
  proof (cases "store_lookup (leases (cs S)) (Xid d)")
    case None
    then show ?thesis using s by (auto simp: response_unknown)
  next
    case (Some it)
    let ?l = "heap_of (cs S) (item_lease it)"
    have mux: "\<not> mux ?l" using s(1) response_locked [OF Some] by auto
    obtain old where old: "lease_msg_type ?l = Inr old"
      using cinv_entry(6) [OF inv Some] by blast
    obtain new where new: "GetMsgType d = Inr new"
      and s': "s = (if answers old new then upd_lease (item_lease it) (answered (now (cs S)) d new) (cs S) else cs S)"
      using s(1) by (auto simp: response_known [OF inv Some mux old] bind_r_eq_Inr)
    have "answered (now (cs S)) d new ?l = ?l\<lparr>DHCP4 := Some d, Timestamp := now (cs S),
        err := (if new = DHCPMsgTypeNak then Some (nak_error d) else None),
        Done := Some (make_chan1\<lparr>closed := True\<rparr>)\<rparr>" if a: "answers old new"
    proof -
      obtain c where "Done ?l = Some c" "\<not> closed c" "err ?l = None"
        using awaiting_open [OF cinv_entry(3,4) [OF inv Some] old a] .
      moreover then have "buffered c = 0"
        using cinv_entry(5) [OF inv Some] by (auto simp: slot_ok_def)
      ultimately show ?thesis
        by (cases ?l) (simp add: answered_def accept_response_def lease_touch_def SetError_def make_chan1_def)
    qed
    then show ?thesis
      using s(2) Some old new s' by (auto simp: upd_lease_def)
  qed
qed

definition offered_run :: "event list" where
  "offered_run = ask_run @ [EHelper 0 HSendOk, EPacket offer1]"

theorem packet_handled_witness:
  "\<exists>s. reached sample_cfg (offered_run @ [EHandle]) = (reached sample_cfg offered_run)\<lparr>cs := s, rx := None\<rparr> \<and>
     DHCP4 (heap_of s 0) = Some offer1"
proof -
  let ?S = "reached sample_cfg offered_run"
  have r: "reach (\<lambda>_. True) sample_cfg ?S"
    by (rule reach_reached) (code_simp, simp add: offered_run_def ask_run_def)
  have rx: "rx ?S = Some offer1" by code_simp
  have "runs sample_cfg (offered_run @ [EHandle])" by code_simp
  from run_reached [OF this]
  have "step sample_cfg EHandle ?S = Inr (Some (reached sample_cfg (offered_run @ [EHandle])))"
    by (auto simp: bind_r_eq_Inr split: option.splits)
  from packet_handled [OF r rx this]
  obtain s where "reached sample_cfg (offered_run @ [EHandle]) = ?S\<lparr>cs := s, rx := None\<rparr>" by blast
  moreover have "DHCP4 (heap_of (cs (reached sample_cfg (offered_run @ [EHandle]))) 0) = Some offer1"
    by code_simp
  ultimately show ?thesis by auto
qed

subsection \<open>Renew blocks the client\<close>

text \<open>A lease in the hands of a call that has not ended, and a packet for it in the receive loop.\<close>

definition stalled :: "sys \<Rightarrow> nat \<Rightarrow> nat \<Rightarrow> dhcp4 \<Rightarrow> bool" where
  "stalled S i r d \<longleftrightarrow> owns (procs S) i r \<and> rx S = Some d \<and>
     (\<exists>it. store_lookup (leases (cs S)) (Xid d) = Some it \<and> item_lease it = r)"

definition keeps_held :: "sys \<Rightarrow> sys \<Rightarrow> bool" where
  "keeps_held S S' \<longleftrightarrow> (\<forall>j < length (procs S). j < length (procs S') \<and>
     (set (held (procs S ! j)) \<subseteq> set (held (procs S' ! j)) \<or> finished (procs S' ! j)))"

lemma finished_ends: "finished p \<Longrightarrow> \<exists>l. pc p = PDone l"
  by (auto simp: finished_def split: proc_pc.splits)

lemma keeps_held_same:
  "length (procs S) \<le> length (procs S') \<Longrightarrow>
     (\<And>j. j < length (procs S) \<Longrightarrow> held (procs S' ! j) = held (procs S ! j)) \<Longrightarrow> keeps_held S S'"
  by (auto simp: keeps_held_def)

lemma held_set [simp]:
  "held (procs (set_pc i c s S) ! j) = held (procs S ! j)"
  by (cases "i < length (procs S)"; cases "i = j") (auto simp: set_pc_def list_update_beyond)

lemma keeps_held_finish:
  "i < length (procs S) \<Longrightarrow> keeps_held S (finish i l s S)"
  unfolding keeps_held_def
  by (auto simp: finished_def finish_def set_held_def set_pc_def nth_list_update)

lemma keeps_held_take:
  "i < length (procs S) \<Longrightarrow> keeps_held S (set_held i (r # held (procs S ! i)) (set_pc i c s S))"
  by (auto simp: keeps_held_def set_held_def set_pc_def nth_list_update)

lemma keeps_held_proc:
  assumes inv: "sinv S" and free: "\<not> store_free S" and step: "proc_step cfg i ev S = Inr (Some S')"
  shows "keeps_held S S'"
proof -
  have i: "i < length (procs S)" and act: "proc_act cfg i (pc (procs S ! i)) ev S = Inr (Some S')"
    using step by (simp_all add: proc_step_def)
  have pc: "keeps_held S (set_pc i c s S)" "keeps_held S (spawn h (set_pc i c s S))"
    "keeps_held S (set_pc i c s (set_helper k c' s' S))" for c s h k c' s'
    by (rule keeps_held_same; simp)+
  have look: "keeps_held S S'" if "look_again i a S = Inr (Some S')" for a
  proof (cases a)
    case (LRenew r0 x)
    show ?thesis
      by (cases rule: renew_check_cases [OF sinvD(1) [OF inv], of x])
        (use that LRenew i in \<open>auto simp: look_again_def pc keeps_held_take split: if_splits\<close>)
  next
    case (LDiscover x)
    show ?thesis
      by (cases rule: error_check_cases [OF sinvD(1) [OF inv], of x "[DHCPMsgTypeOffer]"])
        (use that LDiscover i in \<open>auto simp: look_again_def pc keeps_held_take\<close>)
  next
    case (LRequest r0 x)
    show ?thesis
      by (cases rule: error_check_cases [OF sinvD(1) [OF inv], of x "[DHCPMsgTypeAck, DHCPMsgTypeNak]"])
        (use that LRequest i in \<open>auto simp: look_again_def pc keeps_held_take\<close>)
  qed
  have recv: "keeps_held S S'" if "take_result cfg i hid a S = Inr (Some S')" for hid a
    using that free by (auto simp: take_result_def pc bind_r_eq_Inr split: helper_pc.splits option.splits)
  show ?thesis
    using act free look recv keeps_held_finish [OF i]
    by (cases "(cfg, i, pc (procs S ! i), ev, S)" rule: proc_act.cases)
      (auto simp: begin_discover_def begin_request_def begin_renew_def wait_timeout_def Let_def
        bind_r_eq_Inr split_beta pc split: kind.splits)
qed

lemma stalled_step:
  assumes s: "sinv S" and l: "linv S" and w: "stalled S i r d"
    and step: "step cfg ev S = Inr (Some S')"
  shows "(finished (procs S' ! i) \<or> stalled S' i r d) \<and> rx S' = Some d \<and>
    leases (cs S') = leases (cs S) \<and> i < length (procs S')"
proof -
  have i: "i < length (procs S)" and rx: "rx S = Some d" and h: "r \<in> set (held (procs S ! i))"
    using w by (simp_all add: stalled_def owns_def)
  obtain it where it: "store_lookup (leases (cs S)) (Xid d) = Some it" "item_lease it = r"
    using w by (auto simp: stalled_def)
  have mux: "mux (heap_of (cs S) r)"
    using l w by (auto simp: linv_def locks_def stalled_def)
  then have free: "\<not> store_free S"
    using it rx by (simp add: store_free_def rx_blocked_def get_blocked_def)
  have via: ?thesis if "keeps_held S S'" "rx S' = rx S" "leases (cs S') = leases (cs S)"
  proof -
    have "i < length (procs S')" "r \<in> set (held (procs S' ! i)) \<or> finished (procs S' ! i)"
      using that(1) i h by (auto simp: keeps_held_def)
    then show ?thesis using that(2,3) rx it by (auto simp: stalled_def owns_def)
  qed
  show ?thesis
  proof (cases ev)
    case (EProc j e)
    then show ?thesis
      using frozen_proc [OF s free, of cfg j e S'] keeps_held_proc [OF s free, of cfg j e S'] step via
      by (auto simp: untouched_def)
  next
    case (EHelper j e)
    then have u: "untouched (length (procs S)) S S'"
      using frozen_helper [OF free, of j e S'] step by simp
    have "procs S' = procs S"
      using step EHelper
      by (cases "(j, hpc (helpers S ! j), e, S)" rule: helper_act.cases)
        (auto simp: helper_step_def helper_start_def helper_send_error_def helper_done_def
          bind_r_eq_Inr split_beta Let_def)
    then show ?thesis using u via by (auto simp: untouched_def keeps_held_same)
  next
    case EHandle
    then show ?thesis
      using step rx response_locked [of "cs S" d it] it mux by simp
  next
    case (ECancel j)
    have "keeps_held S S'"
      using ECancel step by (cases "j < length (procs S)")
        (auto simp: keeps_held_def nth_list_update list_update_beyond)
    then show ?thesis using ECancel step via by auto
  next
    case (ECall k hn ch t)
    have "keeps_held S S'" using ECall step by (auto simp: keeps_held_def nth_append)
    then show ?thesis using ECall step via by auto
  qed (use step rx free via in \<open>auto simp: keeps_held_same Let_def split: option.splits\<close>)
qed

lemma after_discover_other [simp]:
  "j \<noteq> i \<Longrightarrow> procs (after_discover i r s S) ! j = procs S ! j"
  "length (procs (after_discover i r s S)) = length (procs S)"
  by (simp_all add: after_discover_def)

lemma proc_step_other:
  assumes "proc_step cfg i ev S = Inr (Some S')"
  shows "length (procs S') = length (procs S) \<and> (\<forall>j. j \<noteq> i \<longrightarrow> procs S' ! j = procs S ! j) \<and>
    \<not> finished (procs S ! i)"
proof -
  have act: "proc_act cfg i (pc (procs S ! i)) ev S = Inr (Some S')"
    using assms by (simp add: proc_step_def)
  have look: "length (procs S') = length (procs S) \<and> (\<forall>j. j \<noteq> i \<longrightarrow> procs S' ! j = procs S ! j)"
    if "look_again i a S = Inr (Some S')" for a
    using that by (auto simp: look_again_def bind_r_def split: loop.splits sum.splits option.splits prod.splits)
  have recv: "length (procs S') = length (procs S) \<and> (\<forall>j. j \<noteq> i \<longrightarrow> procs S' ! j = procs S ! j)"
    if "take_result cfg i hid a S = Inr (Some S')" for hid a
    using that by (cases a) (auto simp: take_result_def bind_r_eq_Inr Let_def split: option.splits helper_pc.splits)
  have found: "length (procs S') = length (procs S) \<and> (\<forall>j. j \<noteq> i \<longrightarrow> procs S' ! j = procs S ! j)"
    if "take_found i a r S = Inr (Some S')" for a r
    using that by (auto simp: take_found_def bind_r_eq_Inr split: loop.splits)
  show ?thesis
    using act look recv found
    by (cases "(cfg, i, pc (procs S ! i), ev, S)" rule: proc_act.cases)
      (auto simp: begin_discover_def begin_request_def begin_renew_def wait_timeout_def Let_def
        bind_r_eq_Inr split_beta finished_def split: kind.splits)
qed

lemma helper_step_other: "helper_step i ev S = Inr (Some S') \<Longrightarrow> procs S' = procs S"
  by (cases "(i, hpc (helpers S ! i), ev, S)" rule: helper_act.cases)
    (auto simp: helper_step_def helper_start_def helper_send_error_def helper_done_def
      bind_r_eq_Inr split_beta Let_def)

lemma finished_stays:
  assumes "step cfg ev S = Inr (Some S')" and "i < length (procs S)" and "finished (procs S ! i)"
  shows "i < length (procs S') \<and> finished (procs S' ! i)"
proof (cases ev)
  case (EProc j e)
  then show ?thesis using proc_step_other [of cfg j e S S'] assms by (cases "j = i") auto
next
  case (EHelper j e)
  then show ?thesis using helper_step_other assms by auto
next
  case (ECancel j)
  then show ?thesis using assms by (cases "i = j") (auto simp: finished_def)
next
  case (ECall k hn ch t)
  then show ?thesis using assms by (auto simp: nth_append)
qed (use assms in \<open>auto simp: bind_r_eq_Inr Let_def split: option.splits\<close>)

lemma run_finished:
  "run cfg evs S = Inr (Some S') \<Longrightarrow> i < length (procs S) \<Longrightarrow> finished (procs S ! i) \<Longrightarrow>
     finished (procs S' ! i)"
proof (induction evs arbitrary: S)
  case (Cons ev evs)
  obtain S1 where S1: "step cfg ev S = Inr (Some S1)" "run cfg evs S1 = Inr (Some S')"
    using Cons.prems(1) by (auto simp: bind_r_eq_Inr split: option.splits)
  then show ?case using finished_stays [OF S1(1) Cons.prems(2,3)] Cons.IH by blast
qed simp

text \<open>
  C15. \<open>Renew\<close> can block the whole client. It keeps the lock of every transaction it has looked
  up in vain until it returns. If the answer to one of them comes late, the receive loop waits
  for that lock, holding the read lock of the store. As long as the call has not returned, no
  packet is handled and no call, this one included, can enter or remove a transaction.
\<close>

theorem renew_blocks_client:
  assumes "reach A cfg S" and "stalled S i r d" and "run cfg evs S = Inr (Some S')"
    and "\<not> finished (procs S' ! i)"
  shows "rx S' = Some d \<and> leases (cs S') = leases (cs S)"
proof -
  have r: "reach (\<lambda>_. True) cfg S"
    using assms(1) by (induction rule: reach.induct) (blast intro: reach.intros)+
  have "i < length (procs S)" using assms(2) by (simp add: stalled_def owns_def)
  moreover have "stalled S i r d \<or> finished (procs S ! i)" using assms(2) by simp
  ultimately have "finished (procs S' ! i) \<or>
      rx S' = Some d \<and> leases (cs S') = leases (cs S)"
    using assms(3) r
  proof (induction evs arbitrary: S)
    case Nil
    then show ?case by (auto simp: stalled_def)
  next
    case (Cons ev evs)
    obtain S1 where S1: "step cfg ev S = Inr (Some S1)" "run cfg evs S1 = Inr (Some S')"
      using Cons.prems(3) by (auto simp: bind_r_eq_Inr split: option.splits)
    have r1: "reach (\<lambda>_. True) cfg S1" by (rule reach_step [OF Cons.prems(4) _ S1(1)]) simp
    show ?case
    proof (cases "finished (procs S ! i)")
      case True
      have *: "i < length (procs S1)" "finished (procs S1 ! i)"
        using finished_stays [OF S1(1) Cons.prems(1) True] by simp_all
      have "finished (procs S' ! i)"
        using S1(2) * by (rule run_finished)
      then show ?thesis ..
    next
      case False
      have "(finished (procs S1 ! i) \<or> stalled S1 i r d) \<and> rx S1 = Some d \<and>
          leases (cs S1) = leases (cs S) \<and> i < length (procs S1)"
        using stalled_step [OF reach_sinv [OF Cons.prems(4)] reach_linv [OF Cons.prems(4)] _ S1(1)]
          Cons.prems(2) False by blast
      then show ?thesis using Cons.IH [of S1] S1(2) r1 by auto
    qed
  qed
  then show ?thesis using assms(4) by blast
qed

definition renew_run :: "event list" where
  "renew_run = [ECall (Renew (Some [192, 168, 1, 20])) ''pc'' mac1 None, EProc 0 (PGo 7 None 1),
     EHelper 0 (HGo None 1), EHelper 0 HSendOk, ETick (dur_of_secs 30), EProc 0 PTimeout,
     ETick (dur_of_secs 5), EProc 0 PTimer, EProc 0 PRun, EPacket ack1]"

theorem renew_blocks_client_witness:
  "rx (reached sample_cfg (renew_run @ [EProc 0 (PGo 8 None 1), ETick (dur_of_secs 600)])) = Some ack1"
proof -
  let ?S = "reached sample_cfg renew_run"
  let ?more = "[EProc 0 (PGo 8 None 1), ETick (dur_of_secs 600)]"
  have r: "reach (\<lambda>_. True) sample_cfg ?S"
    by (rule reach_reached) (code_simp, simp add: renew_run_def)
  have "(case store_lookup (leases (cs ?S)) (Xid ack1) of Some it \<Rightarrow> item_lease it = 1 | None \<Rightarrow> False)"
    by code_simp
  moreover have "owns (procs ?S) 0 1" "rx ?S = Some ack1" by code_simp+
  ultimately have w: "stalled ?S 0 1 ack1" by (simp add: stalled_def split: option.splits)
  have "runs sample_cfg (renew_run @ ?more)" by code_simp
  note run = run_reached [OF this]
  have "\<not> finished (procs (reached sample_cfg (renew_run @ ?more)) ! 0)" by code_simp
  from renew_blocks_client [OF r w run this] show ?thesis by blast
qed



subsection \<open>Types of leases\<close>

text \<open>C3. Every lease there is, in whatever state the goroutines are, has one of three shapes: the
  carrier of an error, without packet and channel; waiting, with an open channel, a packet that is a
  DISCOVER or a REQUEST and no error; or answered, with a closed channel, and an error exactly when the
  packet is a NAK. Every entry of the store refers to such a lease, under the transaction id of
  its packet.\<close>

theorem leases_typed:
  assumes "reach A cfg S"
  shows "(\<forall>r < nref (cs S). lease_wf (heap_of (cs S) r)) \<and>
    (\<forall>k it. store_lookup (leases (cs S)) k = Some it \<longrightarrow>
      item_lease it < nref (cs S) \<and> entry_ok (heap_of (cs S)) k it)"
proof -
  have inv: "cinv (cs S)" by (rule sinvD(1) [OF reach_sinv [OF assms]])
  then show ?thesis
    using cinv_wf [OF inv] store_invD [OF cinv_store [OF inv]] refsI by (auto simp: cinv_def)
qed

theorem leases_typed_witness:
  "lease_wf (heap_of (cs (reached sample_cfg ask_run)) 0) \<and>
    lease_msg_type (heap_of (cs (reached sample_cfg ask_run)) 0) = Inr DHCPMsgTypeDiscover"
proof -
  let ?S = "reached sample_cfg ask_run"
  have r: "reach (\<lambda>_. True) sample_cfg ?S"
    by (rule reach_reached) (code_simp, simp add: ask_run_def)
  have "0 < nref (cs ?S)" by code_simp
  moreover have "lease_msg_type (heap_of (cs ?S) 0) = Inr DHCPMsgTypeDiscover" by code_simp
  ultimately show ?thesis using leases_typed [OF r] by blast
qed

end
