(* ===== verification/Rest_System.thy ===== *)
theory Rest_System
  imports Rest_Routes Client_Runs
begin

text \<open>
  The three parts together: what a caller of the client library gets for a call of the DHCP client
  that ended in any interleaving of \<open>Client_System\<close>, and that a renewal or a release reaches the
  DHCP client as it was asked for.
\<close>

subsection \<open>What the caller reads\<close>

definition lease_read ::
  "encoder \<Rightarrow> decoder \<Rightarrow> (string \<Rightarrow> client_error) \<Rightarrow> string \<Rightarrow> rest_lease \<Rightarrow> client_error + rest_lease" where
  "lease_read enc dec er t v = (case enc t v of
       Inl e \<Rightarrow> Inl (er ''unexpected content type'')
     | Inr data \<Rightarrow> (case dec t (if t = YAML then data else data @ [CHR 10]) of
           Inl e \<Rightarrow> Inl (er e)
         | Inr w \<Rightarrow> Inr w))"

definition reply ::
  "encoder \<Rightarrow> decoder \<Rightarrow> (string \<Rightarrow> client_error) \<Rightarrow> string \<Rightarrow> string \<Rightarrow> string \<Rightarrow> lease option \<Rightarrow>
   client_error + rest_lease" where
  "reply enc dec er lost t h res = (case res of
       None \<Rightarrow> Inl (NewError 408 ''Request Timeout'')
     | Some l \<Rightarrow> (case err l of
           Some e \<Rightarrow> Inl (NewError 406 e)
         | None \<Rightarrow> (case rest_NewLease h l of
               Inl p \<Rightarrow> Inl (NewError (-1) lost)
             | Inr v \<Rightarrow> lease_read enc dec er t v)))"

definition read_answer ::
  "decoder \<Rightarrow> (string \<Rightarrow> client_error) \<Rightarrow> (client_error + string \<times> string) \<Rightarrow> client_error + rest_lease" where
  "read_answer dec er res = (case res of
       Inl e \<Rightarrow> Inl e
     | Inr (data, mime) \<Rightarrow> (case rest_unmarshal dec data mime of
           Inl e \<Rightarrow> Inl (er e)
         | Inr v \<Rightarrow> Inr v))"

lemma spoken_cases: "t \<in> set spoken \<Longrightarrow> t = JSON \<or> t = XML \<or> t = YAML"
  by (auto simp: spoken_def)

lemma response_of_result:
  assumes "\<And>l. lo = Some l \<Longrightarrow> result_shape l"
  shows "rest_response enc (Some t) q lo = (case lo of
       None \<Rightarrow> Inr (http_Error ''Request Timeout'' 408)
     | Some l \<Rightarrow> (case err l of
           Some e \<Rightarrow> Inr (http_Error e 406)
         | None \<Rightarrow> (case rest_NewLease (q_hostname q) l of
               Inl p \<Rightarrow> Inl p
             | Inr v \<Rightarrow> Inr (rest_write enc v t))))"
proof (cases lo)
  case (Some l)
  then obtain d ty where "DHCP4 l = Some d" "GetMsgType d = Inr ty"
      "err l \<noteq> None \<longrightarrow> ty = DHCPMsgTypeNak"
    using assms by (auto simp: result_shape_def)
  then show ?thesis
    by (auto simp: Some rest_response_def lease_msg_type_def content_of_def bind_r_def split: option.split sum.split)
qed (simp add: rest_response_def)

lemma call_error:
  assumes "net m u (contentType c) = Response (http_Error e code)" and "code \<noteq> 200"
  shows "rest_call net c m u = Inr (Inl (NewError (int code) e))"
  using assms by (simp add: rest_call_def)

lemma write_spoken:
  assumes "t \<in> set spoken"
  shows "rest_write enc v t = (case enc t v of
       Inl e \<Rightarrow> nothing_written
     | Inr data \<Rightarrow> \<lparr>status = 200, ctype = t, body = (if t = YAML then data else data @ [CHR 10])\<rparr>)"
  using spoken_cases [OF assms] by (auto simp: rest_write_def split: sum.split)

lemma unmarshal_spoken: "t \<in> set spoken \<Longrightarrow> rest_unmarshal dec data t = dec t data"
  using spoken_cases by (auto simp: rest_unmarshal_def)

lemma call_written:
  assumes "net m u (contentType c) = Response (rest_write enc v t)" and t: "t \<in> set spoken"
  shows "\<exists>res. rest_call net c m u = Inr res \<and> read_answer dec er res = lease_read enc dec er t v"
proof (cases "enc t v")
  case (Inl e)
  have "content_parse [] = Unknown" by (simp add: content_parse_def)
  then show ?thesis
    by (simp add: rest_call_def assms(1) write_spoken [OF t] Inl nothing_written_def read_answer_def
        lease_read_def rest_unmarshal_def)
next
  case (Inr data)
  show ?thesis
    by (simp add: rest_call_def assms(1) write_spoken [OF t] Inr read_answer_def lease_read_def
        unmarshal_spoken [OF t] content_parse_spoken [OF t])
qed

lemma delivered:
  "delivers lost net route cl enc c \<Longrightarrow> net m (url c @ p) (contentType c) =
    (case serve route cl enc m p (contentType c) of Inl panic \<Rightarrow> Failed lost | Inr r \<Rightarrow> Response r)"
  by (simp add: delivers_def)

lemma call_reply:
  assumes net: "delivers lost net route cl enc c" and t: "contentType c \<in> set spoken"
    and srv: "serve route cl enc m p (contentType c) = rest_response enc (Some (contentType c)) q lo"
    and shape: "\<And>l. lo = Some l \<Longrightarrow> result_shape l"
  shows "\<exists>res. rest_call net c m (url c @ p) = Inr res \<and>
    read_answer dec er res = reply enc dec er lost (contentType c) (q_hostname q) lo"
proof -
  have "rest_response enc (Some (contentType c)) q lo = (case lo of
       None \<Rightarrow> Inr (http_Error ''Request Timeout'' 408)
     | Some l \<Rightarrow> (case err l of
           Some e \<Rightarrow> Inr (http_Error e 406)
         | None \<Rightarrow> (case rest_NewLease (q_hostname q) l of
               Inl p \<Rightarrow> Inl p
             | Inr v \<Rightarrow> Inr (rest_write enc v (contentType c)))))"
    by (rule response_of_result) (rule shape)
  note net = delivered [OF net, of m p, unfolded srv this]
  show ?thesis
  proof (cases lo)
    case None
    then show ?thesis
      using call_error [of net m _ c] net by (simp add: reply_def read_answer_def)
  next
    case l: (Some l)
    show ?thesis
    proof (cases "err l")
      case (Some e)
      then show ?thesis
        using call_error [of net m _ c] net by (simp add: l reply_def read_answer_def)
    next
      case None
      then show ?thesis
        using call_written [OF _ t, of net m "url c @ p" c enc _ dec er] net
        by (cases "rest_NewLease (q_hostname q) l")
          (auto simp: l reply_def read_answer_def rest_call_def)
    qed
  qed
qed

lemma rest_Lease_eq:
  assumes "h \<noteq> []"
  shows "rest_Lease net dec c h m = bind_r (rest_call net c ''GET'' (url c @ lease_path h m))
    (\<lambda>res. Inr (read_answer dec (NewError (-2)) res))"
  using assms
  by (cases m) (simp_all add: rest_Lease_def lease_path_def read_answer_def mac_text_def slice_bytes_def)

lemma v4_to4: "length a = 4 \<Longrightarrow> ip_string (Some a) = v4_string a"
  by (auto simp: ip_string_def slice_bytes_def to4_v4)

lemma rest_Renew_eq:
  assumes "h \<noteq> []" and "to4 ip = Some a"
  shows "rest_Renew net dec c h (Some m) ip =
    bind_r (rest_call net c ''GET'' (url c @ full_path h m a)) (\<lambda>res. Inr (read_answer dec OtherError res))"
  using assms to4_Some [OF assms(2)]
  by (cases ip) (auto simp: rest_Renew_def full_path_def read_answer_def mac_text_def slice_bytes_def v4_to4)

lemma rest_Release_eq:
  assumes "h \<noteq> []" and "length a = 4"
  shows "rest_Release net c h (Some m) (Some a) =
    bind_r (rest_call net c ''DELETE'' (url c @ full_path h m a))
      (\<lambda>res. Inr (case res of Inl e \<Rightarrow> Some e | Inr _ \<Rightarrow> None))"
  using assms by (auto simp: rest_Release_def full_path_def mac_text_def slice_bytes_def v4_to4)

subsection \<open>Samples\<close>

definition sample_enc :: encoder where
  "sample_enc t v = Inr ''lease''"

definition sample_dec :: decoder where
  "sample_dec t s = (if s = ''lease'' @ [CHR 10]
     then Inr \<lparr>l_hostname = ''pc'', l_mac = mac1, l_ip = Some [192, 168, 1, 20], l_mask = None,
       l_dns = None, l_router = None, l_renew = 0, l_rebind = 0, l_expire = 0\<rparr>
     else Inl ''no lease'')"

definition sample_ack :: lease where
  "sample_ack = \<lparr>DHCP4 = Some ack1, Timestamp = 0, Hostname = [], Done = Some (make_chan1\<lparr>closed := True\<rparr>),
     err = None, mux = False\<rparr>"

definition sample_calls :: "lease \<Rightarrow> dhcp_calls" where
  "sample_calls l = \<lparr>ask_lease = (\<lambda>h m. Some l), ask_renew = (\<lambda>h m a. Some l),
     ask_release = (\<lambda>h m a. Some ''lost'')\<rparr>"

lemma lease_run_reached: "reach (\<lambda>_. True) sample_cfg (reached sample_cfg lease_run)"
  by (rule reach_reached) (code_simp, simp add: lease_run_def ask_run_def)

lemma lease_run_done:
  "0 < length (procs (reached sample_cfg lease_run))"
  "pc (procs (reached sample_cfg lease_run) ! 0) = PDone (Some 1)"
  by code_simp+

lemma sample_call_sound: "sound_call ''pc'' mac1 None"
  by code_simp

text \<open>A client that waits longer for an answer than the store keeps its entries: the cleaner wakes
  the waiting request.\<close>

definition patient_cfg :: config where
  "patient_cfg = \<lparr>timeout = dur_of_secs 90, retry = dur_of_secs 5\<rparr>"

definition cleaned_run :: "event list" where
  "cleaned_run = ask_run @
     [EHelper 0 HSendOk, EPacket offer1, EHandle, EHelper 0 HDoneReady, EProc 0 PRecv,
      EProc 0 PRun, EHelper 1 (HGo None 1), EHelper 1 HSendOk, ETick (dur_of_secs 61), EScan, ESweep,
      EHelper 1 HDoneReady, EProc 0 PRecv]"

lemma cleaned_run_open:
  "map_option closed (Done (heap_of (cs (reached patient_cfg cleaned_run)) 1)) = Some False"
  by code_simp

subsection \<open>The lease of a finished call\<close>

text \<open>C5. What the library returns for a lease request, on every outcome of the DHCP call behind it
  and in every interleaving: error 408 when the call ended without a lease, 406 with the text
  of a refusal, the transport's error when the answer has a malformed lifetime (the handler
  panics), and otherwise what the decoder makes of exactly the bytes the encoder of the content
  type that was asked for made of the lease. No other status occurs, and the library does not
  panic.\<close>

theorem rest_lease_of_call:
  assumes "reach A cfg S" and "i < length (procs S)" and "pc (procs S ! i) = PDone res"
    and "ask_lease cl h m = map_option (heap_of (cs S)) res"
    and "mux_contract route" and "delivers lost net route cl enc c"
    and "sound_call h m None" and "contentType c \<in> set spoken"
  shows "rest_Lease net dec c h m =
    Inr (reply enc dec (NewError (-2)) lost (contentType c) h (map_option (heap_of (cs S)) res))"
proof -
  have shape: "result_shape l" if "map_option (heap_of (cs S)) res = Some l" for l
    using that finished_call_shape [OF assms(1,2)] assms(3) by auto
  have h: "h \<noteq> []" using assms(7) valid_hostname_segment(2) by (auto simp: sound_call_iff)
  have srv: "serve route cl enc ''GET'' (lease_path h m) (contentType c) =
      rest_response enc (Some (contentType c)) (the_query h m None) (map_option (heap_of (cs S)) res)"
    using lease_served [OF assms(5,7,8)] assms(4) by simp
  show ?thesis
    using call_reply [OF assms(6,8) srv shape, of dec "NewError (-2)"]
    by (auto simp: rest_Lease_eq [OF h])
qed

theorem rest_lease_of_call_witness:
  "rest_Lease (sample_net (sample_calls (heap_of (cs (reached sample_cfg lease_run)) 1)) sample_enc ''http://h'')
      sample_dec (rest_NewClient ''http://h'') ''pc'' mac1 =
    Inr (reply sample_enc sample_dec (NewError (-2)) ''EOF'' JSON ''pc''
      (map_option (heap_of (cs (reached sample_cfg lease_run))) (Some 1)))"
proof -
  let ?c = "rest_NewClient ''http://h''"
  have c: "contentType ?c = JSON" "url ?c = ''http://h''" by (simp_all add: rest_NewClient_def)
  have "contentType ?c \<in> set spoken" by (simp add: c spoken_def)
  from rest_lease_of_call [OF lease_run_reached lease_run_done(1,2) _ sample_contract sample_delivers [OF c(2)]
      sample_call_sound this, of "sample_calls (heap_of (cs (reached sample_cfg lease_run)) 1)" sample_enc sample_dec]
  show ?thesis by (simp add: sample_calls_def c)
qed

text \<open>C17. A renewal and a release arrive as they were asked for: the DHCP client gets the host name,
  the hardware address and the IPv4 address the caller of the library gave, the address in its
  16-byte form, whichever form the caller used; and the library returns what the DHCP client
  said, an error with code 400 and exactly its text.\<close>

theorem renew_release_arrive:
  assumes "mux_contract route" and "delivers lost net route cl enc c"
    and "sound_call h (Some m) (Some a)" and "contentType c \<in> set spoken"
    and "\<And>l. ask_renew cl h (Some m) (Some (v4_prefix @ a)) = Some l \<Longrightarrow> result_shape l"
  shows "rest_Renew net dec c h (Some m) (Some a) =
      Inr (reply enc dec OtherError lost (contentType c) h (ask_renew cl h (Some m) (Some (v4_prefix @ a)))) \<and>
    rest_Renew net dec c h (Some m) (Some (v4_prefix @ a)) = rest_Renew net dec c h (Some m) (Some a) \<and>
    rest_Release net c h (Some m) (Some a) =
      Inr (map_option (NewError 400) (ask_release cl h (Some m) (Some (v4_prefix @ a))))"
proof -
  have h: "h \<noteq> []" and a: "length a = 4"
    using assms(3) valid_hostname_segment(2) by (auto simp: sound_call_iff)
  note srv = full_path_served [OF assms(1,3,4)]
  have r: "rest_Renew net dec c h (Some m) ip =
      Inr (reply enc dec OtherError lost (contentType c) h (ask_renew cl h (Some m) (Some (v4_prefix @ a))))"
    if "to4 ip = Some a" for ip
    using call_reply [OF assms(2,4) srv(1) assms(5), of dec OtherError]
    by (auto simp: rest_Renew_eq [OF h that])
  have "rest_Release net c h (Some m) (Some a) =
      Inr (map_option (NewError 400) (ask_release cl h (Some m) (Some (v4_prefix @ a))))"
    using delivered [OF assms(2), of "''DELETE''" "full_path h m a", unfolded srv(2)]
    by (auto simp: rest_Release_eq [OF h a] rest_call_def split: option.split)
  then show ?thesis using r [OF to4_v4 [OF a]] r [OF to4_mapped [OF a]] by simp
qed

theorem renew_release_arrive_witness:
  "rest_Release (sample_net (sample_calls sample_ack) sample_enc ''http://h'')
      (rest_NewClient ''http://h'') ''pc'' mac1 (Some [192, 168, 1, 20]) = Inr (Some (NewError 400 ''lost''))"
proof -
  let ?c = "rest_NewClient ''http://h''" and ?cl = "sample_calls sample_ack"
  have c: "contentType ?c \<in> set spoken" "url ?c = ''http://h''"
    by (simp_all add: rest_NewClient_def spoken_def)
  have "sound_call ''pc'' (Some [0, 1, 2, 3, 4, 5]) (Some [192, 168, 1, 20])" by code_simp
  moreover have "\<And>l. ask_renew ?cl ''pc'' (Some [0, 1, 2, 3, 4, 5]) (Some (v4_prefix @ [192, 168, 1, 20])) = Some l \<Longrightarrow>
      result_shape l"
    by (auto simp: sample_calls_def result_shape_def sample_ack_def ack1_def)
  ultimately show ?thesis
    using renew_release_arrive [OF sample_contract sample_delivers [OF c(2)] _ c(1),
        of "''pc''" "[0, 1, 2, 3, 4, 5]" "[192, 168, 1, 20]" ?cl sample_enc]
    by (simp add: mac1_def sample_calls_def)
qed

text \<open>A lease that was never given out is reported as one: when a call ended because the cleaner
  dropped its unanswered request, the server answers with status 200 and a lease that has the
  host name and the hardware address, but no IP address and no network, and that renews, rebinds
  and expires at the same moment.\<close>

theorem unanswered_is_success:
  assumes "reach A cfg S" and "i < length (procs S)" and "pc (procs S ! i) = PDone (Some r)"
    and "\<not> lease_closed (heap_of (cs S) r)"
  shows "\<exists>d. DHCP4 (heap_of (cs S) r) = Some d \<and>
    rest_response enc (Some t) q (Some (heap_of (cs S) r)) = Inr (rest_write enc
      (let x = Timestamp (heap_of (cs S) r) in
       \<lparr>l_hostname = q_hostname q, l_mac = ClientHWAddr d, l_ip = None, l_mask = None, l_dns = None,
        l_router = None, l_renew = x, l_rebind = x, l_expire = x\<rparr>) t)"
proof -
  let ?l = "heap_of (cs S) r"
  have shape: "result_shape ?l" by (rule finished_call_shape [OF assms(1-3)])
  then obtain d where d: "DHCP4 ?l = Some d" "offers_nothing d" "err ?l = None"
    using assms(4) by (auto simp: result_shape_def lease_closed_def)
  have "rest_NewLease (q_hostname q) ?l = Inr (let x = Timestamp ?l in
       \<lparr>l_hostname = q_hostname q, l_mac = ClientHWAddr d, l_ip = None, l_mask = None, l_dns = None,
        l_router = None, l_renew = x, l_rebind = x, l_expire = x\<rparr>)"
    by (simp add: rest_NewLease_def d offers_nothing_values [OF d(2,1)] Let_def)
  then show ?thesis
    using response_of_result [of "Some ?l" enc t q] shape d by simp
qed

theorem unanswered_is_success_witness:
  "\<exists>d. DHCP4 (heap_of (cs (reached patient_cfg cleaned_run)) 1) = Some d \<and>
    rest_response sample_enc (Some JSON) (the_query ''pc'' mac1 None)
        (Some (heap_of (cs (reached patient_cfg cleaned_run)) 1)) =
      Inr \<lparr>status = 200, ctype = JSON, body = ''lease'' @ [CHR 10]\<rparr>"
proof -
  have "reach (\<lambda>_. True) patient_cfg (reached patient_cfg cleaned_run)"
    by (rule reach_reached) (code_simp, simp add: cleaned_run_def ask_run_def)
  moreover have "0 < length (procs (reached patient_cfg cleaned_run))" by code_simp
  moreover have "pc (procs (reached patient_cfg cleaned_run) ! 0) = PDone (Some 1)" by code_simp
  moreover have "\<not> lease_closed (heap_of (cs (reached patient_cfg cleaned_run)) 1)"
    using cleaned_run_open by (auto simp: lease_closed_def)
  ultimately show ?thesis
    using unanswered_is_success [of "\<lambda>_. True" patient_cfg "reached patient_cfg cleaned_run" 0 1
        sample_enc JSON "the_query ''pc'' mac1 None"]
    by (auto simp: rest_write_def sample_enc_def)
qed

end
