(* ===== verification/Machine.thy ===== *)
theory Machine
  imports Main
begin

text \<open>
  The interface of a component whose goroutines are interleaved: a step that an event makes,
  undefined where the event cannot happen, and runs of events. What holds of all runs is proved
  here once, from what holds of a step. The connections (\<open>Conn_Transport\<close>), background processes
  (\<open>Background\<close>) and the server (\<open>Service_Start\<close>) are such machines.
\<close>

locale machine =
  fixes step :: "'e \<Rightarrow> 's \<Rightarrow> 's option"
    and run :: "'e list \<Rightarrow> 's \<Rightarrow> 's option"
  assumes run_Nil: "run [] s = Some s"
    and run_Cons: "run (e # es) s = (case step e s of None \<Rightarrow> None | Some s' \<Rightarrow> run es s')"
begin

lemma run_ConsD:
  assumes "run (e # es) s = Some s'"
  obtains s1 where "step e s = Some s1" and "run es s1 = Some s'"
  using assms by (auto simp: run_Cons split: option.splits)

lemma run_one: "run [e] s = step e s"
  by (simp add: run_Nil run_Cons split: option.split)

lemma run_append: "run (es @ fs) s = (case run es s of None \<Rightarrow> None | Some s' \<Rightarrow> run fs s')"
  by (induction es arbitrary: s) (simp_all add: run_Nil run_Cons split: option.split)

lemma run_appendI: "run es s = Some s1 \<Longrightarrow> run fs s1 = r \<Longrightarrow> run (es @ fs) s = r"
  by (simp add: run_append)

text \<open>A property that every step keeps; and what it says of the events on the way.\<close>

lemma run_events:
  assumes "\<And>e s s'. I s \<Longrightarrow> step e s = Some s' \<Longrightarrow> I s' \<and> Q e"
    and "I s" and "run es s = Some s'"
  shows "I s' \<and> list_all Q es"
  using assms(2,3)
proof (induction es arbitrary: s)
  case Nil
  then show ?case by (simp add: run_Nil)
next
  case (Cons e es)
  obtain s1 where s1: "step e s = Some s1" "run es s1 = Some s'" by (rule run_ConsD [OF Cons.prems(2)])
  then show ?case using Cons.IH [of s1] assms(1) [OF Cons.prems(1) s1(1)] by simp
qed

lemma run_invariant:
  "(\<And>e s s'. I s \<Longrightarrow> step e s = Some s' \<Longrightarrow> I s') \<Longrightarrow> I s \<Longrightarrow> run es s = Some s' \<Longrightarrow> I s'"
  using run_events [of I "\<lambda>_. True"] by blast

end

end
