(* ===== verification/Conn_Transport.thy ===== *)
theory Conn_Transport
  imports Dhcp_Packet Machine
begin

text \<open>
  The connections of \<open>dhcp/udp.go\<close>, \<open>dhcp/raw.go\<close> and \<open>dhcp/dual.go\<close>: \<open>Send\<close> and \<open>Block\<close>, which
  share the mutex \<open>outmux\<close>, the loop of \<open>RawConn.Receive\<close>, and \<open>DualConn.GetPort\<close>.

  A call of \<open>Send\<close> is two goroutines, the one that writes and a watchdog for the context, which
  share the channel \<open>chan2\<close> of capacity one; its reader takes at most one message, and after that,
  after the success on the other channel, or when the context is done, never looks again (\<open>dhcp/client.go\<close>, \<open>discover\<close> and
  \<open>request\<close>). One step is one goroutine up to its next blocking point; the events carry what the
  socket and the serializer return. \<open>early\<close> tells the two orders apart: the raw and the dual
  connection serialize before they take the lock, the UDP connection afterwards.
\<close>

subsection \<open>State\<close>

datatype writer =
    WPrepare
  | WLock
  | WDeadline
  | WWrite
  | WReport nat
  | WFail bool string
  | WEnd

datatype watchdog = DWait | DReport | DEnd

record send =
  writer :: writer
  watchdog :: watchdog
  chan2 :: "string list"
  done_closed :: bool
  ctx_over :: bool
  reader :: bool
  sent :: "nat option"

datatype holder = BySend nat | ByBlock

record conn_out =
  outmux :: "holder option"
  sends :: "send list"

datatype out_event =
    OSend
  | OPrepared nat
  | OPrepareErr nat string
  | OLock nat
  | ODeadline nat
  | ODeadlineErr nat string
  | OWrite nat nat
  | OWriteErr nat string
  | OReport nat
  | OCtx nat
  | OWake nat
  | OWarn nat
  | OSeen nat
  | ORead nat
  | OLeave nat
  | OBlock
  | OUnblock

definition new_send :: "bool \<Rightarrow> send" where
  "new_send early =
     \<lparr>writer = (if early then WPrepare else WLock), watchdog = DWait, chan2 = [], done_closed = False,
      ctx_over = False, reader = True, sent = None\<rparr>"

definition new_conn :: conn_out where
  "new_conn = \<lparr>outmux = None, sends = []\<rparr>"

subsection \<open>Steps\<close>

definition upd_send :: "nat \<Rightarrow> (send \<Rightarrow> send) \<Rightarrow> conn_out \<Rightarrow> conn_out" where
  "upd_send i f c = c\<lparr>sends := (sends c)[i := f (sends c ! i)]\<rparr>"

definition when_send :: "nat \<Rightarrow> (send \<Rightarrow> bool) \<Rightarrow> conn_out \<Rightarrow> conn_out \<Rightarrow> conn_out option" where
  "when_send i P c c' = (if i < length (sends c) \<and> P (sends c ! i) then Some c' else None)"

text \<open>The end of the writing goroutine, with the deferred unlock if it holds the lock.\<close>

definition writer_end :: "nat \<Rightarrow> bool \<Rightarrow> (send \<Rightarrow> send) \<Rightarrow> conn_out \<Rightarrow> conn_out" where
  "writer_end i locked f c =
     (let c = upd_send i (\<lambda>s. (f s)\<lparr>writer := WEnd\<rparr>) c in if locked then c\<lparr>outmux := None\<rparr> else c)"

fun conn_step :: "bool \<Rightarrow> out_event \<Rightarrow> conn_out \<Rightarrow> conn_out option" where
  "conn_step early OSend c = Some (c\<lparr>sends := sends c @ [new_send early]\<rparr>)"
| "conn_step early (OPrepared i) c = when_send i (\<lambda>s. writer s = WPrepare) c
     (upd_send i (\<lambda>s. s\<lparr>writer := (if early then WLock else WWrite)\<rparr>) c)"
| "conn_step early (OPrepareErr i e) c = when_send i (\<lambda>s. writer s = WPrepare) c
     (upd_send i (\<lambda>s. s\<lparr>writer := WFail (\<not> early) e\<rparr>) c)"
| "conn_step early (OLock i) c = when_send i (\<lambda>s. writer s = WLock \<and> outmux c = None) c
     ((upd_send i (\<lambda>s. s\<lparr>writer := WDeadline\<rparr>) c)\<lparr>outmux := Some (BySend i)\<rparr>)"
| "conn_step early (ODeadline i) c = when_send i (\<lambda>s. writer s = WDeadline) c
     (upd_send i (\<lambda>s. s\<lparr>writer := (if early then WWrite else WPrepare)\<rparr>) c)"
| "conn_step early (ODeadlineErr i e) c = when_send i (\<lambda>s. writer s = WDeadline) c
     (upd_send i (\<lambda>s. s\<lparr>writer := WFail True e\<rparr>) c)"
| "conn_step early (OWrite i n) c = when_send i (\<lambda>s. writer s = WWrite) c
     (upd_send i (\<lambda>s. s\<lparr>writer := WReport n, done_closed := True\<rparr>) c)"
| "conn_step early (OWriteErr i e) c = when_send i (\<lambda>s. writer s = WWrite) c
     (upd_send i (\<lambda>s. s\<lparr>writer := WFail True e, done_closed := True\<rparr>) c)"
| "conn_step early (OReport i) c = (case writer (sends c ! i) of
       WReport n \<Rightarrow> when_send i (\<lambda>s. True) c (writer_end i True (\<lambda>s. s\<lparr>sent := Some n\<rparr>) c)
     | WFail locked e \<Rightarrow> when_send i (\<lambda>s. chan2 s = []) c (writer_end i locked (\<lambda>s. s\<lparr>chan2 := [e]\<rparr>) c)
     | _ \<Rightarrow> None)"
| "conn_step early (OCtx i) c = when_send i (\<lambda>s. \<not> ctx_over s) c
     (upd_send i (\<lambda>s. s\<lparr>ctx_over := True\<rparr>) c)"
| "conn_step early (OWake i) c = when_send i (\<lambda>s. watchdog s = DWait \<and> ctx_over s) c
     (upd_send i (\<lambda>s. s\<lparr>watchdog := DReport\<rparr>) c)"
| "conn_step early (OWarn i) c = when_send i (\<lambda>s. watchdog s = DReport \<and> chan2 s = []) c
     (upd_send i (\<lambda>s. s\<lparr>watchdog := DEnd, chan2 := [''context done'']\<rparr>) c)"
| "conn_step early (OSeen i) c = when_send i (\<lambda>s. watchdog s = DWait \<and> done_closed s) c
     (upd_send i (\<lambda>s. s\<lparr>watchdog := DEnd\<rparr>) c)"
| "conn_step early (ORead i) c = when_send i (\<lambda>s. reader s \<and> chan2 s \<noteq> []) c
     (upd_send i (\<lambda>s. s\<lparr>reader := False, chan2 := tl (chan2 s)\<rparr>) c)"
| "conn_step early (OLeave i) c = when_send i (\<lambda>s. reader s \<and> (sent s \<noteq> None \<or> ctx_over s)) c
     (upd_send i (\<lambda>s. s\<lparr>reader := False\<rparr>) c)"
| "conn_step early OBlock c = (if outmux c = None then Some (c\<lparr>outmux := Some ByBlock\<rparr>) else None)"
| "conn_step early OUnblock c = (if outmux c = Some ByBlock then Some (c\<lparr>outmux := None\<rparr>) else None)"

fun conn_run :: "bool \<Rightarrow> out_event list \<Rightarrow> conn_out \<Rightarrow> conn_out option" where
  "conn_run early [] c = Some c"
| "conn_run early (ev # evs) c = (case conn_step early ev c of None \<Rightarrow> None | Some c' \<Rightarrow> conn_run early evs c')"

inductive conn_reach :: "bool \<Rightarrow> conn_out \<Rightarrow> bool" for early where
  reach_new: "conn_reach early new_conn"
| reach_conn: "conn_reach early c \<Longrightarrow> conn_step early ev c = Some c' \<Longrightarrow> conn_reach early c'"

interpretation out: machine "conn_step early" "conn_run early" for early
  by unfold_locales simp_all

lemma when_send_Some [simp]:
  "when_send i P c c' = Some d \<longleftrightarrow> i < length (sends c) \<and> P (sends c ! i) \<and> d = c'"
  by (auto simp: when_send_def)

lemma upd_send_simps [simp]:
  "outmux (upd_send i f c) = outmux c" "length (sends (upd_send i f c)) = length (sends c)"
  "i < length (sends c) \<Longrightarrow> j < length (sends c) \<Longrightarrow>
    sends (upd_send i f c) ! j = (if j = i then f (sends c ! i) else sends c ! j)"
  by (auto simp: upd_send_def nth_list_update)

lemma writer_end_simps [simp]:
  "outmux (writer_end i b f c) = (if b then None else outmux c)"
  "length (sends (writer_end i b f c)) = length (sends c)"
  "i < length (sends c) \<Longrightarrow> j < length (sends c) \<Longrightarrow>
    sends (writer_end i b f c) ! j = (if j = i then (f (sends c ! i))\<lparr>writer := WEnd\<rparr> else sends c ! j)"
  by (simp_all add: writer_end_def Let_def)

subsection \<open>Who holds the lock\<close>

definition holding :: "bool \<Rightarrow> writer \<Rightarrow> bool" where
  "holding early w = (case w of
       WPrepare \<Rightarrow> \<not> early | WDeadline \<Rightarrow> True | WWrite \<Rightarrow> True | WReport n \<Rightarrow> True | WFail b e \<Rightarrow> b
     | _ \<Rightarrow> False)"

definition out_inv :: "bool \<Rightarrow> conn_out \<Rightarrow> bool" where
  "out_inv early c \<longleftrightarrow> (\<forall>i < length (sends c).
     (holding early (writer (sends c ! i)) \<longleftrightarrow> outmux c = Some (BySend i)) \<and>
     length (chan2 (sends c ! i)) \<le> 1) \<and>
     (\<forall>i. outmux c = Some (BySend i) \<longrightarrow> i < length (sends c))"

lemma holding_simps [simp]:
  "holding early WPrepare = (\<not> early)" "holding early WDeadline" "holding early WWrite"
  "holding early (WReport n)" "holding early (WFail b e) = b" "\<not> holding early WLock" "\<not> holding early WEnd"
  by (simp_all add: holding_def)

lemma out_inv_step:
  assumes "out_inv early c" and "conn_step early ev c = Some c'"
  shows "out_inv early c'"
proof (cases ev)
  case OSend
  then show ?thesis
    using assms by (cases early) (auto simp: out_inv_def new_send_def nth_append less_Suc_eq)
next
  case (OReport i)
  then show ?thesis
    using assms by (auto simp: out_inv_def split: writer.splits if_splits)
qed (use assms in \<open>auto simp: out_inv_def split: if_splits\<close>)

lemma out_inv_run: "out_inv early c \<Longrightarrow> conn_run early evs c = Some c' \<Longrightarrow> out_inv early c'"
  using out.run_invariant [of "out_inv early" early] out_inv_step by blast

lemma conn_reach_inv: "conn_reach early c \<Longrightarrow> out_inv early c"
proof (induction rule: conn_reach.induct)
  case reach_new
  show ?case by (simp add: out_inv_def new_conn_def)
next
  case (reach_conn c ev c')
  then show ?case by (blast intro: out_inv_step)
qed

subsection \<open>A writer that nobody listens to\<close>

definition failed :: "send \<Rightarrow> bool" where
  "failed s \<longleftrightarrow> (case writer s of WFail b e \<Rightarrow> True | _ \<Rightarrow> False)"

definition clogged :: "send \<Rightarrow> bool" where
  "clogged s \<longleftrightarrow> failed s \<and> chan2 s \<noteq> [] \<and> \<not> reader s"

lemma failed_iff: "failed s \<longleftrightarrow> (\<exists>b e. writer s = WFail b e)"
  by (simp add: failed_def split: writer.split)

lemma clogged_step:
  assumes "conn_step early ev c = Some c'" and "i < length (sends c)" and "clogged (sends c ! i)"
  shows "i < length (sends c') \<and> clogged (sends c' ! i) \<and> writer (sends c' ! i) = writer (sends c ! i)"
proof (cases ev)
  case OSend
  then show ?thesis using assms by (auto simp: nth_append)
next
  case (OReport j)
  then show ?thesis using assms
    by (cases "i = j") (auto simp: clogged_def failed_iff split: writer.splits)
qed (use assms in \<open>auto simp: clogged_def failed_iff split: if_splits\<close>)

lemma clogged_run:
  assumes "conn_run early evs c = Some c'" and "i < length (sends c)" and "clogged (sends c ! i)"
  shows "i < length (sends c') \<and> clogged (sends c' ! i) \<and> writer (sends c' ! i) = writer (sends c ! i)"
  by (rule out.run_invariant [OF _ _ assms(1)]) (use assms(2,3) clogged_step in fastforce)+

text \<open>An event that passes data to the socket or takes the lock.\<close>

definition goes_out :: "out_event \<Rightarrow> bool" where
  "goes_out ev \<longleftrightarrow> (case ev of OLock i \<Rightarrow> True | OWrite i n \<Rightarrow> True | OBlock \<Rightarrow> True | _ \<Rightarrow> False)"

lemma locked_no_output:
  assumes "out_inv early c" and "outmux c = Some (BySend i)" and "writer (sends c ! i) \<noteq> WWrite"
    and "conn_step early ev c = Some c'"
  shows "\<not> goes_out ev"
  using assms by (cases ev) (auto simp: goes_out_def out_inv_def)

subsection \<open>When a call can end\<close>

text \<open>The steps of the two goroutines of one call and of its reader.\<close>

definition event_send :: "out_event \<Rightarrow> nat option" where
  "event_send ev = (case ev of
       OPrepared i \<Rightarrow> Some i | OPrepareErr i e \<Rightarrow> Some i | OLock i \<Rightarrow> Some i | ODeadline i \<Rightarrow> Some i
     | ODeadlineErr i e \<Rightarrow> Some i | OWrite i n \<Rightarrow> Some i | OWriteErr i e \<Rightarrow> Some i | OReport i \<Rightarrow> Some i
     | OCtx i \<Rightarrow> Some i | OWake i \<Rightarrow> Some i | OWarn i \<Rightarrow> Some i | OSeen i \<Rightarrow> Some i | ORead i \<Rightarrow> Some i
     | OLeave i \<Rightarrow> Some i | _ \<Rightarrow> None)"

text \<open>Such a step changes nothing of another call, and the lock only from free to its own and back.\<close>

definition after_end :: "nat \<Rightarrow> conn_out \<Rightarrow> holder option" where
  "after_end i c = (if outmux c = Some (BySend i) then None else outmux c)"

definition own :: "nat \<Rightarrow> conn_out \<Rightarrow> conn_out \<Rightarrow> bool" where
  "own i c c' \<longleftrightarrow> length (sends c') = length (sends c) \<and> after_end i c' = after_end i c \<and>
     (\<forall>j < length (sends c). j \<noteq> i \<longrightarrow> sends c' ! j = sends c ! j)"

lemma own_step:
  assumes "out_inv early c" and "conn_step early ev c = Some c'" and "event_send ev = Some i"
  shows "own i c c'"
proof (cases ev)
  case (OReport j)
  then show ?thesis
    using assms by (auto simp: event_send_def own_def after_end_def out_inv_def split: writer.splits if_splits)
qed (use assms in \<open>auto simp: event_send_def own_def after_end_def\<close>)

definition can_end :: "bool \<Rightarrow> nat \<Rightarrow> conn_out \<Rightarrow> bool" where
  "can_end early i c \<longleftrightarrow>
     (\<exists>evs c'. conn_run early evs c = Some c' \<and> writer (sends c' ! i) = WEnd \<and> own i c c')"

lemma can_end_now: "writer (sends c ! i) = WEnd \<Longrightarrow> can_end early i c"
  unfolding can_end_def own_def by (intro exI [of _ "[]"]) simp

lemma can_end_upd:
  assumes "out_inv early c" and "event_send ev = Some i" and "conn_step early ev c \<noteq> None"
    and "out_inv early (the (conn_step early ev c)) \<Longrightarrow> can_end early i (the (conn_step early ev c))"
  shows "can_end early i c"
proof -
  obtain c1 where c1: "conn_step early ev c = Some c1" using assms(3) by blast
  have "can_end early i c1" using assms(4) out_inv_step [OF assms(1) c1] c1 by simp
  then obtain evs c' where "conn_run early evs c1 = Some c'" "writer (sends c' ! i) = WEnd" "own i c1 c'"
    by (auto simp: can_end_def)
  moreover have "own i c c'" using own_step [OF assms(1) c1 assms(2)] \<open>own i c1 c'\<close> by (simp add: own_def)
  ultimately show ?thesis
    unfolding can_end_def using c1 by (intro exI [of _ "ev # evs"] exI [of _ c']) simp
qed

lemma can_end_fail:
  assumes "out_inv early c" and "i < length (sends c)" and "writer (sends c ! i) = WFail b e"
    and "chan2 (sends c ! i) = []"
  shows "can_end early i c"
  by (rule can_end_upd [of early c "OReport i"])
    (use assms in \<open>simp_all add: event_send_def when_send_def can_end_now\<close>)

lemma can_end_read:
  assumes "out_inv early c" and "i < length (sends c)" and "writer (sends c ! i) = WFail b e"
    and "\<not> clogged (sends c ! i)"
  shows "can_end early i c"
proof (cases "chan2 (sends c ! i) = []")
  case True
  then show ?thesis by (rule can_end_fail [OF assms(1-3)])
next
  case False
  then have "reader (sends c ! i)" using assms(3,4) by (simp add: clogged_def failed_iff)
  moreover have "tl (chan2 (sends c ! i)) = []"
    using assms(1,2) False by (cases "chan2 (sends c ! i)") (auto simp: out_inv_def)
  ultimately show ?thesis
    by (intro can_end_upd [of early c "ORead i"])
      (use assms False in \<open>simp_all add: event_send_def when_send_def can_end_fail\<close>)
qed

lemma can_end_write:
  assumes "out_inv early c" and "i < length (sends c)" and "writer (sends c ! i) = WReport n"
  shows "can_end early i c"
  by (rule can_end_upd [of early c "OReport i"])
    (use assms in \<open>simp_all add: event_send_def when_send_def can_end_now\<close>)

lemma can_end_socket:
  assumes "out_inv early c" and "i < length (sends c)" and "writer (sends c ! i) = WWrite"
  shows "can_end early i c"
  by (rule can_end_upd [of early c "OWrite i 0"])
    (use assms in \<open>simp_all add: event_send_def when_send_def can_end_write\<close>)

lemma can_end_late:
  assumes "out_inv early c" and "i < length (sends c)" and "writer (sends c ! i) = WPrepare" and "\<not> early"
  shows "can_end early i c"
  by (rule can_end_upd [of early c "OPrepared i"])
    (use assms in \<open>simp_all add: event_send_def when_send_def can_end_socket\<close>)

lemma can_end_deadline:
  assumes "out_inv early c" and "i < length (sends c)" and "writer (sends c ! i) = WDeadline"
  shows "can_end early i c"
  by (rule can_end_upd [of early c "ODeadline i"]; cases early)
    (use assms in \<open>simp_all add: event_send_def when_send_def can_end_socket can_end_late\<close>)

lemma can_end_lock:
  assumes "out_inv early c" and "i < length (sends c)" and "writer (sends c ! i) = WLock" and "outmux c = None"
  shows "can_end early i c"
  by (rule can_end_upd [of early c "OLock i"])
    (use assms in \<open>simp_all add: event_send_def when_send_def can_end_deadline\<close>)

lemma can_end_early:
  assumes "out_inv early c" and "i < length (sends c)" and "writer (sends c ! i) = WPrepare" and "early"
    and "outmux c = None"
  shows "can_end early i c"
  by (rule can_end_upd [of early c "OPrepared i"])
    (use assms in \<open>simp_all add: event_send_def when_send_def can_end_lock\<close>)

text \<open>A serializer that fails ends the goroutine without the lock.\<close>

lemma can_end_refused:
  assumes "out_inv early c" and "i < length (sends c)" and "writer (sends c ! i) = WPrepare"
    and "chan2 (sends c ! i) = [] \<or> reader (sends c ! i)"
  shows "can_end early i c"
  by (rule can_end_upd [of early c "OPrepareErr i []"])
    (use assms in \<open>auto simp: event_send_def when_send_def clogged_def intro!: can_end_read\<close>)

text \<open>A writer that holds the lock, or that nobody hinders in taking it.\<close>

lemma can_end_free:
  assumes "out_inv early c" and "i < length (sends c)" and "\<not> clogged (sends c ! i)"
    and "outmux c = None \<or> outmux c = Some (BySend i)"
  shows "can_end early i c"
proof (cases "writer (sends c ! i)")
  case (WFail b e)
  then show ?thesis using can_end_read assms by blast
next
  case WLock
  then have "outmux c = None" using assms by (auto simp: out_inv_def)
  then show ?thesis using can_end_lock WLock assms by blast
next
  case WPrepare
  then have "early \<Longrightarrow> outmux c = None" using assms by (auto simp: out_inv_def)
  then show ?thesis using can_end_early can_end_late WPrepare assms by (cases early) auto
qed (use can_end_now can_end_write can_end_socket can_end_deadline assms in blast)+

text \<open>The lock is lost when a writer holds it that can never end.\<close>

definition lock_lost :: "conn_out \<Rightarrow> bool" where
  "lock_lost c \<longleftrightarrow> (case outmux c of Some (BySend j) \<Rightarrow> clogged (sends c ! j) | _ \<Rightarrow> False)"

lemma lock_comes_free:
  assumes "out_inv early c" and "\<not> lock_lost c" and "outmux c \<noteq> Some (BySend i)"
  obtains evs c' where "conn_run early evs c = Some c'" and "out_inv early c'" and "outmux c' = None"
    and "length (sends c') = length (sends c)" and "i < length (sends c) \<Longrightarrow> sends c' ! i = sends c ! i"
proof (cases "outmux c")
  case None
  then show thesis using that [of "[]" c] assms(1) by simp
next
  case (Some h)
  show thesis
  proof (cases h)
    case ByBlock
    then show thesis
      using that [of "[OUnblock]" "c\<lparr>outmux := None\<rparr>"] Some assms(1) out_inv_step [of early c OUnblock] by simp
  next
    case (BySend j)
    have j: "j < length (sends c)" "\<not> clogged (sends c ! j)" "i \<noteq> j"
      using assms Some BySend by (auto simp: out_inv_def lock_lost_def)
    obtain evs c' where c': "conn_run early evs c = Some c'" "writer (sends c' ! j) = WEnd" "own j c c'"
      using can_end_free [OF assms(1) j(1,2)] Some BySend by (auto simp: can_end_def)
    have inv: "out_inv early c'" using out_inv_run [OF assms(1) c'(1)] .
    then have "outmux c' = None"
      using c'(2,3) j(1) Some BySend by (fastforce simp: own_def after_end_def out_inv_def split: if_splits)
    then show thesis using that [OF c'(1) inv] c'(3) j(3) by (simp add: own_def)
  qed
qed

text \<open>The goroutine of \<open>Send\<close> that writes has no way to its end.\<close>

definition stuck :: "bool \<Rightarrow> nat \<Rightarrow> conn_out \<Rightarrow> bool" where
  "stuck early i c \<longleftrightarrow> clogged (sends c ! i) \<or> lock_lost c \<and> (writer (sends c ! i) = WLock \<or>
     early \<and> writer (sends c ! i) = WPrepare \<and> chan2 (sends c ! i) \<noteq> [] \<and> \<not> reader (sends c ! i))"

lemma lock_lost_step:
  assumes "out_inv early c" and "lock_lost c" and "conn_step early ev c = Some c'"
  shows "lock_lost c' \<and> outmux c' = outmux c"
proof -
  obtain j where j: "outmux c = Some (BySend j)" "clogged (sends c ! j)" "j < length (sends c)"
    using assms(1,2) by (auto simp: lock_lost_def out_inv_def split: option.splits holder.splits)
  have cl: "j < length (sends c')" "clogged (sends c' ! j)" "writer (sends c' ! j) = writer (sends c ! j)"
    using clogged_step [OF assms(3) j(3,2)] by blast+
  have "holding early (writer (sends c' ! j))" using cl(3) j assms(1) by (simp add: out_inv_def)
  then have "outmux c' = Some (BySend j)" using out_inv_step [OF assms(1,3)] cl(1) by (simp add: out_inv_def)
  then show ?thesis using cl(2) j(1) by (simp add: lock_lost_def)
qed

lemma stuck_step:
  assumes inv: "out_inv early c" and i: "i < length (sends c)" and st: "stuck early i c"
    and s: "conn_step early ev c = Some c'"
  shows "out_inv early c' \<and> i < length (sends c') \<and> stuck early i c'"
proof (cases "clogged (sends c ! i)")
  case True
  then show ?thesis using clogged_step [OF s i] out_inv_step [OF inv s] by (auto simp: stuck_def)
next
  case False
  then have l: "lock_lost c" and w: "writer (sends c ! i) = WLock \<or>
      early \<and> writer (sends c ! i) = WPrepare \<and> chan2 (sends c ! i) \<noteq> [] \<and> \<not> reader (sends c ! i)"
    using st by (auto simp: stuck_def)
  have m: "outmux c \<noteq> None" using l by (auto simp: lock_lost_def split: option.splits)
  have "i < length (sends c')" and "clogged (sends c' ! i) \<or> writer (sends c' ! i) = WLock \<or>
      early \<and> writer (sends c' ! i) = WPrepare \<and> chan2 (sends c' ! i) \<noteq> [] \<and> \<not> reader (sends c' ! i)"
  proof (atomize (full), cases ev)
    case OSend
    then show "i < length (sends c') \<and> (clogged (sends c' ! i) \<or> writer (sends c' ! i) = WLock \<or>
      early \<and> writer (sends c' ! i) = WPrepare \<and> chan2 (sends c' ! i) \<noteq> [] \<and> \<not> reader (sends c' ! i))"
      using s w i by (auto simp: nth_append)
  next
    case (OReport j)
    then show "i < length (sends c') \<and> (clogged (sends c' ! i) \<or> writer (sends c' ! i) = WLock \<or>
      early \<and> writer (sends c' ! i) = WPrepare \<and> chan2 (sends c' ! i) \<noteq> [] \<and> \<not> reader (sends c' ! i))"
      using s w i by (cases "i = j") (auto split: writer.splits)
  qed (use s w i m in \<open>auto simp: clogged_def failed_def split: if_splits\<close>)
  then show ?thesis using lock_lost_step [OF inv l s] out_inv_step [OF inv s] by (auto simp: stuck_def)
qed

lemma stuck_never_ends:
  assumes "out_inv early c" and "i < length (sends c)" and "stuck early i c" and "conn_run early evs c = Some c'"
  shows "writer (sends c' ! i) \<noteq> WEnd"
proof -
  have "out_inv early c' \<and> i < length (sends c') \<and> stuck early i c'"
    by (rule out.run_invariant [OF _ _ assms(4)]) (use stuck_step assms in blast)+
  then show ?thesis by (auto simp: stuck_def clogged_def failed_def)
qed

lemma not_stuck_ends:
  assumes inv: "out_inv early c" and i: "i < length (sends c)" and ns: "\<not> stuck early i c"
  shows "\<exists>evs c'. conn_run early evs c = Some c' \<and> writer (sends c' ! i) = WEnd"
proof -
  have nc: "\<not> clogged (sends c ! i)" using ns by (simp add: stuck_def)
  have later: ?thesis if "conn_run early evs c = Some d" "can_end early i d" for evs d
    using that unfolding can_end_def by (metis out.run_appendI)
  show ?thesis
  proof (cases "outmux c = Some (BySend i)")
    case True
    then show ?thesis using later [of "[]" c] can_end_free [OF inv i nc] by simp
  next
    case other: False
    show ?thesis
    proof (cases "lock_lost c")
      case False
      obtain evs d where "conn_run early evs c = Some d" "out_inv early d" "outmux d = None"
          "length (sends d) = length (sends c)" "sends d ! i = sends c ! i"
        using lock_comes_free [OF inv False other] i by metis
      then show ?thesis using later can_end_free [of early d i] i nc by simp
    next
      case True
      have "can_end early i c"
      proof (cases "writer (sends c ! i)")
        case WPrepare
        then have "early" using inv i other by (auto simp: out_inv_def)
        then show ?thesis using ns True WPrepare can_end_refused [OF inv i] by (auto simp: stuck_def)
      next
        case WLock
        then show ?thesis using ns True by (simp add: stuck_def)
      next
        case (WFail b e)
        then show ?thesis using can_end_read [OF inv i _ nc] by blast
      qed (use can_end_now inv i other in \<open>auto simp: out_inv_def\<close>)
      then show ?thesis using later [of "[]" c] by simp
    qed
  qed
qed

text \<open>C7. In every reachable state, whatever the other calls do, the goroutine of a call of \<open>Send\<close> that
  writes can get to its end, except in two cases, in which it never ends: it has failed while the
  watchdog's message is still unread and its reader is gone; or the lock of the connection is held
  by such a goroutine and it has still to take it (a raw or dual connection that is serializing can
  then only end by an error of the serializer, for which its channel must have room or a reader).\<close>

theorem send_ends_iff:
  assumes "conn_reach early c" and "i < length (sends c)"
  shows "(\<exists>evs c'. conn_run early evs c = Some c' \<and> writer (sends c' ! i) = WEnd) \<longleftrightarrow>
    \<not> (clogged (sends c ! i) \<or>
      (\<exists>j < length (sends c). outmux c = Some (BySend j) \<and> clogged (sends c ! j)) \<and>
      (writer (sends c ! i) = WLock \<or>
       early \<and> writer (sends c ! i) = WPrepare \<and> chan2 (sends c ! i) \<noteq> [] \<and> \<not> reader (sends c ! i)))"
proof -
  note inv = conn_reach_inv [OF assms(1)]
  have "lock_lost c \<longleftrightarrow> (\<exists>j < length (sends c). outmux c = Some (BySend j) \<and> clogged (sends c ! j))"
    using inv by (auto simp: lock_lost_def out_inv_def split: option.splits holder.splits)
  then have "stuck early i c \<longleftrightarrow> clogged (sends c ! i) \<or>
      (\<exists>j < length (sends c). outmux c = Some (BySend j) \<and> clogged (sends c ! j)) \<and>
      (writer (sends c ! i) = WLock \<or>
       early \<and> writer (sends c ! i) = WPrepare \<and> chan2 (sends c ! i) \<noteq> [] \<and> \<not> reader (sends c ! i))"
    by (simp add: stuck_def)
  then show ?thesis
    using not_stuck_ends [OF inv assms(2)] stuck_never_ends [OF inv assms(2)] by blast
qed

text \<open>C8. Such a writer, if it has the lock, keeps it for ever: no later call of \<open>Send\<close> gets the lock
  or writes, and \<open>Block\<close> never returns. The connection is dead until the program is restarted.\<close>

theorem connection_dead:
  assumes "conn_reach early c" and "i < length (sends c)" and "clogged (sends c ! i)"
    and "outmux c = Some (BySend i)" and "conn_run early evs c = Some c'"
  shows "outmux c' = Some (BySend i) \<and> list_all (\<lambda>ev. \<not> goes_out ev) evs"
proof -
  let ?I = "\<lambda>c. out_inv early c \<and> i < length (sends c) \<and> clogged (sends c ! i) \<and> outmux c = Some (BySend i)"
  have "?I c' \<and> list_all (\<lambda>ev. \<not> goes_out ev) evs"
  proof (rule out.run_events [OF _ _ assms(5)])
    fix ev d d'
    assume I: "?I d" and s: "conn_step early ev d = Some d'"
    have cl: "i < length (sends d')" "clogged (sends d' ! i)" "writer (sends d' ! i) = writer (sends d ! i)"
      using clogged_step [OF s] I by blast+
    have inv: "out_inv early d'" using out_inv_step s I by blast
    moreover have "holding early (writer (sends d' ! i))"
      using cl I by (auto simp: out_inv_def)
    ultimately have "outmux d' = Some (BySend i)" using cl by (auto simp: out_inv_def)
    moreover have "\<not> goes_out ev"
      by (rule locked_no_output [OF _ _ _ s]) (use I in \<open>auto simp: clogged_def failed_iff\<close>)
    ultimately show "?I d' \<and> \<not> goes_out ev" using inv cl by blast
  qed (use assms conn_reach_inv in blast)
  then show ?thesis by blast
qed

subsection \<open>The dead connection is reached\<close>

definition dead_run :: "out_event list" where
  "dead_run = [OSend, OPrepared 0, OLock 0, ODeadline 0, OCtx 0, OWake 0, OWarn 0, OLeave 0,
     OWriteErr 0 ''i/o timeout'']"

definition dead_conn :: conn_out where
  "dead_conn = (case conn_run True dead_run new_conn of Some c \<Rightarrow> c | None \<Rightarrow> new_conn)"

lemma conn_run_reach: "conn_reach early c \<Longrightarrow> conn_run early evs c = Some c' \<Longrightarrow> conn_reach early c'"
  using out.run_invariant [of "conn_reach early" early] reach_conn by blast

lemma dead_conn_run: "conn_run True dead_run new_conn = Some dead_conn"
  by (simp add: dead_conn_def dead_run_def new_conn_def upd_send_def when_send_def new_send_def)

lemma dead_conn_facts:
  "conn_reach True dead_conn" "length (sends dead_conn) = 1" "clogged (sends dead_conn ! 0)"
  "outmux dead_conn = Some (BySend 0)"
proof -
  show "conn_reach True dead_conn"
    by (rule conn_run_reach [OF reach_new dead_conn_run])
qed code_simp+

text \<open>A second call on the dead connection waits for the lock for ever; without the failure of the
  first one it can end.\<close>

definition second_call :: "out_event list \<Rightarrow> conn_out" where
  "second_call evs = the (conn_run True (evs @ [OSend, OPrepared 1]) new_conn)"

theorem send_ends_iff_witness:
  "\<not> (\<exists>evs c'. conn_run True evs (second_call dead_run) = Some c' \<and> writer (sends c' ! 1) = WEnd) \<and>
   (\<exists>evs c'. conn_run True evs (second_call (take 8 dead_run)) = Some c' \<and> writer (sends c' ! 1) = WEnd)"
proof -
  have r: "conn_reach True (second_call evs)" if "conn_run True (evs @ [OSend, OPrepared 1]) new_conn \<noteq> None" for evs
    using conn_run_reach [OF reach_new] that by (auto simp: second_call_def)
  have "conn_reach True (second_call dead_run)" "conn_reach True (second_call (take 8 dead_run))"
    by (rule r, code_simp)+
  moreover have "1 < length (sends (second_call dead_run))" "1 < length (sends (second_call (take 8 dead_run)))"
    by code_simp+
  moreover have "outmux (second_call dead_run) = Some (BySend 0)" "clogged (sends (second_call dead_run) ! 0)"
    "writer (sends (second_call dead_run) ! 1) = WLock" "0 < length (sends (second_call dead_run))"
    "\<not> clogged (sends (second_call (take 8 dead_run)) ! 1)"
    "list_all (\<lambda>s. \<not> clogged s) (sends (second_call (take 8 dead_run)))"
    by code_simp+
  ultimately show ?thesis
    using send_ends_iff [of True "second_call dead_run" 1] send_ends_iff [of True "second_call (take 8 dead_run)" 1]
    by (auto simp: list_all_length)
qed

theorem connection_dead_witness:
  "\<exists>c'. conn_run True [OSend, OPrepared 1] dead_conn = Some c' \<and> outmux c' = Some (BySend 0)"
proof -
  have "conn_run True [OSend, OPrepared 1] dead_conn \<noteq> None"
    using dead_conn_facts(2) by (simp add: when_send_def nth_append new_send_def)
  then obtain c' where c': "conn_run True [OSend, OPrepared 1] dead_conn = Some c'" by blast
  show ?thesis
    using connection_dead [OF dead_conn_facts(1) _ dead_conn_facts(3,4) c'] dead_conn_facts(2) c' by simp
qed

subsection \<open>Receiving on a raw socket\<close>

text \<open>
  The socket delivers every datagram of the host; the loop reads on until one is for its port.
  \<open>rd k\<close> is what the \<open>k\<close>-th read returns, \<open>dec_udp\<close> and \<open>dec_dhcp\<close> are the decoders of \<open>gopacket\<close>.
  A loop that never returns is \<open>None\<close>.
\<close>

type_synonym udp_decoder = "bytes \<Rightarrow> string + (u16 \<times> bytes)"

partial_function (option) receive_loop ::
  "(nat \<Rightarrow> string + bytes) \<Rightarrow> udp_decoder \<Rightarrow> u16 \<Rightarrow> nat \<Rightarrow> (string + bytes) option" where
  "receive_loop rd dec_udp port k = (case rd k of
       Inl e \<Rightarrow> Some (Inl e)
     | Inr b \<Rightarrow> (case dec_udp b of
           Inl e \<Rightarrow> Some (Inl e)
         | Inr (dst, payload) \<Rightarrow>
             if dst = port then Some (Inr payload) else receive_loop rd dec_udp port (Suc k)))"

definition raw_receive ::
  "string option \<Rightarrow> (nat \<Rightarrow> string + bytes) \<Rightarrow> udp_decoder \<Rightarrow> (bytes \<Rightarrow> string + dhcp4) \<Rightarrow> u16 \<Rightarrow>
   (string + dhcp4) option" where
  "raw_receive deadline rd dec_udp dec_dhcp port = (case deadline of
       Some e \<Rightarrow> Some (Inl e)
     | None \<Rightarrow> map_option (\<lambda>r. case r of Inl e \<Rightarrow> Inl e | Inr payload \<Rightarrow> dec_dhcp payload)
         (receive_loop rd dec_udp port 0))"

text \<open>A read that ends the loop, and the result it ends it with.\<close>

definition other_port :: "udp_decoder \<Rightarrow> u16 \<Rightarrow> string + bytes \<Rightarrow> bool" where
  "other_port dec_udp port r \<longleftrightarrow>
     (case r of Inl e \<Rightarrow> False | Inr b \<Rightarrow> (case dec_udp b of Inl e \<Rightarrow> False | Inr (dst, p) \<Rightarrow> dst \<noteq> port))"

definition datagram :: "udp_decoder \<Rightarrow> string + bytes \<Rightarrow> string + bytes" where
  "datagram dec_udp r = (case r of Inl e \<Rightarrow> Inl e | Inr b \<Rightarrow> map_sum id snd (dec_udp b))"

lemma receive_loop_stop:
  "\<not> other_port dec_udp port (rd k) \<Longrightarrow> receive_loop rd dec_udp port k = Some (datagram dec_udp (rd k))"
  by (subst receive_loop.simps)
    (auto simp: other_port_def datagram_def split: sum.splits)

lemma receive_loop_next:
  "other_port dec_udp port (rd k) \<Longrightarrow> receive_loop rd dec_udp port k = receive_loop rd dec_udp port (Suc k)"
  by (subst receive_loop.simps) (auto simp: other_port_def split: sum.splits)

lemma receive_loop_first:
  "(\<And>j. j < n \<Longrightarrow> other_port dec_udp port (rd (k + j))) \<Longrightarrow> \<not> other_port dec_udp port (rd (k + n)) \<Longrightarrow>
    receive_loop rd dec_udp port k = Some (datagram dec_udp (rd (k + n)))"
proof (induction n arbitrary: k)
  case 0
  then show ?case using receive_loop_stop by simp
next
  case (Suc n)
  have "other_port dec_udp port (rd (Suc k + j))" if "j < n" for j
    using Suc.prems(1) [of "Suc j"] that by simp
  then show ?case
    using Suc.IH [of "Suc k"] Suc.prems(1) [of 0] Suc.prems(2) receive_loop_next [of dec_udp port rd k] by simp
qed

lemma receive_loop_returns:
  assumes "receive_loop rd dec_udp port k = Some r"
  shows "\<exists>n. \<not> other_port dec_udp port (rd n)"
proof (rule receive_loop.raw_induct [of "\<lambda>rd dec_udp port k r. \<exists>n. \<not> other_port dec_udp port (rd n)"])
  fix f rd' k' r' and dec' :: udp_decoder and port' :: u16
  assume IH: "\<And>rd dec_udp port k r. f rd dec_udp port k = Some r \<Longrightarrow>
        \<exists>n. \<not> other_port dec_udp port (rd n)"
    and loop: "(case rd' k' of
       Inl e \<Rightarrow> Some (Inl e)
     | Inr b \<Rightarrow> (case dec' b of
           Inl e \<Rightarrow> Some (Inl e)
         | Inr (dst, payload) \<Rightarrow>
             if dst = port' then Some (Inr payload) else f rd' dec' port' (Suc k'))) = Some r'"
  show "\<exists>n. \<not> other_port dec' port' (rd' n)"
  proof (cases "other_port dec' port' (rd' k')")
    case True
    then have "f rd' dec' port' (Suc k') = Some r'"
      using loop by (auto simp: other_port_def split: sum.splits)
    then show ?thesis by (rule IH)
  qed blast
qed (rule assms)

text \<open>C29. The loop ends exactly when some read fails, is no UDP datagram or is one for the port, and
  then it ends with the first of these: datagrams for other ports are skipped, a damaged one is
  an error, whatever comes later. Without such a read it runs for ever.\<close>

theorem raw_receive_ends:
  "raw_receive None rd dec_udp dec_dhcp port = None \<and> (\<nexists>k. \<not> other_port dec_udp port (rd k)) \<or>
   (\<exists>k. \<not> other_port dec_udp port (rd k) \<and> list_all (\<lambda>j. other_port dec_udp port (rd j)) [0..<k] \<and>
     raw_receive None rd dec_udp dec_dhcp port =
       Some (case datagram dec_udp (rd k) of Inl e \<Rightarrow> Inl e | Inr payload \<Rightarrow> dec_dhcp payload))"
proof (cases "\<exists>k. \<not> other_port dec_udp port (rd k)")
  case False
  then have "receive_loop rd dec_udp port 0 = None"
    using receive_loop_returns [of rd dec_udp port 0] by (cases "receive_loop rd dec_udp port 0") auto
  then show ?thesis using False by (simp add: raw_receive_def)
next
  case True
  define k where "k = (LEAST k. \<not> other_port dec_udp port (rd k))"
  have k: "\<not> other_port dec_udp port (rd k)" "\<And>j. j < k \<Longrightarrow> other_port dec_udp port (rd j)"
    using LeastI_ex [OF True] not_less_Least unfolding k_def by blast+
  have "receive_loop rd dec_udp port 0 = Some (datagram dec_udp (rd k))"
    using receive_loop_first [of k dec_udp port rd 0] k by simp
  then show ?thesis
    using k by (intro disjI2 exI [of _ k]) (simp add: raw_receive_def list_all_iff)
qed

subsection \<open>Receiving on a UDP socket\<close>

text \<open>
  The UDP connection and the dual connection read one datagram into a buffer of 2048 bytes; the
  socket cuts off what is longer. Only the dual connection notices a full buffer.
\<close>

definition read_buffer :: "bytes \<Rightarrow> bytes" where
  "read_buffer msg = take 2048 msg"

definition udp_receive ::
  "string option \<Rightarrow> string + bytes \<Rightarrow> (bytes \<Rightarrow> string + dhcp4) \<Rightarrow> string + dhcp4" where
  "udp_receive deadline rd dec_dhcp = (case deadline of
       Some e \<Rightarrow> Inl e
     | None \<Rightarrow> (case rd of
           Inl e \<Rightarrow> Inl e
         | Inr msg \<Rightarrow> dec_dhcp (read_buffer msg)))"

definition dual_receive ::
  "string option \<Rightarrow> string + bytes \<Rightarrow> (bytes \<Rightarrow> string + dhcp4) \<Rightarrow> string + dhcp4" where
  "dual_receive deadline rd dec_dhcp = (case deadline of
       Some e \<Rightarrow> Inl e
     | None \<Rightarrow> (case rd of
           Inl e \<Rightarrow> Inl e
         | Inr msg \<Rightarrow>
             if length (read_buffer msg) = 2048 then Inl ''DHCP package too big''
             else dec_dhcp (read_buffer msg)))"

text \<open>The dual connection decodes whole datagrams only, the other one the first 2048 bytes.\<close>

lemma dual_receive_whole:
  "dual_receive None (Inr msg) dec_dhcp =
    (if length msg < 2048 then dec_dhcp msg else Inl ''DHCP package too big'')"
  by (simp add: dual_receive_def read_buffer_def)

lemma dual_receive_udp:
  "dual_receive deadline rd dec_dhcp = udp_receive deadline rd dec_dhcp \<or>
    dual_receive deadline rd dec_dhcp = Inl ''DHCP package too big''"
  by (simp add: dual_receive_def udp_receive_def split: option.split sum.split)

subsection \<open>The source port of the dual connection\<close>

text \<open>\<open>GetPort\<close>, on the counter, which is kept: an \<open>int\<close> of 64 bits that stays small.\<close>

definition GetPort :: "bool \<Rightarrow> int \<Rightarrow> u16 \<times> int" where
  "GetPort fixPort cnt =
     (if fixPort then (68, cnt)
      else let cnt = (if cnt < 1 \<or> cnt > 60000 then 1 else cnt + 1) in (of_int cnt, cnt))"

text \<open>The port of the \<open>k\<close>-th packet after \<open>NewDualConn\<close>.\<close>

definition nth_port :: "nat \<Rightarrow> u16" where
  "nth_port k = fst (GetPort False (((\<lambda>c. snd (GetPort False c)) ^^ k) 0))"

lemma counter:
  "snd (GetPort False (((\<lambda>c. snd (GetPort False c)) ^^ k) 0)) = int (k mod 60001 + 1)"
proof (induction k)
  case 0
  show ?case by (simp add: GetPort_def)
next
  case (Suc k)
  have "k mod 60001 < 60001" by simp
  then consider "k mod 60001 = 60000" | "k mod 60001 < 60000" by linarith
  then show ?case
  proof cases
    case 1
    then have "Suc k mod 60001 = 0" by (simp add: mod_Suc)
    then show ?thesis using Suc.IH 1 by (simp add: GetPort_def)
  next
    case 2
    then have "Suc k mod 60001 = Suc (k mod 60001)" by (simp add: mod_Suc)
    then show ?thesis using Suc.IH 2 by (simp add: GetPort_def [of False "int _"] del: of_nat_add of_nat_Suc)
  qed
qed

text \<open>The ports count from 1 to 60001 and start again: no port is 0, none is cut off by the 16
  bits, and 60001 packets in a row come from different ports.\<close>

theorem dual_ports: "unat (nth_port k) = k mod 60001 + 1"
proof -
  have "k mod 60001 < 60001" by simp
  then have "(k mod 60001 + 1) mod 65536 = k mod 60001 + 1" by (intro mod_less) linarith
  moreover have "nth_port k = of_int (int (k mod 60001 + 1))"
    using counter [of k] by (simp add: nth_port_def GetPort_def Let_def)
  ultimately show ?thesis by (simp add: unat_of_nat flip: of_nat_Suc)
qed

end
