(* ===== verification/Background.thy ===== *)
theory Background
  imports Prelude Machine
begin

text \<open>
  \<open>background/process.go\<close>: a process is initialised, run by a goroutine, closed, and reports its
  end on the channel \<open>done\<close>, for which \<open>Wait\<close> and \<open>Stop\<close> wait. Both channels are only ever closed,
  so a channel is whether it is closed; closing one twice panics and ends the program.

  One step is one goroutine of \<open>Run\<close> up to the return of the function it calls next, and the event
  carries what the function returned. \<open>Run\<close> may be called several times; \<open>jobs\<close> are the goroutines.
  The process function is given the context and says by its result whether it came to its own end
  (true) or was cancelled (false): it returns false only after \<open>Stop\<close> has cancelled the context.
\<close>

subsection \<open>State and steps\<close>

datatype job_pc = JInit | JProcess | JClose | JEnd

record job =
  job_pc :: job_pc
  has_process :: bool
  started :: bool
  init_failed :: bool

record process =
  has_init :: bool
  has_close :: bool
  cancelled :: bool
  finished :: bool
  jobs :: "job list"
  crashed :: "go_panic option"

datatype bg_event =
    BRun bool
  | BInit nat "string option"
  | BProcess nat bool
  | BClose nat "string option"
  | BStop

definition process_Init :: "bool \<Rightarrow> bool \<Rightarrow> process" where
  "process_Init init close =
     \<lparr>has_init = init, has_close = close, cancelled = False, finished = False, jobs = [], crashed = None\<rparr>"

definition close_done :: "process \<Rightarrow> process" where
  "close_done p = (if finished p then p\<lparr>crashed := Some CloseOfClosed\<rparr> else p\<lparr>finished := True\<rparr>)"

text \<open>The goroutine once its initialisation has succeeded: it closes its own channel and goes on.\<close>

definition job_started :: "job \<Rightarrow> job" where
  "job_started j = j\<lparr>started := True, job_pc := (if has_process j then JProcess else JEnd)\<rparr>"

definition new_job :: "bool \<Rightarrow> bool \<Rightarrow> job" where
  "new_job init process =
     (let j = \<lparr>job_pc = JInit, has_process = process, started = False, init_failed = False\<rparr>
      in if init then j else job_started j)"

definition upd_job :: "nat \<Rightarrow> (job \<Rightarrow> job) \<Rightarrow> process \<Rightarrow> process" where
  "upd_job i f p = p\<lparr>jobs := (jobs p)[i := f (jobs p ! i)]\<rparr>"

definition at_job :: "nat \<Rightarrow> job_pc \<Rightarrow> process \<Rightarrow> bool" where
  "at_job i c p \<longleftrightarrow> i < length (jobs p) \<and> job_pc (jobs p ! i) = c"

definition bg_act :: "bg_event \<Rightarrow> process \<Rightarrow> process option" where
  "bg_act ev p = (case ev of
       BRun process \<Rightarrow> Some (p\<lparr>jobs := jobs p @ [new_job (has_init p) process]\<rparr>)
     | BInit i r \<Rightarrow>
         if \<not> at_job i JInit p then None
         else (case r of
             None \<Rightarrow> Some (upd_job i job_started p)
           | Some e \<Rightarrow> Some (upd_job i (\<lambda>j. j\<lparr>job_pc := JEnd, init_failed := True, started := \<not> finished p\<rparr>)
               (close_done p)))
     | BProcess i b \<Rightarrow>
         if \<not> (at_job i JProcess p \<and> (b \<or> cancelled p)) then None
         else if has_close p then Some (upd_job i (\<lambda>j. j\<lparr>job_pc := JClose\<rparr>) p)
         else Some (upd_job i (\<lambda>j. j\<lparr>job_pc := JEnd\<rparr>) (close_done p))
     | BClose i r \<Rightarrow>
         if \<not> at_job i JClose p then None
         else Some (upd_job i (\<lambda>j. j\<lparr>job_pc := JEnd\<rparr>) (close_done p))
     | BStop \<Rightarrow> Some (p\<lparr>cancelled := True\<rparr>))"

definition bg_step :: "bg_event \<Rightarrow> process \<Rightarrow> process option" where
  "bg_step ev p = (if crashed p = None then bg_act ev p else None)"

fun bg_run :: "bg_event list \<Rightarrow> process \<Rightarrow> process option" where
  "bg_run [] p = Some p"
| "bg_run (ev # evs) p = (case bg_step ev p of None \<Rightarrow> None | Some p' \<Rightarrow> bg_run evs p')"

interpretation bg: machine bg_step bg_run
  by unfold_locales simp_all

text \<open>A call of \<open>Stop\<close> or \<open>Wait\<close> returns once \<open>done\<close> is closed.\<close>

definition can_return :: "process \<Rightarrow> bool" where
  "can_return p \<longleftrightarrow> finished p"

lemma close_done_simps [simp]:
  "jobs (close_done p) = jobs p" "has_init (close_done p) = has_init p"
  "has_close (close_done p) = has_close p" "cancelled (close_done p) = cancelled p"
  "finished (close_done p)" "crashed p = None \<Longrightarrow> crashed (close_done p) = None \<longleftrightarrow> \<not> finished p"
  by (simp_all add: close_done_def)

lemma upd_job_simps [simp]:
  "length (jobs (upd_job i f p)) = length (jobs p)" "has_init (upd_job i f p) = has_init p"
  "has_close (upd_job i f p) = has_close p" "cancelled (upd_job i f p) = cancelled p"
  "finished (upd_job i f p) = finished p" "crashed (upd_job i f p) = crashed p"
  "i < length (jobs p) \<Longrightarrow> jobs (upd_job i f p) ! j = (if j = i then f (jobs p ! i) else jobs p ! j)"
  by (simp_all add: upd_job_def nth_list_update)

subsection \<open>Who closes \<open>done\<close>\<close>

text \<open>The goroutines that have closed the channel, or panicked in the attempt.\<close>

definition closer :: "job \<Rightarrow> bool" where
  "closer j \<longleftrightarrow> job_pc j = JEnd \<and> (has_process j \<or> init_failed j)"

definition closers :: "process \<Rightarrow> nat" where
  "closers p = length (filter closer (jobs p))"

definition job_ok :: "process \<Rightarrow> job \<Rightarrow> bool" where
  "job_ok p j \<longleftrightarrow> (case job_pc j of
       JInit \<Rightarrow> has_init p \<and> \<not> started j \<and> \<not> init_failed j
     | JEnd \<Rightarrow> started j \<or> crashed p \<noteq> None
     | _ \<Rightarrow> has_process j \<and> started j \<and> \<not> init_failed j)"

definition bg_inv :: "process \<Rightarrow> bool" where
  "bg_inv p \<longleftrightarrow>
     closers p = (if crashed p \<noteq> None then 2 else if finished p then 1 else 0) \<and>
     (crashed p = None \<or> crashed p = Some CloseOfClosed) \<and>
     (\<forall>i < length (jobs p). job_ok p (jobs p ! i))"

lemma filter_update:
  "i < length xs \<Longrightarrow>
    length (filter P (xs[i := x])) + (if P (xs ! i) then 1 else 0) =
    length (filter P xs) + (if P x then 1 else 0)"
proof (induction xs arbitrary: i)
  case (Cons y ys)
  show ?case
  proof (cases i)
    case (Suc k)
    then show ?thesis using Cons.IH [of k] Cons.prems by (cases "P x"; cases "P (ys ! k)") auto
  qed auto
qed simp

lemma closers_upd:
  assumes "at_job i c p" and "c \<noteq> JEnd" and "jobs q = jobs p"
  shows "closers (upd_job i f q) = closers p + (if closer (f (jobs p ! i)) then 1 else 0)"
  using filter_update [of i "jobs p" closer "f (jobs p ! i)"] assms
  by (simp add: closers_def upd_job_def at_job_def closer_def split: if_splits)

lemma job_ok_new: "job_ok p (new_job (has_init p) b)" "\<not> closer (new_job (has_init p) b)"
  by (auto simp: new_job_def job_started_def job_ok_def closer_def Let_def)

lemma job_ok_mono:
  "job_ok p j \<Longrightarrow> has_init q = has_init p \<Longrightarrow> crashed p = None \<Longrightarrow> job_ok q j"
  by (auto simp: job_ok_def split: job_pc.splits)

text \<open>The end of a goroutine that closes the channel.\<close>

lemma bg_inv_close:
  assumes inv: "bg_inv p" and c: "crashed p = None" and at: "at_job i c p" "c \<noteq> JEnd"
    and f: "closer (f (jobs p ! i))" "job_ok (close_done p) (f (jobs p ! i))"
  shows "bg_inv (upd_job i f (close_done p))"
proof -
  let ?p' = "upd_job i f (close_done p)"
  have "closers ?p' = closers p + 1" using closers_upd [OF at] f(1) by simp
  moreover have "job_ok ?p' (jobs ?p' ! j)" if "j < length (jobs ?p')" for j
  proof -
    have "job_ok ?p' j'" if "job_ok (close_done p) j'" for j'
      using that by (simp add: job_ok_def split: job_pc.splits)
    then show ?thesis
      using that f(2) at(1) job_ok_mono [of p "jobs p ! j" "?p'"] inv c
      by (auto simp: bg_inv_def at_job_def)
  qed
  ultimately show ?thesis
    using inv c by (auto simp: bg_inv_def close_done_def)
qed

lemma bg_inv_move:
  assumes inv: "bg_inv p" and c: "crashed p = None" and at: "at_job i c p" "c \<noteq> JEnd"
    and f: "\<not> closer (f (jobs p ! i))" "job_ok p (f (jobs p ! i))"
  shows "bg_inv (upd_job i f p)"
  using inv c at f closers_upd [OF at, of p f] job_ok_mono [of p _ "upd_job i f p"]
  by (auto simp: bg_inv_def at_job_def)

lemma bg_inv_step:
  assumes inv: "bg_inv p" and step: "bg_step ev p = Some p'"
  shows "bg_inv p'"
proof -
  have c: "crashed p = None" and act: "bg_act ev p = Some p'"
    using step by (auto simp: bg_step_def split: if_splits)
  have ok: "job_ok p (jobs p ! i)" if "at_job i d p" for i d
    using that inv by (simp add: at_job_def bg_inv_def)
  show ?thesis
  proof (cases ev)
    case (BRun b)
    then show ?thesis
      using inv act c job_ok_new [of p b] job_ok_mono [of p _ p']
      by (auto simp: bg_act_def bg_inv_def closers_def nth_append less_Suc_eq)
  next
    case (BInit i r)
    then have at: "at_job i JInit p" using act by (auto simp: bg_act_def split: if_splits)
    show ?thesis
    proof (cases r)
      case None
      then have "p' = upd_job i job_started p" using act BInit at by (simp add: bg_act_def)
      moreover have "\<not> closer (job_started (jobs p ! i))" "job_ok p (job_started (jobs p ! i))"
        using ok [OF at] at by (auto simp: closer_def job_started_def job_ok_def at_job_def)
      ultimately show ?thesis using bg_inv_move [OF inv c at] by simp
    next
      case (Some e)
      then show ?thesis
        using act BInit at bg_inv_close [OF inv c at] ok [OF at]
        by (auto simp: bg_act_def closer_def job_ok_def at_job_def close_done_def)
    qed
  next
    case (BProcess i b)
    then have at: "at_job i JProcess p" using act by (auto simp: bg_act_def split: if_splits)
    then show ?thesis
      using act BProcess bg_inv_close [OF inv c at] bg_inv_move [OF inv c at] ok [OF at]
      by (auto simp: bg_act_def closer_def job_ok_def at_job_def split: if_splits)
  next
    case (BClose i r)
    then have at: "at_job i JClose p" using act by (auto simp: bg_act_def split: if_splits)
    then show ?thesis
      using act BClose bg_inv_close [OF inv c at] ok [OF at]
      by (auto simp: bg_act_def closer_def job_ok_def at_job_def split: if_splits)
  next
    case BStop
    then show ?thesis
      using inv act c job_ok_mono [of p _ p'] by (auto simp: bg_act_def bg_inv_def closers_def)
  qed
qed

lemma bg_inv_init: "bg_inv (process_Init i c)"
  by (simp add: bg_inv_def process_Init_def closers_def)

lemma bg_run_inv: "bg_run evs p = Some p' \<Longrightarrow> bg_inv p \<Longrightarrow> bg_inv p'"
  using bg.run_invariant [of bg_inv] bg_inv_step by blast


subsection \<open>What a process promises\<close>

fun is_run :: "bg_event \<Rightarrow> bool" where
  "is_run (BRun b) = True"
| "is_run ev = False"

lemma jobs_step:
  "bg_step ev p = Some p' \<Longrightarrow> length (jobs p') = length (jobs p) + (if is_run ev then 1 else 0)"
  by (cases ev) (auto simp: bg_step_def bg_act_def split: if_splits option.splits)

lemma jobs_run:
  "bg_run evs p = Some p' \<Longrightarrow> length (jobs p') = length (jobs p) + length (filter is_run evs)"
proof (induction evs arbitrary: p)
  case (Cons ev evs)
  obtain p1 where "bg_step ev p = Some p1" "bg_run evs p1 = Some p'" by (rule bg.run_ConsD [OF Cons.prems])
  then show ?case using Cons.IH [of p1] jobs_step [of ev p p1] by simp
qed simp

lemma filter_one:
  assumes "length (filter P xs) = 1"
  shows "\<exists>!k. k < length xs \<and> P (xs ! k)"
proof -
  obtain x where "{k. k < length xs \<and> P (xs ! k)} = {x}"
    using assms by (auto simp: length_filter_conv_card card_1_singleton_iff)
  then have "k < length xs \<and> P (xs ! k) \<longleftrightarrow> k = x" for k by (simp add: set_eq_iff)
  then show ?thesis by (intro ex1I [of _ x]) simp_all
qed

text \<open>However the calls and returns fall, \<open>done\<close> is closed exactly when one goroutine has come
  to its end, by a failed initialisation or after its process, and this is the only one; and the
  program does not panic unless \<open>Run\<close> was called twice.\<close>

theorem process_done_once:
  assumes "bg_run evs (process_Init i c) = Some p"
  shows "(crashed p = None \<longrightarrow>
      (if finished p then \<exists>!k. k < length (jobs p) \<and> closer (jobs p ! k)
       else list_all (\<lambda>j. \<not> closer j) (jobs p))) \<and>
    (crashed p \<noteq> None \<longrightarrow> crashed p = Some CloseOfClosed \<and> 2 \<le> length (filter is_run evs))"
proof -
  have inv: "bg_inv p" by (rule bg_run_inv [OF assms bg_inv_init])
  have "length (jobs p) = length (filter is_run evs)"
    using jobs_run [OF assms] by (simp add: process_Init_def)
  moreover have "closers p \<le> length (jobs p)" by (simp add: closers_def)
  ultimately show ?thesis
    using inv filter_one [of closer "jobs p"]
    by (auto simp: bg_inv_def closers_def list_all_iff filter_empty_conv split: if_splits)
qed

theorem process_done_once_witness:
  "\<exists>p. bg_run [BRun True, BInit 0 None, BStop, BProcess 0 False, BClose 0 None] (process_Init True True) = Some p \<and>
    (\<exists>!k. k < length (jobs p) \<and> closer (jobs p ! k))"
proof -
  let ?r = "bg_run [BRun True, BInit 0 None, BStop, BProcess 0 False, BClose 0 None] (process_Init True True)"
  have "?r \<noteq> None" "crashed (the ?r) = None" "finished (the ?r)" by code_simp+
  then obtain p where p: "?r = Some p" "crashed p = None" "finished p" by auto
  show ?thesis using process_done_once [OF p(1)] p by auto
qed

text \<open>
  A goroutine that has not come to its end; and one that can come to it with the process function
  as it is: while it initialises or closes, and in the process itself once that is cancelled.
\<close>

definition busy :: "process \<Rightarrow> bool" where
  "busy p \<longleftrightarrow> list_ex (\<lambda>j. job_pc j \<noteq> JEnd) (jobs p)"

definition ending :: "process \<Rightarrow> bool" where
  "ending p \<longleftrightarrow>
     list_ex (\<lambda>j. job_pc j \<in> {JInit, JClose} \<or> job_pc j = JProcess \<and> cancelled p) (jobs p)"

text \<open>What happens when \<open>Run\<close> and \<open>Stop\<close> are not called again and the process does not end by itself.\<close>

definition patient :: "bg_event \<Rightarrow> bool" where
  "patient ev \<longleftrightarrow> (case ev of BRun b \<Rightarrow> False | BStop \<Rightarrow> False | BProcess i b \<Rightarrow> \<not> b | _ \<Rightarrow> True)"

lemma ending_step:
  assumes "\<not> ending p" and "\<not> finished p" and "bg_step ev p = Some p'" and "patient ev"
  shows "\<not> ending p' \<and> \<not> finished p'"
  using assms
  by (cases ev) (fastforce simp: patient_def bg_step_def bg_act_def ending_def at_job_def list_ex_iff split: if_splits)+

lemma ending_run:
  assumes "bg_run evs p = Some p'" and "\<not> ending p" and "\<not> finished p" and "list_all patient evs"
  shows "\<not> finished p'"
  using assms
proof (induction evs arbitrary: p)
  case (Cons ev evs)
  obtain p1 where p1: "bg_step ev p = Some p1" "bg_run evs p1 = Some p'" by (rule bg.run_ConsD [OF Cons.prems(1)])
  then show ?case using ending_step [OF Cons.prems(2,3) p1(1)] Cons by simp
qed simp

lemma ending_finishes:
  assumes "crashed p = None" and "ending p"
  shows "\<exists>evs p'. bg_run evs p = Some p' \<and> list_all patient evs \<and> finished p'"
proof -
  obtain i where i: "i < length (jobs p)"
      "job_pc (jobs p ! i) \<in> {JInit, JClose} \<or> job_pc (jobs p ! i) = JProcess \<and> cancelled p"
    using assms(2) by (auto simp: ending_def list_ex_iff in_set_conv_nth)
  have run: ?thesis if "bg_run evs p = Some p'" "list_all patient evs" "finished p'" for evs p'
    using that by blast
  consider "at_job i JInit p" | "at_job i JProcess p" "cancelled p" "\<not> has_close p"
    | "at_job i JProcess p" "cancelled p" "has_close p" | "at_job i JClose p"
    using i by (auto simp: at_job_def)
  then show ?thesis
  proof cases
    case 1
    then show ?thesis
      using run [of "[BInit i (Some [])]"] assms(1) by (simp add: bg_step_def bg_act_def patient_def)
  next
    case 2
    then show ?thesis
      using run [of "[BProcess i False]"] assms(1) by (simp add: bg_step_def bg_act_def patient_def)
  next
    case 3
    then have "at_job i JClose (upd_job i (\<lambda>j. j\<lparr>job_pc := JClose\<rparr>) p)" by (simp add: at_job_def)
    then show ?thesis
      using run [of "[BProcess i False, BClose i None]"] assms(1) 3
      by (simp add: bg_step_def bg_act_def patient_def)
  next
    case 4
    then show ?thesis
      using run [of "[BClose i None]"] assms(1) by (simp add: bg_step_def bg_act_def patient_def)
  qed
qed

lemma finishes_iff:
  assumes "crashed p = None"
  shows "(\<exists>evs p'. bg_run evs p = Some p' \<and> list_all patient evs \<and> finished p') \<longleftrightarrow> finished p \<or> ending p"
proof
  assume "\<exists>evs p'. bg_run evs p = Some p' \<and> list_all patient evs \<and> finished p'"
  then show "finished p \<or> ending p" using ending_run by blast
next
  assume "finished p \<or> ending p"
  then show "\<exists>evs p'. bg_run evs p = Some p' \<and> list_all patient evs \<and> finished p'"
  proof
    assume "finished p"
    then show ?thesis by (intro exI [of _ "[]"] exI [of _ p]) simp
  qed (rule ending_finishes [OF assms])
qed

text \<open>C34. As long as \<open>Run\<close> and \<open>Stop\<close> are not called again and the process function does not return by
  itself, a call of \<open>Stop\<close> can return exactly when \<open>done\<close> is closed already or some goroutine of
  \<open>Run\<close> is still under way, and a call of \<open>Wait\<close> exactly when \<open>done\<close> is closed already or some
  goroutine initialises, closes, or runs a process that was cancelled. So \<open>Stop\<close> waits for ever when
  it comes before \<open>Run\<close>, and also when \<open>Run\<close> was given no process, which never closes \<open>done\<close>; and
  \<open>Wait\<close>, which cancels nothing, waits for a running process until somebody calls \<open>Stop\<close>.\<close>

theorem stop_returns_iff:
  assumes "crashed p = None"
  shows "((\<exists>evs p'. bg_run (BStop # evs) p = Some p' \<and> list_all patient evs \<and> can_return p') \<longleftrightarrow>
      can_return p \<or> busy p) \<and>
    ((\<exists>evs p'. bg_run evs p = Some p' \<and> list_all patient evs \<and> can_return p') \<longleftrightarrow>
      can_return p \<or> (\<exists>i. at_job i JInit p \<or> at_job i JClose p \<or> at_job i JProcess p \<and> cancelled p))"
proof -
  let ?p = "p\<lparr>cancelled := True\<rparr>"
  have "ending ?p \<longleftrightarrow> busy p"
    by (simp add: ending_def busy_def list_ex_iff) (metis job_pc.exhaust job_pc.distinct(6,10,12))
  moreover have "bg_run (BStop # evs) p = bg_run evs ?p" for evs
    using assms by (simp add: bg_step_def bg_act_def)
  moreover have "ending p \<longleftrightarrow> (\<exists>i. at_job i JInit p \<or> at_job i JClose p \<or> at_job i JProcess p \<and> cancelled p)"
    by (auto simp: ending_def at_job_def list_ex_length)
  ultimately show ?thesis
    using finishes_iff [of ?p] finishes_iff [OF assms] assms
    by (simp add: can_return_def del: bg_run.simps)
qed

text \<open>A running process: \<open>Stop\<close> can return, \<open>Wait\<close> alone cannot.\<close>

theorem stop_returns_iff_witness:
  "\<exists>p. bg_run [BRun True, BInit 0 None] (process_Init True True) = Some p \<and>
    (\<exists>evs p'. bg_run (BStop # evs) p = Some p' \<and> list_all patient evs \<and> can_return p') \<and>
    \<not> (\<exists>evs p'. bg_run evs p = Some p' \<and> list_all patient evs \<and> can_return p')"
proof -
  let ?r = "bg_run [BRun True, BInit 0 None] (process_Init True True)"
  have "?r \<noteq> None" "crashed (the ?r) = None" "busy (the ?r)" "\<not> can_return (the ?r)" "\<not> cancelled (the ?r)"
    "map job_pc (jobs (the ?r)) = [JProcess]"
    by code_simp+
  then obtain p where p: "?r = Some p" "crashed p = None" "busy p" "\<not> can_return p" "\<not> cancelled p"
      "map job_pc (jobs p) = [JProcess]" by auto
  have "\<not> at_job i JInit p" "\<not> at_job i JClose p" for i
    using p(6) by (auto simp: at_job_def)
  then show ?thesis using stop_returns_iff [OF p(2)] p by blast
qed

end
