(* ===== verification/Net_Routing.thy ===== *)
theory Net_Routing
  imports Go_Net "HOL-Library.Multiset"
begin

text \<open>
  \<open>routing/routing_linux.go\<close>: the routing table of the host and the lookups in it, by which
  the program finds the DHCP server (the gateway) and its own address. The table is built from
  what \<open>syscall\<close> and \<open>net\<close> report: the parsed netlink messages and the interfaces are arguments
  of \<open>New\<close>. \<open>sort.Sort\<close> is not stable, so the sorting function is an argument too; the only
  thing assumed of it is that it sorts (locale \<open>sorter\<close>).

  A word read through \<open>unsafe.Pointer\<close> from fewer than four bytes is not defined by Go; the
  model counts it as a panic. A route message shorter than its fixed part of 12 bytes makes
  \<open>ParseNetlinkRouteAttr\<close> panic.
\<close>

subsection \<open>Networks\<close>

record ipnet =
  net_ip :: ip
  net_mask :: "bytes option"

text \<open>\<open>net.CIDRMask\<close> and \<open>IPNet.Contains\<close>.\<close>

fun mask_bytes :: "nat \<Rightarrow> nat \<Rightarrow> bytes" where
  "mask_bytes 0 n = []"
| "mask_bytes (Suc l) n =
     (if 8 \<le> n then 255 # mask_bytes l (n - 8) else NOT (drop_bit n 255) # mask_bytes l 0)"

definition CIDRMask :: "nat \<Rightarrow> nat \<Rightarrow> bytes option" where
  "CIDRMask ones bits =
     (if bits \<noteq> 32 \<and> bits \<noteq> 128 then None
      else if bits < ones then None
      else Some (mask_bytes (bits div 8) ones))"

definition network :: "ipnet \<Rightarrow> (bytes \<times> bytes) option" where
  "network n =
     (case (case to4 (net_ip n) of
              Some b \<Rightarrow> Some b
            | None \<Rightarrow> if length (slice_bytes (net_ip n)) = 16 then net_ip n else None) of
        None \<Rightarrow> None
      | Some b \<Rightarrow>
          let m = slice_bytes (net_mask n) in
          if length m = 4 then (if length b = 4 then Some (b, m) else None)
          else if length m = 16 then Some (b, if length b = 4 then drop 12 m else m)
          else None)"

definition net_contains :: "ipnet \<Rightarrow> ip \<Rightarrow> bool" where
  "net_contains n a =
     (let x = slice_bytes (if to4 a \<noteq> None then to4 a else a);
          (nn, m) = (case network n of None \<Rightarrow> ([], []) | Some p \<Rightarrow> p)
      in length x = length nn \<and> list_all (\<lambda>(u, k, v). u AND k = v AND k) (zip nn (zip m x)))"

subsection \<open>Routes\<close>

record rt_info =
  Src :: "ipnet option"
  Dst :: "ipnet option"
  Gateway :: ip
  PrefSrc :: ip
  InputIface :: u32
  OutputIface :: u32
  Priority :: u32

record interface =
  Index :: int
  HardwareAddr :: bytes

record ip_addrs =
  addr_v4 :: ip
  addr_v6 :: ip

record router =
  ifaces :: "interface list"
  addrs :: "ip_addrs list"
  routes4 :: "rt_info list"
  routes6 :: "rt_info list"

definition matches :: "u32 \<Rightarrow> ip \<Rightarrow> ip \<Rightarrow> rt_info \<Rightarrow> bool" where
  "matches inputIndex src dst rt \<longleftrightarrow>
     \<not> (InputIface rt \<noteq> 0 \<and> InputIface rt \<noteq> inputIndex) \<and>
     \<not> (case Src rt of Some n \<Rightarrow> \<not> net_contains n src | None \<Rightarrow> False) \<and>
     \<not> (case Dst rt of Some n \<Rightarrow> \<not> net_contains n dst | None \<Rightarrow> False)"

text \<open>The index is one more than the position in the list, in 32 bits.\<close>

fun input_index :: "nat \<Rightarrow> interface list \<Rightarrow> bytes \<Rightarrow> u32" where
  "input_index i [] input = 0"
| "input_index i (f # fs) input =
     (if input = HardwareAddr f then of_nat (i + 1) else input_index (Suc i) fs input)"

fun first_match :: "u32 \<Rightarrow> ip \<Rightarrow> ip \<Rightarrow> rt_info list \<Rightarrow> rt_info option" where
  "first_match inputIndex src dst [] = None"
| "first_match inputIndex src dst (rt # rts) =
     (if \<not> matches inputIndex src dst rt then first_match inputIndex src dst rts else Some rt)"

type_synonym route_result = "int \<times> ip \<times> ip \<times> string option"

definition route :: "router \<Rightarrow> rt_info list \<Rightarrow> bytes option \<Rightarrow> ip \<Rightarrow> ip \<Rightarrow> route_result" where
  "route r routes input src dst =
     (let inputIndex = (case input of Some hw \<Rightarrow> input_index 0 (ifaces r) hw | None \<Rightarrow> 0) in
      case first_match inputIndex src dst routes of
        Some rt \<Rightarrow> (uint (OutputIface rt), Gateway rt, PrefSrc rt, None)
      | None \<Rightarrow> (0, None, None, Some (''no route found for '' @ ip_string dst)))"

text \<open>The loop over the interfaces: the interface and the source address found.\<close>

fun find_iface ::
  "ip_addrs list \<Rightarrow> int \<Rightarrow> ip \<Rightarrow> nat \<Rightarrow> interface list \<Rightarrow> (interface option \<times> ip) result" where
  "find_iface ads idx dst i [] = Inr (None, None)"
| "find_iface ads idx dst i (f # fs) =
     (if Index f = idx then
        if to4 dst \<noteq> None then bind_r (index_r ads i) (\<lambda>a. Inr (Some f, addr_v4 a))
        else if to16 dst \<noteq> None then bind_r (index_r ads i) (\<lambda>a. Inr (Some f, addr_v6 a))
        else Inr (Some f, None)
      else find_iface ads idx dst (Suc i) fs)"

definition RouteWithSrc ::
  "router \<Rightarrow> bytes option \<Rightarrow> ip \<Rightarrow> ip \<Rightarrow> (interface option \<times> ip \<times> ip \<times> string option) result" where
  "RouteWithSrc r input src dst =
     (if to4 dst = None \<and> to16 dst = None
      then Inr (None, None, None, Some ''IP is not valid as IPv4 or IPv6'')
      else
        let (idx, gateway, pref, e) =
              route r (if to4 dst \<noteq> None then routes4 r else routes6 r) input src dst in
        if pref = None
        then bind_r (find_iface (addrs r) idx dst 0 (ifaces r)) (\<lambda>(f, a). Inr (f, gateway, a, e))
        else Inr (None, gateway, pref, e))"

definition Route :: "router \<Rightarrow> ip \<Rightarrow> (interface option \<times> ip \<times> ip \<times> string option) result" where
  "Route r dst = RouteWithSrc r None None dst"

subsection \<open>Building the table\<close>

text \<open>
  A netlink message as \<open>syscall.ParseNetlinkMessage\<close> gives it, with what
  \<open>ParseNetlinkRouteAttr\<close> answers for it, and the constants of \<open>syscall\<close>.
\<close>

record nl_attr =
  attr_type :: nat
  attr_value :: bytes

record nl_message =
  nl_type :: nat
  nl_data :: bytes
  nl_attrs :: "string + nl_attr list"

definition NLMSG_DONE :: nat where "NLMSG_DONE = 3"
definition RTM_NEWROUTE :: nat where "RTM_NEWROUTE = 24"
definition AF_INET :: byte where "AF_INET = 2"
definition AF_INET6 :: byte where "AF_INET6 = 10"

definition prefix_net :: "byte \<Rightarrow> bytes \<Rightarrow> ipnet" where
  "prefix_net len v = \<lparr>net_ip = Some v, net_mask = CIDRMask (unat len) (length v * 8)\<rparr>"

definition add_attr :: "byte \<Rightarrow> byte \<Rightarrow> nl_attr \<Rightarrow> rt_info \<Rightarrow> rt_info result" where
  "add_attr dstLen srcLen a ri =
     (let v = attr_value a in
      if attr_type a = 1 then Inr (ri\<lparr>Dst := Some (prefix_net dstLen v)\<rparr>)
      else if attr_type a = 2 then Inr (ri\<lparr>Src := Some (prefix_net srcLen v)\<rparr>)
      else if attr_type a = 5 then Inr (ri\<lparr>Gateway := Some v\<rparr>)
      else if attr_type a = 7 then Inr (ri\<lparr>PrefSrc := Some v\<rparr>)
      else if attr_type a = 3 then bind_r (le_uint32 v) (\<lambda>n. Inr (ri\<lparr>InputIface := n\<rparr>))
      else if attr_type a = 4 then bind_r (le_uint32 v) (\<lambda>n. Inr (ri\<lparr>OutputIface := n\<rparr>))
      else if attr_type a = 6 then bind_r (le_uint32 v) (\<lambda>n. Inr (ri\<lparr>Priority := n\<rparr>))
      else Inr ri)"

fun add_attrs :: "byte \<Rightarrow> byte \<Rightarrow> nl_attr list \<Rightarrow> rt_info \<Rightarrow> rt_info result" where
  "add_attrs dstLen srcLen [] ri = Inr ri"
| "add_attrs dstLen srcLen (a # as) ri =
     bind_r (add_attr dstLen srcLen a ri) (add_attrs dstLen srcLen as)"

definition empty_route :: rt_info where
  "empty_route = \<lparr>Src = None, Dst = None, Gateway = None, PrefSrc = None, InputIface = 0,
     OutputIface = 0, Priority = 0\<rparr>"

text \<open>The loop over the messages; an error of \<open>ParseNetlinkRouteAttr\<close> ends it.\<close>

fun read_routes ::
  "nl_message list \<Rightarrow> rt_info list \<times> rt_info list \<Rightarrow> (string + rt_info list \<times> rt_info list) result" where
  "read_routes [] (v4, v6) = Inr (Inr (v4, v6))"
| "read_routes (m # ms) (v4, v6) =
     (if nl_type m = NLMSG_DONE then Inr (Inr (v4, v6))
      else if nl_type m = RTM_NEWROUTE then
        if length (nl_data m) < 12 then Inl IndexOutOfRange
        else
        let family = nl_data m ! 0 in
        (case nl_attrs m of
          Inl e \<Rightarrow> Inr (Inl e)
        | Inr attrs \<Rightarrow>
            if family = AF_INET \<or> family = AF_INET6 then
              bind_r (add_attrs (nl_data m ! 1) (nl_data m ! 2) attrs empty_route) (\<lambda>ri.
                if family = AF_INET then read_routes ms (v4 @ [ri], v6)
                else read_routes ms (v4, v6 @ [ri]))
            else read_routes ms (v4, v6))
      else read_routes ms (v4, v6))"

text \<open>
  The addresses of an interface: the first of each family, as \<open>*net.IPNet\<close> (\<open>Some\<close>) or
  another kind of address (\<open>None\<close>).
\<close>

definition add_addr :: "ip option \<Rightarrow> ip_addrs \<Rightarrow> ip_addrs" where
  "add_addr addr ads =
     (case addr of
        None \<Rightarrow> ads
      | Some a \<Rightarrow>
          if to4 a \<noteq> None then (if addr_v4 ads = None then ads\<lparr>addr_v4 := to4 a\<rparr> else ads)
          else if addr_v6 ads = None then ads\<lparr>addr_v6 := a\<rparr> else ads)"

fun read_ifaces ::
  "(interface \<times> (string + ip option list)) list \<Rightarrow> router \<Rightarrow> string + router" where
  "read_ifaces [] r = Inr r"
| "read_ifaces ((f, ads) # fs) r =
     (case ads of
        Inl e \<Rightarrow> Inl e
      | Inr as \<Rightarrow> read_ifaces fs (r\<lparr>ifaces := ifaces r @ [f],
          addrs := addrs r @ [fold add_addr as \<lparr>addr_v4 = None, addr_v6 = None\<rparr>]\<rparr>))"

definition New ::
  "(rt_info list \<Rightarrow> rt_info list) \<Rightarrow> string + nl_message list \<Rightarrow>
     string + (interface \<times> (string + ip option list)) list \<Rightarrow> (string + router) result" where
  "New srt msgs ifs =
     (case msgs of
        Inl e \<Rightarrow> Inr (Inl e)
      | Inr ms \<Rightarrow>
          bind_r (read_routes ms ([], [])) (\<lambda>res.
          case res of
            Inl e \<Rightarrow> Inr (Inl e)
          | Inr (v4, v6) \<Rightarrow>
              (case ifs of
                 Inl e \<Rightarrow> Inr (Inl e)
               | Inr fs \<Rightarrow> Inr (read_ifaces fs
                   \<lparr>ifaces = [], addrs = [], routes4 = srt v4, routes6 = srt v6\<rparr>))))"

subsection \<open>The chosen route\<close>

text \<open>What the lookup relies on: the table is sorted by priority and nothing is lost.\<close>

locale sorter =
  fixes srt :: "rt_info list \<Rightarrow> rt_info list"
  assumes srt_perm: "mset (srt l) = mset l"
    and srt_sorted: "sorted (map Priority (srt l))"
begin

lemma srt_set: "set (srt l) = set l"
  using srt_perm by (metis set_mset_mset)

lemma first_match_best:
  "first_match i src dst (srt l) = Some rt \<Longrightarrow>
     rt \<in> set l \<and> matches i src dst rt \<and>
     (\<forall>rt' \<in> set l. matches i src dst rt' \<longrightarrow> Priority rt \<le> Priority rt')"
proof -
  have "sorted (map Priority xs) \<Longrightarrow> first_match i src dst xs = Some rt \<Longrightarrow>
      rt \<in> set xs \<and> matches i src dst rt \<and>
      (\<forall>rt' \<in> set xs. matches i src dst rt' \<longrightarrow> Priority rt \<le> Priority rt')" for xs
    by (induction xs) (auto split: if_splits)
  from this [OF srt_sorted] show "first_match i src dst (srt l) = Some rt \<Longrightarrow> ?thesis"
    by (simp add: srt_set)
qed

lemma first_match_none:
  "first_match i src dst (srt l) = None \<longleftrightarrow> (\<forall>rt \<in> set l. \<not> matches i src dst rt)"
proof -
  have "first_match i src dst xs = None \<longleftrightarrow> (\<forall>rt \<in> set xs. \<not> matches i src dst rt)" for xs
    by (induction xs) auto
  then show ?thesis by (simp add: srt_set)
qed

end

interpretation by_priority: sorter "sort_key Priority"
  by unfold_locales simp_all

text \<open>The route a message stands for, if it is one of the family.\<close>

definition decode_route :: "byte \<Rightarrow> nl_message \<Rightarrow> rt_info option" where
  "decode_route family m =
     (if nl_type m = RTM_NEWROUTE \<and> 12 \<le> length (nl_data m) \<and> nl_data m ! 0 = family
      then (case nl_attrs m of
              Inl e \<Rightarrow> None
            | Inr attrs \<Rightarrow>
                (case add_attrs (nl_data m ! 1) (nl_data m ! 2) attrs empty_route of
                   Inl p \<Rightarrow> None | Inr ri \<Rightarrow> Some ri))
      else None)"

definition decoded :: "byte \<Rightarrow> nl_message list \<Rightarrow> rt_info list" where
  "decoded family ms =
     List.map_filter (decode_route family) (takeWhile (\<lambda>m. nl_type m \<noteq> NLMSG_DONE) ms)"

lemma nl_type_distinct [simp]: "RTM_NEWROUTE \<noteq> NLMSG_DONE" "NLMSG_DONE \<noteq> RTM_NEWROUTE"
  "AF_INET \<noteq> AF_INET6" "AF_INET6 \<noteq> AF_INET"
  by (simp_all add: RTM_NEWROUTE_def NLMSG_DONE_def AF_INET_def AF_INET6_def)

lemma decoded_Cons:
  "decoded family (m # ms) =
     (if nl_type m = NLMSG_DONE then []
      else (case decode_route family m of Some r \<Rightarrow> [r] | None \<Rightarrow> []) @ decoded family ms)"
  by (simp add: decoded_def map_filter_simps split: option.split)

lemma read_routes_decoded:
  "read_routes ms (a, b) = Inr (Inr (v4, v6)) \<Longrightarrow>
     v4 = a @ decoded AF_INET ms \<and> v6 = b @ decoded AF_INET6 ms"
proof (induction ms arbitrary: a b)
  case Nil
  then show ?case by (simp add: decoded_def map_filter_simps)
next
  case (Cons m ms)
  show ?case
    using Cons.prems
    by (auto simp: decoded_Cons decode_route_def bind_r_eq_Inr Let_def dest!: Cons.IH
        split: if_splits sum.splits option.splits)
qed

lemma read_ifaces_spec:
  "read_ifaces fs r = Inr r' \<Longrightarrow>
     ifaces r' = ifaces r @ map fst fs \<and> routes4 r' = routes4 r \<and> routes6 r' = routes6 r \<and>
     addrs r' = addrs r @ map (\<lambda>(f, ads). case ads of
       Inl e \<Rightarrow> \<lparr>addr_v4 = None, addr_v6 = None\<rparr>
     | Inr as \<Rightarrow> fold add_addr as \<lparr>addr_v4 = None, addr_v6 = None\<rparr>) fs"
  by (induction fs arbitrary: r) (auto split: sum.splits)

lemma New_fields:
  assumes "New srt (Inr ms) (Inr fs) = Inr (Inr r)"
  shows "routes4 r = srt (decoded AF_INET ms)" "routes6 r = srt (decoded AF_INET6 ms)"
    "ifaces r = map fst fs" "length (addrs r) = length (ifaces r)"
proof -
  obtain v4 v6 where v: "read_routes ms ([], []) = Inr (Inr (v4, v6))"
    and r: "read_ifaces fs \<lparr>ifaces = [], addrs = [], routes4 = srt v4, routes6 = srt v6\<rparr> = Inr r"
    using assms by (auto simp: New_def bind_r_def split: sum.splits prod.splits)
  show "routes4 r = srt (decoded AF_INET ms)" "routes6 r = srt (decoded AF_INET6 ms)"
    "ifaces r = map fst fs" "length (addrs r) = length (ifaces r)"
    using read_routes_decoded [OF v] read_ifaces_spec [OF r] by auto
qed

text \<open>The route that the lookup in one of the two tables picks.\<close>

lemma route_best:
  assumes "sorter srt" and "New srt (Inr ms) (Inr fs) = Inr (Inr r)"
  shows "case route r (if ipv then routes4 r else routes6 r) input src dst of (idx, gw, pref, e) \<Rightarrow>
    let i = (case input of Some hw \<Rightarrow> input_index 0 (ifaces r) hw | None \<Rightarrow> 0);
        table = decoded (if ipv then AF_INET else AF_INET6) ms in
    (e = None \<longleftrightarrow> (\<exists>rt \<in> set table. matches i src dst rt)) \<and>
    (e = None \<longrightarrow> (\<exists>rt \<in> set table. matches i src dst rt \<and>
       (\<forall>rt' \<in> set table. matches i src dst rt' \<longrightarrow> Priority rt \<le> Priority rt') \<and>
       idx = uint (OutputIface rt) \<and> gw = Gateway rt \<and> pref = PrefSrc rt))"
proof -
  let ?i = "case input of Some hw \<Rightarrow> input_index 0 (ifaces r) hw | None \<Rightarrow> 0"
  let ?table = "decoded (if ipv then AF_INET else AF_INET6) ms"
  have t: "(if ipv then routes4 r else routes6 r) = srt ?table"
    using New_fields [OF assms(2)] by simp
  show ?thesis
  proof (cases "first_match ?i src dst (srt ?table)")
    case None
    then show ?thesis
      using sorter.first_match_none [OF assms(1), of ?i src dst ?table] unfolding t
      by (simp add: route_def Let_def)
  next
    case (Some rt)
    then show ?thesis
      using sorter.first_match_best [OF assms(1) Some] unfolding t
      by (auto simp: route_def Let_def)
  qed
qed

definition sample_messages :: "nl_message list" where
  "sample_messages =
     [\<lparr>nl_type = 24, nl_data = [2, 0, 0, 0, 254, 0, 0, 1, 0, 0, 0, 0],
       nl_attrs = Inr [\<lparr>attr_type = 5, attr_value = [192, 168, 1, 1]\<rparr>,
         \<lparr>attr_type = 4, attr_value = [2, 0, 0, 0]\<rparr>, \<lparr>attr_type = 6, attr_value = [100, 0, 0, 0]\<rparr>]\<rparr>,
      \<lparr>nl_type = 24, nl_data = [2, 24, 0, 0, 254, 0, 0, 1, 0, 0, 0, 0],
       nl_attrs = Inr [\<lparr>attr_type = 1, attr_value = [192, 168, 1, 0]\<rparr>,
         \<lparr>attr_type = 7, attr_value = [192, 168, 1, 46]\<rparr>, \<lparr>attr_type = 4, attr_value = [2, 0, 0, 0]\<rparr>]\<rparr>,
      \<lparr>nl_type = 3, nl_data = [], nl_attrs = Inr []\<rparr>]"

definition sample_ifaces :: "(interface \<times> (string + ip option list)) list" where
  "sample_ifaces =
     [(\<lparr>Index = 1, HardwareAddr = []\<rparr>, Inr [Some (Some [127, 0, 0, 1])]),
      (\<lparr>Index = 2, HardwareAddr = [0, 1, 2, 3, 4, 5]\<rparr>,
       Inr [None, Some (Some (v4_prefix @ [192, 168, 1, 46]))])]"

definition sample_router :: router where
  "sample_router = (case New (sort_key Priority) (Inr sample_messages) (Inr sample_ifaces) of
     Inr (Inr r) \<Rightarrow> r | _ \<Rightarrow> \<lparr>ifaces = [], addrs = [], routes4 = [], routes6 = []\<rparr>)"

lemma sample_router_New:
  "New (sort_key Priority) (Inr sample_messages) (Inr sample_ifaces) = Inr (Inr sample_router)"
  by code_simp

subsection \<open>The source address\<close>

lemma find_iface_ok:
  "i + length fs \<le> length ads \<Longrightarrow> \<exists>f a. find_iface ads idx dst i fs = Inr (f, a) \<and>
     (f = None \<longrightarrow> a = None \<and> idx \<notin> Index ` set fs) \<and> (\<forall>x. f = Some x \<longrightarrow> x \<in> set fs \<and> Index x = idx)"
proof (induction fs arbitrary: i)
  case Nil
  then show ?case by simp
next
  case (Cons g fs)
  have i: "i < length ads" "Suc i + length fs \<le> length ads" using Cons.prems by simp_all
  show ?case
  proof (cases "Index g = idx")
    case True
    then show ?thesis using i(1) by (simp add: index_r_def)
  next
    case False
    obtain f a where "find_iface ads idx dst (Suc i) fs = Inr (f, a)"
      "f = None \<longrightarrow> a = None \<and> idx \<notin> Index ` set fs" "\<forall>x. f = Some x \<longrightarrow> x \<in> set fs \<and> Index x = idx"
      using Cons.IH [OF i(2)] by blast
    then show ?thesis using False by auto
  qed
qed

text \<open>The address of an interface, as it is documented: the first one of the family it has.\<close>

definition iface_addr :: "bool \<Rightarrow> ip option list \<Rightarrow> ip" where
  "iface_addr v4 as =
     (case filter (\<lambda>a. if v4 then to4 a \<noteq> None else a \<noteq> None \<and> to4 a = None) (List.map_filter id as) of
        [] \<Rightarrow> None
      | a # _ \<Rightarrow> if v4 then to4 a else a)"

lemma iface_addr_simps:
  "iface_addr v4 [] = None"
  "iface_addr v4 (a # as) = (case a of None \<Rightarrow> iface_addr v4 as
     | Some b \<Rightarrow> if (if v4 then to4 b \<noteq> None else b \<noteq> None \<and> to4 b = None) then (if v4 then to4 b else b)
         else iface_addr v4 as)"
  by (simp_all add: iface_addr_def map_filter_simps split: option.split)

lemma add_addr_simps:
  "addr_v4 (add_addr a ads) = (if addr_v4 ads = None then (case a of None \<Rightarrow> None | Some b \<Rightarrow> to4 b) else addr_v4 ads)"
  "addr_v6 (add_addr a ads) = (if addr_v6 ads = None
     then (case a of None \<Rightarrow> None | Some b \<Rightarrow> if to4 b \<noteq> None then None else b) else addr_v6 ads)"
  by (auto simp: add_addr_def split: option.split)

lemma fold_add_addr:
  "addr_v4 (fold add_addr as ads) = (if addr_v4 ads = None then iface_addr True as else addr_v4 ads) \<and>
   addr_v6 (fold add_addr as ads) = (if addr_v6 ads = None then iface_addr False as else addr_v6 ads)"
  by (induction as arbitrary: ads) (auto simp: iface_addr_simps add_addr_simps split: option.splits if_splits)

lemma read_ifaces_ok: "read_ifaces fs r = Inr r' \<Longrightarrow> (g, ads) \<in> set fs \<Longrightarrow> \<exists>as. ads = Inr as"
  by (induction fs arbitrary: r) (auto split: sum.splits)

lemma New_addrs:
  assumes "New srt (Inr ms) (Inr fs) = Inr (Inr r)" and "k < length fs"
  obtains g as where "fs ! k = (g, Inr as)" "ifaces r ! k = g" "addr_v4 (addrs r ! k) = iface_addr True as"
    "addr_v6 (addrs r ! k) = iface_addr False as"
proof -
  obtain v4 v6 where r: "read_ifaces fs \<lparr>ifaces = [], addrs = [], routes4 = v4, routes6 = v6\<rparr> = Inr r"
    using assms(1) by (auto simp: New_def bind_r_def split: sum.splits prod.splits)
  obtain g ads where g: "fs ! k = (g, ads)" by fastforce
  then have "(g, ads) \<in> set fs" using assms(2) by (metis nth_mem)
  then obtain as where as: "ads = Inr as" using read_ifaces_ok [OF r] by blast
  show thesis
    using that [of g as] g as read_ifaces_spec [OF r] assms(2)
      fold_add_addr [of as "\<lparr>addr_v4 = None, addr_v6 = None\<rparr>"] by simp
qed

lemma find_iface_addr:
  "find_iface ads idx dst i fs = Inr (Some f, a) \<Longrightarrow> to4 dst \<noteq> None \<or> to16 dst \<noteq> None \<Longrightarrow>
    \<exists>k < length fs. fs ! k = f \<and> Index f = idx \<and>
      a = (if to4 dst \<noteq> None then addr_v4 (ads ! (i + k)) else addr_v6 (ads ! (i + k)))"
proof (induction fs arbitrary: i)
  case (Cons g fs)
  show ?case
  proof (cases "Index g = idx")
    case True
    then show ?thesis
      using Cons.prems by (intro exI [of _ 0]) (auto simp: bind_r_eq_Inr index_r_def split: if_splits)
  next
    case False
    then obtain k where "k < length fs" "fs ! k = f" "Index f = idx"
        "a = (if to4 dst \<noteq> None then addr_v4 (ads ! (Suc i + k)) else addr_v6 (ads ! (Suc i + k)))"
      using Cons.IH [of "Suc i"] Cons.prems by auto
    then show ?thesis by (intro exI [of _ "Suc k"]) simp
  qed
qed simp

text \<open>
  What it means that a route fits: it is for any input interface or for the one with the given
  hardware address, and the networks it names, if any, contain source and destination.
\<close>

definition fits :: "u32 \<Rightarrow> ip \<Rightarrow> ip \<Rightarrow> rt_info \<Rightarrow> bool" where
  "fits i src dst rt \<longleftrightarrow> InputIface rt \<in> {0, i} \<and> (\<forall>n. Src rt = Some n \<longrightarrow> net_contains n src) \<and>
     (\<forall>n. Dst rt = Some n \<longrightarrow> net_contains n dst)"

lemma matches_fits: "matches = fits"
  by (intro ext) (auto simp: matches_def fits_def split: option.splits)

lemma network_length: "network n = Some (b, m) \<Longrightarrow> b \<noteq> []"
  by (auto simp: network_def to4_def slice_bytes_def is_v4_in_v6_def Let_def split: option.splits if_splits)

text \<open>A network, unless it is malformed, does not contain the missing address.\<close>

lemma contains_nil: "net_contains n None \<longleftrightarrow> network n = None"
  using network_length
  by (cases "network n") (auto simp: net_contains_def to4_def slice_bytes_def Let_def)

text \<open>
  Interface and source address that go with a route: its preferred source, or else the interface with
  its index and the first address of the family that this interface has.
\<close>

definition source_of ::
  "(interface \<times> (string + ip option list)) list \<Rightarrow> bool \<Rightarrow> rt_info \<Rightarrow> interface option \<Rightarrow> ip \<Rightarrow> bool" where
  "source_of fs v4 rt f a \<longleftrightarrow> (case PrefSrc rt of
       Some b \<Rightarrow> f = None \<and> a = Some b
     | None \<Rightarrow> (case f of
           None \<Rightarrow> a = None \<and> (\<forall>g \<in> set fs. Index (fst g) \<noteq> uint (OutputIface rt))
         | Some x \<Rightarrow> Index x = uint (OutputIface rt) \<and>
             (\<exists>as. (x, Inr as) \<in> set fs \<and> a = iface_addr v4 as)))"


text \<open>
  A lookup in a table that \<open>New\<close> built never panics, and an interface is returned only
  for a route without a preferred source address (the comment of the interface promises one
  always): then it is the interface with the route's index and the source is an address of it.
\<close>

theorem route_interface:
  assumes "New srt (Inr ms) (Inr fs) = Inr (Inr r)"
  shows "\<exists>f gw a e. RouteWithSrc r input src dst = Inr (f, gw, a, e) \<and>
    (case route r (if to4 dst \<noteq> None then routes4 r else routes6 r) input src dst of (idx, gw', pref, e') \<Rightarrow>
      (to4 dst \<noteq> None \<or> to16 dst \<noteq> None \<longrightarrow> gw = gw' \<and> e = e' \<and>
        (pref \<noteq> None \<longrightarrow> f = None \<and> a = pref) \<and>
        (pref = None \<longrightarrow> (f = None \<longrightarrow> a = None) \<and>
           (\<forall>x. f = Some x \<longrightarrow> x \<in> fst ` set fs \<and> Index x = idx)))) \<and>
    (to4 dst = None \<and> to16 dst = None \<longrightarrow> f = None \<and> gw = None \<and> a = None \<and> e \<noteq> None)"
proof (cases "to4 dst = None \<and> to16 dst = None")
  case True
  then show ?thesis by (simp add: RouteWithSrc_def split: prod.split)
next
  case False
  obtain idx gw pref e where rt:
    "route r (if to4 dst \<noteq> None then routes4 r else routes6 r) input src dst = (idx, gw, pref, e)"
    by (cases "route r (if to4 dst \<noteq> None then routes4 r else routes6 r) input src dst") auto
  obtain f a where "find_iface (addrs r) idx dst 0 (ifaces r) = Inr (f, a)"
    "f = None \<longrightarrow> a = None" "\<forall>x. f = Some x \<longrightarrow> x \<in> set (ifaces r) \<and> Index x = idx"
    using find_iface_ok [of 0 "ifaces r" "addrs r" idx dst] New_fields(4) [OF assms] by auto
  then show ?thesis
    using False rt New_fields(3) [OF assms]
    by (cases "pref = None") (auto simp: RouteWithSrc_def Let_def)
qed

lemma route_lookup_example:
  "Route sample_router (Some [1, 1, 1, 1]) = Inr (Some \<lparr>Index = 2, HardwareAddr = [0, 1, 2, 3, 4, 5]\<rparr>,
     Some [192, 168, 1, 1], Some [192, 168, 1, 46], None)"
  by code_simp


theorem route_interface_witness:
  "Route sample_router (Some [1, 1, 1, 1]) = Inr (Some \<lparr>Index = 2, HardwareAddr = [0, 1, 2, 3, 4, 5]\<rparr>,
     Some [192, 168, 1, 1], Some [192, 168, 1, 46], None) \<and>
   (\<exists>gw a e. Route sample_router (Some [192, 168, 1, 7]) = Inr (None, gw, a, e))"
proof
  show "Route sample_router (Some [1, 1, 1, 1]) = Inr (Some \<lparr>Index = 2, HardwareAddr = [0, 1, 2, 3, 4, 5]\<rparr>,
     Some [192, 168, 1, 1], Some [192, 168, 1, 46], None)" by code_simp
  have "route sample_router (routes4 sample_router) None None (Some [192, 168, 1, 7]) =
      (2, None, Some [192, 168, 1, 46], None)" by code_simp
  then show "\<exists>gw a e. Route sample_router (Some [192, 168, 1, 7]) = Inr (None, gw, a, e)"
    using route_interface [OF sample_router_New, of None None "Some [192, 168, 1, 7]"]
    by (auto simp: Route_def)
qed

end
