(* ===== verification/Conn_Types.thy ===== *)
theory Conn_Types
  imports Go_Net
begin

text \<open>
  \<open>dhcp/types.go\<close>: the names of the connection types, as they are read from the command line
  and from YAML, JSON and XML. A connection type is a string. The decoders of the three
  formats are library calls; what they hand over is an argument, an error or a text.
\<close>

definition AutoDetect :: string where "AutoDetect = ''auto''"
definition UDP :: string where "UDP = ''udp''"
definition Dual :: string where "Dual = ''dual''"
definition Fritzbox :: string where "Fritzbox = ''fritzbox''"
definition Broken :: string where "Broken = ''broken''"
definition Packet :: string where "Packet = ''packet''"

definition conn_type_string :: "string \<Rightarrow> string" where
  "conn_type_string c = c"

definition AllConnectionTypes :: "string list" where
  "AllConnectionTypes =
     [conn_type_string UDP, conn_type_string Dual, conn_type_string Fritzbox,
      conn_type_string Packet, conn_type_string Broken]"

text \<open>\<open>Parse\<close>, on the old value of the variable; a case of the Go switch does not fall through.\<close>

definition parse_conn_type :: "string \<Rightarrow> string \<Rightarrow> string + string" where
  "parse_conn_type c txt =
     (if txt = AutoDetect then Inr c
      else if txt = '''' then Inr AutoDetect
      else if txt = UDP then Inr UDP
      else if txt = Dual then Inr Dual
      else if txt = Packet then Inr Packet
      else if txt = Fritzbox then Inr Fritzbox
      else if txt = Broken then Inr Broken
      else Inl (''unknown connection type '' @ [CHR 0x27] @ txt @ [CHR 0x27]))"

definition unmarshal_yaml :: "string \<Rightarrow> string \<Rightarrow> string + string" where
  "unmarshal_yaml c v = parse_conn_type c v"

definition unmarshal_json :: "string \<Rightarrow> string + string \<Rightarrow> string + string" where
  "unmarshal_json c decoded = (case decoded of Inl e \<Rightarrow> Inl e | Inr txt \<Rightarrow> parse_conn_type c txt)"

definition unmarshal_xml :: "string \<Rightarrow> string + string \<Rightarrow> string + string" where
  "unmarshal_xml c decoded = (case decoded of Inl e \<Rightarrow> Inl e | Inr txt \<Rightarrow> parse_conn_type c txt)"

text \<open>The text that \<open>MarshalYAML\<close>, \<open>MarshalJSON\<close> and \<open>MarshalXML\<close> hand to their encoders.\<close>

definition marshal_conn_type :: "string \<Rightarrow> string" where
  "marshal_conn_type c = conn_type_string c"

lemmas conn_type_defs =
  AutoDetect_def UDP_def Dual_def Fritzbox_def Broken_def Packet_def conn_type_string_def

text \<open>
  What is printed is read back: the text of each of the listed connection types, and of no
  other text but the empty one, is read as that type, into a variable of any old value and
  from each of the three formats. The one exception is \<open>auto\<close>, which leaves the variable as
  it was, although the empty text is read as \<open>auto\<close>.
\<close>

theorem conn_type_round_trip:
  "parse_conn_type c txt =
     (if txt \<in> set AllConnectionTypes then Inr txt
      else if txt = [] then Inr AutoDetect
      else if txt = marshal_conn_type AutoDetect then Inr c
      else Inl (''unknown connection type '' @ [CHR 0x27] @ txt @ [CHR 0x27])) \<and>
   unmarshal_yaml c txt = parse_conn_type c txt \<and>
   unmarshal_json c (Inr txt) = parse_conn_type c txt \<and>
   unmarshal_xml c (Inr txt) = parse_conn_type c txt"
  by (auto simp: parse_conn_type_def unmarshal_yaml_def unmarshal_json_def unmarshal_xml_def
      AllConnectionTypes_def conn_type_defs marshal_conn_type_def)

end
