(* ===== verification/Ip_Resolver.thy ===== *)
theory Ip_Resolver
  imports Net_Routing Conn_Types
begin

text \<open>
  \<open>dhcp/resolver.go\<close>: where the addresses of the DHCP relay come from, that is the local
  address, the DHCP server and the relay address, and which connection is made of them.

  A resolver remembers what it found, so its operations return the new state. The routing
  table (\<open>routing.New\<close>) is an argument: an error, nothing (on systems other than Linux) or a
  router; an error ends the program through \<open>logger.Fatal\<close>, which is the result \<open>Inl\<close> of type
  \<open>fatal\<close>. The Kubernetes API and the DNS are arguments as well.
\<close>

datatype 'a fatal = Fatal string | Panics go_panic | Ok 'a

definition of_result :: "'a result \<Rightarrow> ('a \<Rightarrow> 'b fatal) \<Rightarrow> 'b fatal" where
  "of_result x f = (case x of Inl p \<Rightarrow> Panics p | Inr v \<Rightarrow> f v)"

subsection \<open>The local resolver\<close>

record local_resolver =
  local_ip :: ip
  remote_ip :: ip

text \<open>\<open>ip.To4().String()\<close>, the form in which addresses are compared.\<close>

definition v4_text :: "ip \<Rightarrow> string" where
  "v4_text a = ip_string (to4 a)"

definition GetLocalIP ::
  "string + router option \<Rightarrow> ip \<Rightarrow> local_resolver \<Rightarrow> ((ip \<times> string option) \<times> local_resolver) fatal" where
  "GetLocalIP new remote l =
     (if local_ip l \<noteq> None \<and> v4_text (remote_ip l) = v4_text remote
      then Ok ((local_ip l, None), l)
      else case new of
        Inl e \<Rightarrow> Fatal e
      | Inr (Some r) \<Rightarrow>
          of_result (Route r remote) (\<lambda>(f, gateway, src, e).
            Ok ((src, e),
              if e = None
              then (let l' = l\<lparr>local_ip := src\<rparr> in
                    if remote_ip l' = None then l'\<lparr>remote_ip := gateway\<rparr> else l')
              else l))
      | Inr None \<Rightarrow>
          if local_ip l \<noteq> None then Ok ((local_ip l, None), l)
          else Ok ((None, Some ''empty local ip''), l))"

definition GetServerIP ::
  "string + router option \<Rightarrow> local_resolver \<Rightarrow> ((ip \<times> string option) \<times> local_resolver) fatal" where
  "GetServerIP new l =
     (if remote_ip l \<noteq> None then Ok ((remote_ip l, None), l)
      else case new of
        Inl e \<Rightarrow> Fatal e
      | Inr (Some r) \<Rightarrow>
          of_result (Route r (Some [1, 1, 1, 1])) (\<lambda>(f, gateway, src, e).
            Ok ((gateway, e),
              (if local_ip l = None then l\<lparr>local_ip := src\<rparr> else l)\<lparr>remote_ip := gateway\<rparr>))
      | Inr None \<Rightarrow> Ok ((None, Some ''no DHCP server ip''), l))"

subsection \<open>The static resolver\<close>

record static_resolver = local_resolver +
  relay_ip :: ip

definition NewStaticIPResolver :: "ip \<Rightarrow> ip \<Rightarrow> ip \<Rightarrow> static_resolver" where
  "NewStaticIPResolver loc rem rel = \<lparr>local_ip = loc, remote_ip = rem, relay_ip = rel\<rparr>"

definition GetRelayIP :: "static_resolver \<Rightarrow> (ip \<times> string option) \<times> static_resolver" where
  "GetRelayIP r =
     (let r' = (if relay_ip r = None then r\<lparr>relay_ip := local_ip r\<rparr> else r)
      in ((relay_ip r', None), r'))"

subsection \<open>The Kubernetes resolver\<close>

record ingress =
  ing_ip :: string
  ing_hostname :: string

record kube_service =
  LoadBalancerIP :: string
  Ingress :: "ingress list"
  svc_namespace :: string
  svc_name :: string

record kube_resolver = local_resolver +
  service :: string
  namespace :: string
  last_ip :: ip

definition NewKubernetesExternalIPResolver :: "ip \<Rightarrow> ip \<Rightarrow> string \<Rightarrow> string \<Rightarrow> kube_resolver" where
  "NewKubernetesExternalIPResolver loc rem svc ns =
     \<lparr>local_ip = loc, remote_ip = rem, service = svc, namespace = ns, last_ip = None\<rparr>"

text \<open>The addresses of the ingress points, as texts; \<open>lookup\<close> is \<open>net.LookupIP\<close>.\<close>

definition ingress_ips :: "(string \<Rightarrow> string + ip list) \<Rightarrow> ingress \<Rightarrow> string list" where
  "ingress_ips lookup i =
     (if ing_ip i \<noteq> [] then [ing_ip i]
      else if ing_hostname i \<noteq> [] then
        (case lookup (ing_hostname i) of
           Inl e \<Rightarrow> []
         | Inr tmp \<Rightarrow> map (\<lambda>a. ip_string (to4 a)) (filter (\<lambda>a. to4 a \<noteq> None) tmp))
      else [])"

definition svc_text :: "string \<Rightarrow> kube_service \<Rightarrow> string \<Rightarrow> string" where
  "svc_text pre s post = pre @ svc_namespace s @ ''/'' @ svc_name s @ post"

definition GetRelayIP_kube ::
  "(string \<Rightarrow> string + ip list) \<Rightarrow> string + kube_service \<Rightarrow> kube_resolver \<Rightarrow>
     (ip \<times> string option) \<times> kube_resolver" where
  "GetRelayIP_kube lookup res r =
     (case res of
        Inl e \<Rightarrow>
          ((last_ip r, Some (''resolve external IP from '' @ namespace r @ ''/'' @ service r @ '': '' @ e)), r)
      | Inr result \<Rightarrow>
          let lbip = parse_ip (LoadBalancerIP result) in
          if lbip \<noteq> None then
            ((lbip, None),
             if last_ip r = None \<or> v4_text (last_ip r) \<noteq> v4_text lbip then r\<lparr>last_ip := lbip\<rparr> else r)
          else
            let ips = concat (map (ingress_ips lookup) (Ingress result)) in
            if length ips = 0 then
              ((last_ip r, Some (svc_text ''service '' result '' has no external IP'')), r)
            else if 1 < length ips then
              ((last_ip r, Some (svc_text ''service '' result '' has multiple external IPs'')), r)
            else
              let ip = parse_ip (ips ! 0) in
              if ip \<noteq> None then
                ((ip, None),
                 if last_ip r = None \<or> v4_text (last_ip r) \<noteq> v4_text lbip then r\<lparr>last_ip := ip\<rparr> else r)
              else
                ((last_ip r, Some (svc_text (''invalid external IP format '' @ [CHR 0x27] @ (ips ! 0) @
                    [CHR 0x27] @ '' for service '') result [])), r))"

subsection \<open>The connection\<close>

text \<open>Which connection \<open>GetConnection\<close> makes, with the two ends it gives it.\<close>

type_synonym udp_addr = "ip \<times> nat"

datatype connection =
    UDPConn udp_addr udp_addr
  | DualConn udp_addr udp_addr bool
  | RawConn udp_addr udp_addr

definition GetConnection :: "ip \<Rightarrow> ip \<Rightarrow> string \<Rightarrow> connection option" where
  "GetConnection loc rem t =
     (if t = UDP then Some (UDPConn (loc, 67) (rem, 67))
      else if t = Dual then Some (DualConn (loc, 67) (rem, 67) True)
      else if t = Fritzbox then Some (DualConn (loc, 67) (rem, 67) False)
      else if t = Broken then Some (RawConn (loc, 68) (rem, 67))
      else if t = Packet then Some (RawConn (loc, 67) (rem, 67))
      else None)"

text \<open>
  \<open>getAutoConnectionType\<close> of \<open>dhcp/client.go\<close>: \<open>body\<close> is what the HTTP request to the server
  gave, \<open>Inl\<close> without an answer, an answer whose body cannot be read, or the body. \<open>contains\<close>
  is \<open>strings.Contains\<close>.
\<close>

definition getAutoConnectionType :: "ip \<Rightarrow> unit + string option \<Rightarrow> string" where
  "getAutoConnectionType remote body =
     (case body of
        Inr (Some b) \<Rightarrow> if contains b ''AVM'' then Fritzbox else UDP
      | Inr None \<Rightarrow> UDP
      | Inl u \<Rightarrow> if ip_equal remote (Some [192, 168, 43, 1]) then Broken else UDP)"

text \<open>
  \<open>NewClient\<close>'s initialisation: server, local and relay address, then the connection; each
  error ends it. The relay address is asked of \<open>relay\<close>, after the local address is known.
\<close>

definition init_client ::
  "string + router option \<Rightarrow> (local_resolver \<Rightarrow> ip \<times> string option) \<Rightarrow> unit + string option \<Rightarrow>
     string \<Rightarrow> local_resolver \<Rightarrow> (string + (ip \<times> ip \<times> ip \<times> string \<times> connection option)) fatal" where
  "init_client new relay body connType l =
     (case GetServerIP new l of
        Fatal e \<Rightarrow> Fatal e | Panics p \<Rightarrow> Panics p
      | Ok ((remote, Some e), l1) \<Rightarrow> Ok (Inl e)
      | Ok ((remote, None), l1) \<Rightarrow>
          (case GetLocalIP new remote l1 of
             Fatal e \<Rightarrow> Fatal e | Panics p \<Rightarrow> Panics p
           | Ok ((loc, Some e), l2) \<Rightarrow> Ok (Inl e)
           | Ok ((loc, None), l2) \<Rightarrow>
               (case relay l2 of
                  (rel, Some e) \<Rightarrow> Ok (Inl e)
                | (rel, None) \<Rightarrow>
                    let t = (if connType = AutoDetect then getAutoConnectionType remote body else connType);
                        c = GetConnection loc remote t
                    in if c = None then Fatal (''unknown connection type: '' @ t)
                       else Ok (Inr (remote, loc, rel, t, c)))))"


subsection \<open>What the resolvers promise\<close>

lemma v4_string_head:
  "length b = 4 \<Longrightarrow> \<exists>c cs. v4_string b = c # cs \<and> c \<noteq> CHR ''<''"
proof -
  assume "length b = 4"
  then obtain x y z w where b: "b = [x, y, z, w]"
    by (auto simp: length_Suc_conv eval_nat_numeral)
  have head: "\<exists>c cs. nat_str n = c # cs \<and> c \<noteq> CHR ''<''" for n
  proof (induction n rule: nat_str.induct)
    case (1 n)
    have "digit_char n \<noteq> CHR ''<''" if "n < 10"
      using digit_val_dec [OF that] by (auto simp: digit_val_def)
    then show ?case using 1 by (cases "n < 10") (auto simp: nat_str.simps [of n])
  qed
  show ?thesis using head [of "unat x"] by (auto simp: b)
qed

lemma v4_text_nil: "v4_text a = v4_text None \<longleftrightarrow> to4 a = None"
proof (cases "to4 a")
  case None
  then show ?thesis by (simp add: v4_text_def)
next
  case (Some b)
  then have l: "length b = 4" by (rule to4_Some)
  then have "ip_string (Some b) = v4_string b"
    by (auto simp: ip_string_def slice_bytes_def to4_v4)
  then show ?thesis
    using v4_string_head [OF l] Some by (auto simp: v4_text_def ip_string_def slice_bytes_def)
qed

text \<open>
  The server address is found once. Whatever a successful call of \<open>GetServerIP\<close> returned,
  every later one returns too, without looking at the routing table; and a configured server or
  local address is never replaced.
\<close>

theorem server_ip_found_once:
  assumes "GetServerIP new l = Ok ((Some a, None), l')"
  shows "GetServerIP new' l' = Ok ((Some a, None), l') \<and>
    (remote_ip l \<noteq> None \<longrightarrow> l' = l) \<and> (local_ip l \<noteq> None \<longrightarrow> local_ip l' = local_ip l)"
  using assms
  by (auto simp: GetServerIP_def of_result_def split: if_splits sum.splits option.splits prod.splits)

theorem server_ip_found_once_witness:
  "GetServerIP (Inl ''no netlink'') \<lparr>local_ip = Some [192, 168, 1, 46], remote_ip = Some [192, 168, 1, 1]\<rparr> =
     Ok ((Some [192, 168, 1, 1], None), \<lparr>local_ip = Some [192, 168, 1, 46], remote_ip = Some [192, 168, 1, 1]\<rparr>)"
proof -
  have "GetServerIP (Inr (Some sample_router)) \<lparr>local_ip = None, remote_ip = None\<rparr> =
    Ok ((Some [192, 168, 1, 1], None), \<lparr>local_ip = Some [192, 168, 1, 46], remote_ip = Some [192, 168, 1, 1]\<rparr>)"
    using route_lookup_example by (simp add: GetServerIP_def of_result_def)
  from server_ip_found_once [OF this] show ?thesis by blast
qed

text \<open>
  The local address that \<open>GetLocalIP\<close> has once is taken for every server with the same
  IPv4 address as the remembered one, and for every server without an IPv4 address if the
  remembered one has none either, since these all print alike: two different IPv6 servers count
  as one.
\<close>

theorem local_ip_reuse:
  assumes "local_ip l = Some a"
  shows "(to4 remote = None \<and> to4 (remote_ip l) = None \<or> to4 remote = to4 (remote_ip l) \<longrightarrow>
    GetLocalIP new remote l = Ok ((Some a, None), l))"
  using assms by (auto simp: GetLocalIP_def v4_text_def)

theorem local_ip_reuse_witness:
  "GetLocalIP (Inl ''no netlink'') (Some (replicate 15 0 @ [1]))
     \<lparr>local_ip = Some [127, 0, 0, 1], remote_ip = Some (replicate 15 0 @ [2])\<rparr> =
   Ok ((Some [127, 0, 0, 1], None), \<lparr>local_ip = Some [127, 0, 0, 1], remote_ip = Some (replicate 15 0 @ [2])\<rparr>)"
proof -
  have "to4 (Some (replicate 15 0 @ [1])) = None" "to4 (Some (replicate 15 0 @ [2])) = None"
    by code_simp+
  then show ?thesis
    using local_ip_reuse [of "\<lparr>local_ip = Some [127, 0, 0, 1], remote_ip = Some (replicate 15 0 @ [2])\<rparr>"
        "[127, 0, 0, 1]" "Some (replicate 15 0 @ [1])" "Inl ''no netlink''"]
    by simp
qed

text \<open>
  The relay address from Kubernetes. On an error the address is the last one known and
  nothing changes. Otherwise it is the load balancer's address if that parses, or else the one
  and only external address; and it becomes the last one known, as far as IPv4 goes.
\<close>

theorem kube_relay_address:
  assumes "GetRelayIP_kube lookup res r = ((a, e), r')"
  shows "(e \<noteq> None \<longrightarrow> a = last_ip r \<and> r' = r) \<and>
    (e = None \<longrightarrow> a \<noteq> None \<and> (\<exists>s. res = Inr s \<and>
       (a = parse_ip (LoadBalancerIP s) \<or>
        parse_ip (LoadBalancerIP s) = None \<and>
        (\<exists>t. concat (map (ingress_ips lookup) (Ingress s)) = [t] \<and> a = parse_ip t))) \<and>
     (last_ip r = None \<or> to4 (last_ip r) \<noteq> None \<longrightarrow> v4_text (last_ip r') = v4_text a))"
proof (cases res)
  case (Inl m)
  then show ?thesis using assms by (auto simp: GetRelayIP_kube_def)
next
  case (Inr s)
  let ?ips = "concat (map (ingress_ips lookup) (Ingress s))"
  consider "parse_ip (LoadBalancerIP s) \<noteq> None"
    | "parse_ip (LoadBalancerIP s) = None" "length ?ips = 0"
    | "parse_ip (LoadBalancerIP s) = None" "1 < length ?ips"
    | "parse_ip (LoadBalancerIP s) = None" "length ?ips = 1"
    by linarith
  then show ?thesis
  proof cases
    case 4
    then obtain t where t: "?ips = [t]" by (auto simp: length_Suc_conv)
    then show ?thesis
      using assms Inr 4 v4_text_nil [of "last_ip r"]
      by (auto simp: GetRelayIP_kube_def Let_def intro: sym split: if_splits)
  qed (use assms Inr in \<open>auto simp: GetRelayIP_kube_def Let_def split: if_splits\<close>)
qed

text \<open>
  With an IPv6 address the memory of the Kubernetes resolver goes stale: once it holds
  one, a new external address is returned but not remembered, so after the next API error
  the old address comes back.
\<close>

theorem kube_relay_stale:
  assumes "last_ip r = Some old" and "to4 (Some old) = None"
    and "parse_ip (LoadBalancerIP s) = None" and "Ingress s = [i]" and "ing_ip i = t" and "t \<noteq> []"
    and "parse_ip t = Some new"
  shows "GetRelayIP_kube lookup (Inr s) r = ((Some new, None), r) \<and>
    (\<exists>m. GetRelayIP_kube lookup (Inl e) (snd (GetRelayIP_kube lookup (Inr s) r)) = ((Some old, Some m), r))"
  using assms v4_text_nil [of "Some old"]
  by (simp add: GetRelayIP_kube_def Let_def ingress_ips_def)

text \<open>
  With everything configured the client starts on the configured addresses alone: server,
  local address and relay (the local address, when no relay is given) are the configured
  ones, and the connection has port 67 at the server and, except for the type \<open>broken\<close>, at
  the client.
\<close>

theorem configured_start:
  assumes "t \<in> set AllConnectionTypes"
  shows "\<exists>c p. init_client new
      (\<lambda>l. fst (GetRelayIP \<lparr>local_ip = local_ip l, remote_ip = remote_ip l, relay_ip = rel\<rparr>))
      body t \<lparr>local_ip = Some a, remote_ip = Some b\<rparr> =
    Ok (Inr (Some b, Some a, if rel = None then Some a else rel, t, Some c)) \<and>
    (p = (if t = Broken then 68 else 67)) \<and>
    (c = UDPConn (Some a, p) (Some b, 67) \<or> c = RawConn (Some a, p) (Some b, 67) \<or>
     c = DualConn (Some a, p) (Some b, 67) True \<or> c = DualConn (Some a, p) (Some b, 67) False)"
  using assms
  by (auto simp: init_client_def GetServerIP_def GetLocalIP_def GetRelayIP_def Let_def
      AllConnectionTypes_def GetConnection_def conn_type_defs)

definition sample_service :: kube_service where
  "sample_service = \<lparr>LoadBalancerIP = [], Ingress = [\<lparr>ing_ip = ''192.168.1.47'', ing_hostname = []\<rparr>],
     svc_namespace = ''default'', svc_name = ''rest2dhcp''\<rparr>"

definition sample_kube :: "ip \<Rightarrow> kube_resolver" where
  "sample_kube a = \<lparr>local_ip = None, remote_ip = None, service = ''rest2dhcp'', namespace = ''default'',
     last_ip = a\<rparr>"

definition mapped :: "bytes \<Rightarrow> ip" where "mapped b = Some (v4_prefix @ b)"

lemma sample_text: "parse_ip ''192.168.1.47'' = mapped [192, 168, 1, 47]" "parse_ip [] = None"
proof -
  have "v4_string [192, 168, 1, 47] = ''192.168.1.47''" by code_simp
  then show "parse_ip ''192.168.1.47'' = mapped [192, 168, 1, 47]"
    using parse_ip_string_v4 [of "[192, 168, 1, 47]"] by (simp add: mapped_def)
qed (simp add: parse_ip_def)

theorem kube_relay_address_witness:
  "v4_text (last_ip (sample_kube (mapped [192, 168, 1, 47]))) = v4_text (mapped [192, 168, 1, 47])"
proof -
  have "GetRelayIP_kube (\<lambda>h. Inl ''no DNS'') (Inr sample_service) (sample_kube None) =
      ((mapped [192, 168, 1, 47], None), sample_kube (mapped [192, 168, 1, 47]))"
    by (simp add: GetRelayIP_kube_def sample_service_def sample_kube_def ingress_ips_def sample_text Let_def)
      (simp add: mapped_def)
  from kube_relay_address [OF this] show ?thesis by (simp add: sample_kube_def)
qed

theorem kube_relay_stale_witness:
  "\<exists>m. GetRelayIP_kube (\<lambda>h. Inl ''no DNS'') (Inl ''timeout'')
      (snd (GetRelayIP_kube (\<lambda>h. Inl ''no DNS'') (Inr sample_service) (sample_kube (Some (replicate 15 0 @ [1]))))) =
    ((Some (replicate 15 0 @ [1]), Some m), sample_kube (Some (replicate 15 0 @ [1])))"
proof -
  have "to4 (Some (replicate 15 0 @ [1])) = None" by code_simp
  moreover have "parse_ip (LoadBalancerIP sample_service) = None"
    by (simp add: sample_service_def sample_text)
  moreover have "parse_ip ''192.168.1.47'' = Some (v4_prefix @ [192, 168, 1, 47])"
    by (simp add: sample_text mapped_def)
  ultimately have "\<exists>m. GetRelayIP_kube (\<lambda>h. Inl ''no DNS'') (Inl ''timeout'')
      (snd (GetRelayIP_kube (\<lambda>h. Inl ''no DNS'') (Inr sample_service) (sample_kube (Some (replicate 15 0 @ [1]))))) =
    ((Some (replicate 15 0 @ [1]), Some m), sample_kube (Some (replicate 15 0 @ [1])))"
    by (intro conjunct2 [OF kube_relay_stale [where i = "\<lparr>ing_ip = ''192.168.1.47'', ing_hostname = []\<rparr>"]])
      (simp_all add: sample_kube_def sample_service_def)
  then show ?thesis .
qed

theorem configured_start_witness:
  "\<exists>c. init_client (Inl ''no netlink'')
      (\<lambda>l. fst (GetRelayIP \<lparr>local_ip = local_ip l, remote_ip = remote_ip l, relay_ip = None\<rparr>))
      (Inl ()) ''dual'' \<lparr>local_ip = Some [192, 168, 1, 46], remote_ip = Some [192, 168, 1, 1]\<rparr> =
    Ok (Inr (Some [192, 168, 1, 1], Some [192, 168, 1, 46], Some [192, 168, 1, 46], ''dual'', Some c))"
proof -
  have "''dual'' \<in> set AllConnectionTypes" by (simp add: AllConnectionTypes_def conn_type_defs)
  from configured_start [OF this, of "Inl ''no netlink''" None "Inl ()" "[192, 168, 1, 46]" "[192, 168, 1, 1]"]
  show ?thesis by auto
qed

end
