(* ===== verification/Service_Start.thy ===== *)
theory Service_Start
  imports Background Ip_Resolver Dhcp_Packet
begin

text \<open>
  How the service comes up and goes down: the configuration and the choice of the resolver
  (\<open>service/server.go\<close>, \<open>init\<close> and \<open>getIPResolver\<close>), and \<open>Start\<close> with its goroutines around the
  DHCP client's background process. What the DNS, Kubernetes and the operating system answer are
  arguments; of the HTTP server \<open>net/http\<close> it is used that \<open>ListenAndServe\<close> returns after
  \<open>Shutdown\<close>, which closes the listener first.

  The connection of the client is its two sockets, of which a UDP and a raw connection have one; the
  event carries what closing each of them reports, and for a request the way the DHCP call goes.
\<close>

subsection \<open>Configuration\<close>

record kube_config =
  cfg_namespace :: string
  cfg_service :: string

record server_config =
  c_local :: ip
  c_remote :: ip
  c_relay :: ip
  c_mode :: string
  c_baseurl :: string
  c_hostname :: string
  c_port :: u16
  c_kube :: "kube_config option"

datatype resolver = StaticResolver static_resolver | KubeResolver kube_resolver

text \<open>\<open>kube\<close> is the client for Kubernetes, or the error of making it; \<open>api\<close> what it answers. An
  external address that was found replaces the relay address of the configuration.\<close>

definition static_of :: "server_config \<Rightarrow> resolver" where
  "static_of c = StaticResolver (NewStaticIPResolver (c_local c) (c_remote c) (c_relay c))"

definition getIPResolver ::
  "(string \<Rightarrow> string + ip list) \<Rightarrow> string + unit \<Rightarrow> string + kube_service \<Rightarrow> server_config \<Rightarrow>
     (resolver \<times> server_config) fatal" where
  "getIPResolver lookup kube api c = (case c_kube c of
       None \<Rightarrow> Ok (static_of c, c)
     | Some k \<Rightarrow>
         if cfg_service k = [] then Ok (static_of c, c)
         else (case kube of
             Inl e \<Rightarrow> Ok (static_of c, c)
           | Inr u \<Rightarrow>
               (case GetRelayIP_kube lookup api
                   (NewKubernetesExternalIPResolver (c_local c) (c_remote c) (cfg_service k) (cfg_namespace k)) of
                  ((ext, None), r) \<Rightarrow> Ok (KubeResolver r, c\<lparr>c_relay := ext\<rparr>)
                | ((ext, Some e), r) \<Rightarrow>
                    if c_relay c \<noteq> None
                    then Ok (StaticResolver (NewStaticIPResolver (c_local c) (c_relay c) (c_relay c)), c)
                    else Fatal ''No valid replay IP'')))"

text \<open>The names of the server. \<open>os_name\<close> is the answer of \<open>os.Hostname\<close>, empty with an error.\<close>

record server_names =
  s_hostname :: string
  s_port :: u16
  listen_all :: bool
  s_addr :: string
  s_baseurl :: string

definition init_names :: "string \<Rightarrow> server_config \<Rightarrow> server_names" where
  "init_names os_name c =
     (let h = (if c_hostname c \<noteq> [] then c_hostname c else os_name);
          p = nat_str (unat (c_port c))
      in \<lparr>s_hostname = h, s_port = c_port c, listen_all = (c_hostname c = []),
          s_addr = c_hostname c @ '':'' @ p,
          s_baseurl = (if c_baseurl c = [] then ''http://'' @ h @ '':'' @ p else c_baseurl c)\<rparr>)"

text \<open>The description of the interface, with the version and the address of this server.\<close>

record esc_file =
  f_modtime :: int
  f_size :: int
  f_compressed :: string

definition swagger_text :: "string \<Rightarrow> server_names \<Rightarrow> string \<Rightarrow> string" where
  "swagger_text git n old =
     (let new = replace_first (''version: '' @ [CHR 0x22] @ ''1.0.0'' @ [CHR 0x22])
            (''version: '' @ [CHR 0x22] @ git @ [CHR 0x22]) old;
          host = (if s_baseurl n \<noteq> [] then s_baseurl n else s_hostname n @ '':'' @ nat_str (unat (s_port n)))
      in replace_first (''host: '' @ [CHR 0x22] @ ''localhost:8080'' @ [CHR 0x22])
           (''host: '' @ [CHR 0x22] @ host @ [CHR 0x22]) new)"

definition swagger_init ::
  "(string \<Rightarrow> string + string) \<Rightarrow> (string \<Rightarrow> string) \<Rightarrow> int \<Rightarrow> string option \<Rightarrow> server_names \<Rightarrow>
     esc_file option \<Rightarrow> esc_file option" where
  "swagger_init decode encode now version n file = (case (file, version) of
       (Some f, Some v) \<Rightarrow>
         (let git = (if v = [] then ''dev'' else v); f = f\<lparr>f_modtime := now\<rparr>
          in case decode (f_compressed f) of
               Inl e \<Rightarrow> Some f
             | Inr old \<Rightarrow>
                 let new = swagger_text git n old
                 in Some (if old \<noteq> new then f\<lparr>f_size := int (length new), f_compressed := encode new\<rparr> else f))
     | _ \<Rightarrow> file)"

subsection \<open>The addresses of a client made with a resolver\<close>

definition resolver_base :: "resolver \<Rightarrow> local_resolver" where
  "resolver_base r = (case r of
       StaticResolver s \<Rightarrow> \<lparr>local_ip = local_ip s, remote_ip = remote_ip s\<rparr>
     | KubeResolver k \<Rightarrow> \<lparr>local_ip = local_ip k, remote_ip = remote_ip k\<rparr>)"

definition resolver_relay ::
  "(string \<Rightarrow> string + ip list) \<Rightarrow> string + kube_service \<Rightarrow> resolver \<Rightarrow> local_resolver \<Rightarrow> ip \<times> string option" where
  "resolver_relay lookup api r l = (case r of
       StaticResolver s \<Rightarrow> fst (GetRelayIP (s\<lparr>local_ip := local_ip l, remote_ip := remote_ip l\<rparr>))
     | KubeResolver k \<Rightarrow> fst (GetRelayIP_kube lookup api (k\<lparr>local_ip := local_ip l, remote_ip := remote_ip l\<rparr>)))"

definition start_client ::
  "string + router option \<Rightarrow> (string \<Rightarrow> string + ip list) \<Rightarrow> string + unit \<Rightarrow> string + kube_service \<Rightarrow>
     string + kube_service \<Rightarrow> unit + string option \<Rightarrow> server_config \<Rightarrow>
     (string + (ip \<times> ip \<times> ip \<times> string \<times> connection option)) fatal" where
  "start_client new lookup kube api api' body c = (case getIPResolver lookup kube api c of
       Fatal e \<Rightarrow> Fatal e
     | Panics p \<Rightarrow> Panics p
     | Ok (r, c') \<Rightarrow> init_client new (resolver_relay lookup api' r) body (c_mode c') (resolver_base r))"

lemma GetLocalIP_known:
  "local_ip l = Some a \<Longrightarrow> remote_ip l = remote \<Longrightarrow> GetLocalIP new remote l = Ok ((Some a, None), l)"
  by (simp add: GetLocalIP_def)

text \<open>When Kubernetes has no external address for the service but a relay address is configured,
  the relay address is taken for the address of the DHCP server as well: the client sends its
  packets to it, to port 67, whatever server is configured.\<close>

theorem kube_fallback_server:
  assumes "c_kube c = Some k" and "cfg_service k \<noteq> []"
    and "snd (fst (GetRelayIP_kube lookup api
      (NewKubernetesExternalIPResolver (c_local c) (c_remote c) (cfg_service k) (cfg_namespace k)))) \<noteq> None"
    and "c_relay c = Some relay" and "c_local c = Some a" and "c_mode c \<in> set AllConnectionTypes"
  shows "\<exists>conn p. start_client new lookup (Inr ()) api api' body c =
      Ok (Inr (Some relay, Some a, Some relay, c_mode c, Some conn)) \<and>
    conn \<in> {UDPConn (Some a, p) (Some relay, 67), RawConn (Some a, p) (Some relay, 67),
      DualConn (Some a, p) (Some relay, 67) True, DualConn (Some a, p) (Some relay, 67) False}"
proof -
  obtain ext e r where g: "GetRelayIP_kube lookup api
      (NewKubernetesExternalIPResolver (c_local c) (c_remote c) (cfg_service k) (cfg_namespace k)) =
    ((ext, Some e), r)"
    using assms(3) by (cases "GetRelayIP_kube lookup api
      (NewKubernetesExternalIPResolver (c_local c) (c_remote c) (cfg_service k) (cfg_namespace k))") auto
  have "getIPResolver lookup (Inr ()) api c = Ok (StaticResolver (NewStaticIPResolver (Some a) (Some relay) (Some relay)), c)"
    using assms g by (simp add: getIPResolver_def)
  then have "start_client new lookup (Inr ()) api api' body c =
    (let conn = GetConnection (Some a) (Some relay) (c_mode c)
     in if conn = None then Fatal (''unknown connection type: '' @ c_mode c)
        else Ok (Inr (Some relay, Some a, Some relay, c_mode c, conn)))"
    using assms(6)
    by (auto simp: start_client_def resolver_base_def resolver_relay_def NewStaticIPResolver_def init_client_def
        GetServerIP_def GetLocalIP_known GetRelayIP_def Let_def AllConnectionTypes_def conn_type_defs)
  then show ?thesis
    using assms(6) by (auto simp: AllConnectionTypes_def GetConnection_def conn_type_defs)
qed


definition fallback_config :: server_config where
  "fallback_config =
     \<lparr>c_local = Some [192, 168, 1, 46], c_remote = Some [192, 168, 1, 1], c_relay = Some [192, 168, 1, 99],
      c_mode = UDP, c_baseurl = [], c_hostname = [], c_port = 8080,
      c_kube = Some \<lparr>cfg_namespace = ''default'', cfg_service = ''rest2dhcp''\<rparr>\<rparr>"

theorem kube_fallback_server_witness:
  "\<exists>conn. start_client (Inl ''no netlink'') (\<lambda>h. Inl ''no DNS'') (Inr ()) (Inl ''timeout'') (Inl ''timeout'')
      (Inl ()) fallback_config =
    Ok (Inr (Some [192, 168, 1, 99], Some [192, 168, 1, 46], Some [192, 168, 1, 99], UDP, Some conn))"
proof -
  have "c_mode fallback_config \<in> set AllConnectionTypes"
    by (simp add: fallback_config_def AllConnectionTypes_def conn_type_string_def)
  from kube_fallback_server [OF _ _ _ _ _ this,
      of "\<lparr>cfg_namespace = ''default'', cfg_service = ''rest2dhcp''\<rparr>" "\<lambda>h. Inl ''no DNS''" "Inl ''timeout''"
        "[192, 168, 1, 99]" "[192, 168, 1, 46]" "Inl ''no netlink''" "Inl ''timeout''" "Inl ()"]
  show ?thesis by (auto simp: fallback_config_def GetRelayIP_kube_def)
qed

subsection \<open>The goroutines of \<open>Start\<close>\<close>

text \<open>
  The main goroutine waits for the client, starts the listener and the goroutine that looks
  whether it answers, waits for the context, stops the client and shuts the server down.
\<close>

datatype main_pc = MClient | MServe | MStop | MShutdown | MEnd

datatype listener = LNone | LStart | LOpen | LClosed

datatype exit = Exit string | Panicked go_panic

record server =
  client :: process
  client_conn :: "connection option"
  in_open :: bool
  out_open :: bool
  main_pc :: main_pc
  listener :: listener
  probing :: bool
  ready :: bool
  ctx_over :: bool
  server_done :: bool
  exited :: "exit option"

type_synonym client_init = "(string + (ip \<times> ip \<times> ip \<times> string \<times> connection option)) fatal"

text \<open>
  Closing a socket: it is closed, or there is an error and the socket may still be open. And the
  course a request for a lease takes: its packets are sent and the call goes on, \<open>Send\<close> reports an
  error, the cleaner removes the entry of the call during its pause, or the caller goes away before
  any of this.
\<close>

datatype close_result = Closed | CloseError string bool

datatype lease_course = LSent | LSendError string | LCleaned | LCallerGone

datatype srv_event =
    SInit client_init
  | SProcess
  | SClose close_result close_result
  | SGo
  | SListen
  | SListenErr string
  | SProbe
  | SCtx
  | SStop
  | SStopped
  | SDown "string option"
  | SLease lease_course

text \<open>The server after the call of \<open>Start\<close>: the client's \<open>Start\<close> has called \<open>Run\<close> of its process.\<close>

definition server_Start :: server where
  "server_Start =
     \<lparr>client = (process_Init True True)\<lparr>jobs := [new_job True True]\<rparr>, client_conn = None,
      in_open = False, out_open = False, main_pc = MClient, listener = LNone, probing = False, ready = False, ctx_over = False, server_done = False, exited = None\<rparr>"

definition client_event :: "bg_event \<Rightarrow> server \<Rightarrow> server option" where
  "client_event ev s = map_option (\<lambda>p. s\<lparr>client := p, exited := map_option Panicked (crashed p)\<rparr>) (bg_step ev (client s))"

text \<open>
  \<open>Close\<close> of the three connections, on whether the socket that receives and the one that sends are
  open: the UDP and the raw connection have one socket for both, the dual connection closes the
  one that receives first and returns when that fails.
\<close>

definition close_error :: "close_result \<Rightarrow> string option" where
  "close_error r = (case r of Closed \<Rightarrow> None | CloseError e b \<Rightarrow> Some e)"

definition left_open :: "close_result \<Rightarrow> bool" where
  "left_open r = (case r of Closed \<Rightarrow> False | CloseError e b \<Rightarrow> b)"

definition conn_Close ::
  "connection \<Rightarrow> close_result \<Rightarrow> close_result \<Rightarrow> bool \<times> bool \<Rightarrow> (bool \<times> bool) \<times> string option" where
  "conn_Close c r1 r2 sockets = (case c of
       DualConn local remote fix \<Rightarrow>
         (case close_error r1 of
            Some e \<Rightarrow> ((left_open r1, snd sockets), Some e)
          | None \<Rightarrow> ((left_open r1, left_open r2), close_error r2))
     | _ \<Rightarrow> ((left_open r1, left_open r1), close_error r1))"

text \<open>
  A request for a lease. \<open>discover\<close> calls \<open>Send\<close> of the client's connection in a goroutine of its
  own, so that a panic ends the program, also when the caller has gone away. A closed socket sends
  nothing: \<open>Send\<close> reports its error, for which \<open>discover\<close> sends a lease without a packet, and
  \<open>GetLease\<close> reads an address of that packet. On an open one \<open>Send\<close> may fail as well, and \<open>error\<close>
  reads the message type of an entry that the cleaner has removed; otherwise the call goes on as
  in \<open>Client_System\<close>, which has all its steps.
\<close>

definition panic_on :: "'a result \<Rightarrow> server \<Rightarrow> server" where
  "panic_on r s = (case r of Inl p \<Rightarrow> s\<lparr>exited := Some (Panicked p)\<rparr> | Inr x \<Rightarrow> s)"

definition lease_request :: "lease_course \<Rightarrow> server \<Rightarrow> server option" where
  "lease_request r s = (case deref (client_conn s) of
       Inl p \<Rightarrow> Some (s\<lparr>exited := Some (Panicked p)\<rparr>)
     | Inr c \<Rightarrow> (case r of
           LSent \<Rightarrow> if out_open s then Some s else None
         | LSendError e \<Rightarrow> Some (panic_on (deref (DHCP4 (NewLeaseError e))) s)
         | LCleaned \<Rightarrow>
             if out_open s then Some (panic_on (bind_r (deref (None :: lease option)) lease_msg_type) s) else None
         | LCallerGone \<Rightarrow> Some s))"

definition guarded :: "bool \<Rightarrow> 'a \<Rightarrow> 'a option" where
  "guarded b x = (if b then Some x else None)"

fun srv_act :: "srv_event \<Rightarrow> server \<Rightarrow> server option" where
  "srv_act (SInit r) s = (if \<not> at_job 0 JInit (client s) then None else case r of
       Fatal e \<Rightarrow> Some (s\<lparr>exited := Some (Exit e)\<rparr>)
     | Panics p \<Rightarrow> Some (s\<lparr>exited := Some (Panicked p)\<rparr>)
     | Ok (Inl e) \<Rightarrow> client_event (BInit 0 (Some e)) s
     | Ok (Inr (remote, loc, relay, mode, c)) \<Rightarrow>
         if c = None then Some (s\<lparr>exited := Some (Exit (''unknown connection type: '' @ mode))\<rparr>)
         else client_event (BInit 0 None) (s\<lparr>client_conn := c, in_open := True, out_open := True\<rparr>))"
| "srv_act SProcess s = client_event (BProcess 0 False) s"
| "srv_act (SClose r1 r2) s = (if \<not> at_job 0 JClose (client s) then None else case deref (client_conn s) of
       Inl p \<Rightarrow> Some (s\<lparr>exited := Some (Panicked p)\<rparr>)
     | Inr c \<Rightarrow> (case conn_Close c r1 r2 (in_open s, out_open s) of ((i, out), e) \<Rightarrow>
         client_event (BClose 0 e) (s\<lparr>in_open := i, out_open := out\<rparr>)))"
| "srv_act SGo s = guarded (main_pc s = MClient \<and> started (jobs (client s) ! 0))
     (s\<lparr>main_pc := MServe, listener := LStart, probing := True\<rparr>)"
| "srv_act SListen s = guarded (listener s = LStart) (s\<lparr>listener := LOpen\<rparr>)"
| "srv_act (SListenErr e) s =
     guarded (listener s = LStart) (s\<lparr>exited := Some (Exit (''Error listen: '' @ e))\<rparr>)"
| "srv_act SProbe s = guarded (probing s \<and> listener s = LOpen) (s\<lparr>probing := False, ready := True\<rparr>)"
| "srv_act SCtx s = Some (s\<lparr>ctx_over := True\<rparr>)"
| "srv_act SStop s = (if main_pc s = MServe \<and> ctx_over s
     then client_event BStop (s\<lparr>main_pc := MStop\<rparr>) else None)"
| "srv_act SStopped s = guarded (main_pc s = MStop \<and> can_return (client s))
     (s\<lparr>main_pc := MShutdown, listener := LClosed\<rparr>)"
| "srv_act (SDown r) s = guarded (main_pc s = MShutdown) (s\<lparr>main_pc := MEnd, server_done := True\<rparr>)"
| "srv_act (SLease r) s = (if listener s = LOpen then lease_request r s else None)"

definition srv_step :: "srv_event \<Rightarrow> server \<Rightarrow> server option" where
  "srv_step ev s = (if exited s = None then srv_act ev s else None)"

fun srv_run :: "srv_event list \<Rightarrow> server \<Rightarrow> server option" where
  "srv_run [] s = Some s"
| "srv_run (ev # evs) s = (case srv_step ev s of None \<Rightarrow> None | Some s' \<Rightarrow> srv_run evs s')"

interpretation srv: machine srv_step srv_run
  by unfold_locales simp_all

lemma client_Start: "bg_step (BRun True) (process_Init True True) = Some (client server_Start)"
  by (simp add: server_Start_def bg_step_def bg_act_def process_Init_def)


subsection \<open>Invariant of the server\<close>

definition job_view :: "server \<Rightarrow> job \<Rightarrow> bool" where
  "job_view s j \<longleftrightarrow> has_process j \<and> (case job_pc j of
       JInit \<Rightarrow> \<not> finished (client s) \<and> \<not> started j \<and> \<not> init_failed j \<and> client_conn s = None
     | JProcess \<Rightarrow> \<not> finished (client s) \<and> started j \<and> \<not> init_failed j \<and> client_conn s \<noteq> None \<and>
         in_open s \<and> out_open s
     | JClose \<Rightarrow> \<not> finished (client s) \<and> started j \<and> \<not> init_failed j \<and> client_conn s \<noteq> None \<and>
         in_open s \<and> out_open s \<and> cancelled (client s)
     | JEnd \<Rightarrow> finished (client s) \<and> started j \<and>
         (if init_failed j then client_conn s = None else client_conn s \<noteq> None \<and> cancelled (client s)))"

definition client_ok :: "server \<Rightarrow> bool" where
  "client_ok s \<longleftrightarrow> has_close (client s) \<and> crashed (client s) = None \<and>
     (case jobs (client s) of [j] \<Rightarrow> job_view s j | _ \<Rightarrow> False)"

definition main_ok :: "server \<Rightarrow> bool" where
  "main_ok s \<longleftrightarrow> (case main_pc s of
       MClient \<Rightarrow> listener s = LNone \<and> \<not> cancelled (client s) \<and> \<not> server_done s \<and> \<not> ready s
     | MServe \<Rightarrow> listener s \<in> {LStart, LOpen} \<and> \<not> cancelled (client s) \<and> \<not> server_done s \<and>
         started (jobs (client s) ! 0)
     | MStop \<Rightarrow> listener s \<in> {LStart, LOpen} \<and> cancelled (client s) \<and> ctx_over s \<and> \<not> server_done s \<and>
         started (jobs (client s) ! 0)
     | _ \<Rightarrow> listener s = LClosed \<and> cancelled (client s) \<and> ctx_over s \<and> finished (client s) \<and>
         started (jobs (client s) ! 0) \<and> (server_done s \<longleftrightarrow> main_pc s = MEnd))"

definition srv_inv :: "server \<Rightarrow> bool" where
  "srv_inv s \<longleftrightarrow> exited s \<noteq> None \<or> client_ok s \<and> main_ok s"

lemma client_okD:
  assumes "client_ok s"
  obtains j where "jobs (client s) = [j]" "job_view s j" "has_close (client s)" "crashed (client s) = None"
  using assms by (auto simp: client_ok_def split: list.splits)

lemmas srv_defs = job_view_def client_ok_def main_ok_def guarded_def client_event_def bg_step_def
  bg_act_def upd_job_def close_done_def job_started_def at_job_def can_return_def

lemma srv_inv_Start: "srv_inv server_Start"
  by (simp add: srv_inv_def srv_defs server_Start_def process_Init_def new_job_def Let_def)

text \<open>Steps of the client leave what the main goroutine relies on.\<close>

lemma main_ok_move:
  assumes "main_ok s" and "main_pc s' = main_pc s" and "listener s' = listener s"
    and "ready s' = ready s" and "server_done s' = server_done s" and "ctx_over s' = ctx_over s"
    and "cancelled (client s') = cancelled (client s)"
    and "started (jobs (client s) ! 0) \<Longrightarrow> started (jobs (client s') ! 0)"
    and "finished (client s) \<Longrightarrow> finished (client s')"
  shows "main_ok s'"
  using assms by (cases "main_pc s") (simp_all add: main_ok_def)

lemma client_act_inv:
  assumes "client_ok s" and "main_ok s" and "client_event ev s = Some s'"
    and "ev = BInit 0 (Some e) \<or> ev = BProcess 0 False"
  shows "client_ok s'" and "main_ok s'"
proof -
  obtain j where j: "jobs (client s) = [j]" "job_view s j" "has_close (client s)" "crashed (client s) = None"
    by (rule client_okD [OF assms(1)])
  consider "job_pc j = JInit" | "job_pc j = JProcess" | "job_pc j = JClose" | "job_pc j = JEnd"
    by (cases "job_pc j") simp_all
  note cs = this
  show "client_ok s'"
    using cs by cases (use assms(3,4) j in \<open>auto simp: srv_defs split: if_splits\<close>)
  have "main_pc s' = main_pc s \<and> listener s' = listener s \<and> ready s' = ready s \<and>
      server_done s' = server_done s \<and> ctx_over s' = ctx_over s \<and>
      cancelled (client s') = cancelled (client s) \<and> started (jobs (client s') ! 0) \<and>
      (finished (client s) \<longrightarrow> finished (client s'))"
    using cs by cases (use assms(3,4) j in \<open>auto simp: srv_defs split: if_splits\<close>)
  then show "main_ok s'" by (intro main_ok_move [OF assms(2)]) blast+
qed

lemma client_close_inv:
  assumes "client_ok s" and "main_ok s" and "at_job 0 JClose (client s)"
    and "client_event (BClose 0 e) (s\<lparr>in_open := i, out_open := out\<rparr>) = Some s'"
  shows "client_ok s'" and "main_ok s'"
proof -
  obtain j where j: "jobs (client s) = [j]" "job_view s j" "has_close (client s)" "crashed (client s) = None"
    by (rule client_okD [OF assms(1)])
  have pc: "job_pc j = JClose" using assms(3) j(1) by (simp add: at_job_def)
  show "client_ok s'" using assms(4) j pc by (auto simp: srv_defs)
  have "main_pc s' = main_pc s \<and> listener s' = listener s \<and> ready s' = ready s \<and>
      server_done s' = server_done s \<and> ctx_over s' = ctx_over s \<and>
      cancelled (client s') = cancelled (client s) \<and> started (jobs (client s') ! 0) \<and>
      (finished (client s) \<longrightarrow> finished (client s'))"
    using assms(4) j pc by (auto simp: srv_defs)
  then show "main_ok s'" by (intro main_ok_move [OF assms(2)]) blast+
qed

lemma client_init_inv:
  assumes "client_ok s" and "main_ok s"
    and "client_event (BInit 0 None) (s\<lparr>client_conn := Some c, in_open := True, out_open := True\<rparr>) = Some s'"
  shows "client_ok s'" and "main_ok s'"
proof -
  obtain j where j: "jobs (client s) = [j]" "job_view s j" "has_close (client s)" "crashed (client s) = None"
    by (rule client_okD [OF assms(1)])
  show "client_ok s'"
    using assms(3) j by (cases "job_pc j") (auto simp: srv_defs)
  have "main_pc s' = main_pc s \<and> listener s' = listener s \<and> ready s' = ready s \<and>
      server_done s' = server_done s \<and> ctx_over s' = ctx_over s \<and>
      cancelled (client s') = cancelled (client s) \<and> started (jobs (client s') ! 0) \<and>
      (finished (client s) \<longrightarrow> finished (client s'))"
    using assms(3) j by (cases "job_pc j") (auto simp: srv_defs)
  then show "main_ok s'" by (intro main_ok_move [OF assms(2)]) blast+
qed

lemma client_ok_move:
  assumes "client_ok s" and "client s' = client s" and "client_conn s' = client_conn s"
    and "in_open s' = in_open s" and "out_open s' = out_open s"
  shows "client_ok s'"
proof -
  have "job_view s' = job_view s" using assms(2-5) by (intro ext) (simp add: job_view_def split: job_pc.split)
  then show ?thesis using assms by (simp add: client_ok_def split: list.splits)
qed

lemma stop_inv:
  assumes "client_ok s" and "main_ok s" and "main_pc s = MServe" and "ctx_over s"
    and "client_event BStop (s\<lparr>main_pc := MStop\<rparr>) = Some s'"
  shows "client_ok s'" and "main_ok s'"
proof -
  have s': "s' = s\<lparr>main_pc := MStop, client := client s\<lparr>cancelled := True\<rparr>, exited := None\<rparr>"
    using assms(1,5) by (auto simp: srv_defs)
  show "main_ok s'" using assms(2-4) by (simp add: s' main_ok_def)
  obtain j where j: "jobs (client s) = [j]" "job_view s j" "has_close (client s)" "crashed (client s) = None"
    by (rule client_okD [OF assms(1)])
  show "client_ok s'" using j by (cases "job_pc j") (simp_all add: s' client_ok_def job_view_def)
qed

lemma srv_inv_step:
  assumes inv: "srv_inv s" and step: "srv_step ev s = Some s'"
  shows "srv_inv s'"
proof -
  have e: "exited s = None" and act: "srv_act ev s = Some s'"
    using step by (auto simp: srv_step_def split: if_splits)
  have ok: "client_ok s" "main_ok s" using inv e by (simp_all add: srv_inv_def)
  note cl = client_act_inv [OF ok] client_init_inv [OF ok] client_close_inv [OF ok]
  note mv = client_ok_move [OF ok(1)]
  show ?thesis
  proof (cases ev)
    case (SInit r)
    then show ?thesis
      using act cl by (auto simp: srv_inv_def split: if_splits fatal.splits sum.splits)
  next
    case SProcess
    then show ?thesis using act cl by (auto simp: srv_inv_def split: if_splits)
  next
    case (SClose r1 r2)
    then show ?thesis
      using act cl by (auto simp: srv_inv_def panic_on_def split: if_splits sum.splits prod.splits)
  next
    case SGo
    then show ?thesis using act ok(2) mv by (auto simp: srv_inv_def guarded_def main_ok_def split: if_splits)
  next
    case SStop
    then show ?thesis using act stop_inv [OF ok] by (auto simp: srv_inv_def split: if_splits)
  next
    case SStopped
    then show ?thesis
      using act ok(2) mv by (auto simp: srv_inv_def guarded_def can_return_def main_ok_def split: if_splits)
  next
    case (SDown r)
    then show ?thesis using act ok(2) mv by (auto simp: srv_inv_def guarded_def main_ok_def split: if_splits)
  next
    case (SLease r)
    then have "s' = s \<or> exited s' \<noteq> None"
      using act by (auto simp: lease_request_def panic_on_def split: if_splits sum.splits lease_course.splits)
    then show ?thesis using inv by (auto simp: srv_inv_def)
  next
    case SCtx
    then have "main_ok s'" using act ok(2) by (cases "main_pc s") (auto simp: main_ok_def)
    then show ?thesis using act SCtx mv by (auto simp: srv_inv_def)
  next
    case SListen
    then have "main_ok s'" using act ok(2) by (cases "main_pc s") (auto simp: guarded_def main_ok_def split: if_splits)
    then show ?thesis using act SListen mv by (auto simp: srv_inv_def guarded_def split: if_splits)
  next
    case (SListenErr e)
    then show ?thesis using act by (auto simp: srv_inv_def guarded_def split: if_splits)
  next
    case SProbe
    then have "main_ok s'" using act ok(2) by (cases "main_pc s") (auto simp: guarded_def main_ok_def split: if_splits)
    then show ?thesis using act SProbe mv by (auto simp: srv_inv_def guarded_def split: if_splits)
  qed
qed


lemma srv_run_inv: "srv_run evs server_Start = Some s \<Longrightarrow> srv_inv s"
  using srv.run_invariant [of srv_inv] srv_inv_step srv_inv_Start by blast

subsection \<open>A server without a client\<close>


text \<open>The run in which no server address is found, up to the answer that the service is ready.\<close>

definition no_client_run :: "srv_event list" where
  "no_client_run = [SInit (Ok (Inl ''no DHCP server ip'')), SGo, SListen, SProbe]"

text \<open>A whole life of the server, with a request in between; its connection and what closing returns.\<close>

definition life_run :: "connection \<Rightarrow> close_result \<Rightarrow> close_result \<Rightarrow> srv_event list" where
  "life_run c a b =
     [SInit (Ok (Inr (Some [192, 168, 1, 1], Some [192, 168, 1, 46], Some [192, 168, 1, 46], UDP, Some c))),
      SGo, SListen, SLease LSent, SProbe, SCtx, SStop, SProcess, SClose a b, SStopped, SDown None]"

definition sample_udp :: connection where
  "sample_udp = UDPConn (Some [192, 168, 1, 46], 67) (Some [192, 168, 1, 1], 67)"

definition sample_dual :: connection where
  "sample_dual = DualConn (Some [192, 168, 1, 46], 67) (Some [192, 168, 1, 1], 67) False"


subsection \<open>The order of a shutdown\<close>

definition is_close :: "srv_event \<Rightarrow> bool" where
  "is_close ev \<longleftrightarrow> (case ev of SClose a b \<Rightarrow> True | _ \<Rightarrow> False)"

text \<open>What a run has done to the sockets: they are closed once, at the end of the client's process.\<close>

definition close_log :: "srv_event list \<Rightarrow> server \<Rightarrow> bool" where
  "close_log evs s \<longleftrightarrow> (let j = jobs (client s) ! 0 in
     if job_pc j = JEnd \<and> \<not> init_failed j
     then \<exists>c a b. client_conn s = Some c \<and> filter is_close evs = [SClose a b] \<and>
       (in_open s, out_open s) = fst (conn_Close c a b (True, True))
     else filter is_close evs = [])"

lemma quiet_step:
  assumes "srv_step ev s = Some s'" and "\<forall>r. ev \<noteq> SInit r" and "ev \<noteq> SProcess" and "\<not> is_close ev"
  shows "jobs (client s') = jobs (client s) \<and> client_conn s' = client_conn s \<and> in_open s' = in_open s \<and>
    out_open s' = out_open s"
  using assms
  by (cases ev) (auto simp: srv_step_def is_close_def guarded_def lease_request_def panic_on_def client_event_def
      bg_step_def bg_act_def split: if_splits sum.splits lease_course.splits)

lemma close_log_step:
  assumes inv: "srv_inv s" and e: "exited s' = None" and log: "close_log evs s" and step: "srv_step ev s = Some s'"
  shows "close_log (evs @ [ev]) s'"
proof -
  have ex: "exited s = None" and act: "srv_act ev s = Some s'"
    using step by (auto simp: srv_step_def split: if_splits)
  have ok: "client_ok s" using inv ex by (simp add: srv_inv_def)
  obtain j where j: "jobs (client s) = [j]" "job_view s j" "has_close (client s)" "crashed (client s) = None"
    by (rule client_okD [OF ok])
  consider r where "ev = SInit r" | "ev = SProcess" | a b where "ev = SClose a b"
    | "\<forall>r. ev \<noteq> SInit r" "ev \<noteq> SProcess" "\<not> is_close ev"
    by (cases ev) (auto simp: is_close_def)
  then show ?thesis
  proof cases
    case 1
    then have "job_pc j = JInit" using act j(1) by (auto simp: at_job_def split: if_splits)
    then show ?thesis
      using act log e j 1
      by (auto simp: close_log_def is_close_def srv_defs split: if_splits fatal.splits sum.splits)
  next
    case 2
    then have "job_pc j = JProcess" using act j by (auto simp: srv_defs split: if_splits)
    then show ?thesis using act log j 2 by (auto simp: close_log_def is_close_def srv_defs split: if_splits)
  next
    case 3
    then have pc: "job_pc j = JClose" using act j(1) by (auto simp: at_job_def split: if_splits)
    then obtain c where "client_conn s = Some c" "in_open s" "out_open s" using j(2) by (auto simp: job_view_def)
    then show ?thesis
      using act log j 3 pc by (auto simp: close_log_def is_close_def srv_defs split: prod.splits)
  next
    case 4
    then show ?thesis using quiet_step [OF step 4] log by (simp add: close_log_def Let_def split: if_splits)
  qed
qed

lemma close_log_run:
  "srv_run evs server_Start = Some s \<Longrightarrow> exited s = None \<Longrightarrow> close_log evs s"
proof (induction evs arbitrary: s rule: rev_induct)
  case Nil
  then show ?case by (auto simp: close_log_def server_Start_def new_job_def Let_def)
next
  case (snoc ev evs)
  obtain s1 where s1: "srv_run evs server_Start = Some s1" "srv_step ev s1 = Some s"
    using snoc.prems(1) by (auto simp: srv.run_append srv.run_one split: option.splits)
  have "exited s1 = None" using s1(2) by (simp add: srv_step_def split: if_splits)
  then show ?case
    using close_log_step [OF srv_run_inv [OF s1(1)] snoc.prems(2) snoc.IH [OF s1(1)] s1(2)] by simp
qed

text \<open>C23. The order of a shutdown: when \<open>Done\<close> reports the end, the context was over, the client's
  process has ended, nothing listens any more, so no request for a lease reaches the client, and, if
  the client ever had a connection, it was closed exactly once; then no socket is open unless
  closing one reported an error. In particular a dual connection whose first socket fails to
  close leaves the other one open. And the client's process never ends by itself.\<close>

theorem shutdown_order:
  assumes "srv_run evs server_Start = Some s" and "exited s = None"
  shows "(server_done s \<longrightarrow> ctx_over s \<and> finished (client s) \<and> listener s = LClosed \<and>
      (\<forall>r. srv_step (SLease r) s = None) \<and>
      (case client_conn s of
         None \<Rightarrow> filter is_close evs = []
       | Some c \<Rightarrow> (\<exists>a b. filter is_close evs = [SClose a b] \<and>
           (a = Closed \<and> b = Closed \<longrightarrow> \<not> in_open s \<and> \<not> out_open s) \<and>
           (a \<noteq> Closed \<and> (\<exists>l r f. c = DualConn l r f) \<longrightarrow> out_open s)))) \<and>
    (client_conn s \<noteq> None \<and> finished (client s) \<longrightarrow> ctx_over s \<and> main_pc s \<noteq> MServe)"
proof -
  have ok: "client_ok s" "main_ok s" using srv_run_inv [OF assms(1)] assms(2) by (simp_all add: srv_inv_def)
  obtain j where j: "jobs (client s) = [j]" "job_view s j" by (rule client_okD [OF ok(1)])
  have fin: "finished (client s) \<longrightarrow> job_pc j = JEnd \<and> (client_conn s \<noteq> None \<longrightarrow> \<not> init_failed j \<and> cancelled (client s)) \<and>
      (client_conn s = None \<longrightarrow> init_failed j)"
    using j(2) by (cases "job_pc j") (auto simp: job_view_def split: if_splits)
  moreover have "server_done s \<longrightarrow> ctx_over s \<and> finished (client s) \<and> listener s = LClosed"
    "cancelled (client s) \<longrightarrow> ctx_over s \<and> main_pc s \<noteq> MServe"
    using ok(2) by (cases "main_pc s"; simp add: main_ok_def)+
  moreover have "case client_conn s of
         None \<Rightarrow> filter is_close evs = []
       | Some c \<Rightarrow> (\<exists>a b. filter is_close evs = [SClose a b] \<and>
           (a = Closed \<and> b = Closed \<longrightarrow> \<not> in_open s \<and> \<not> out_open s) \<and>
           (a \<noteq> Closed \<and> (\<exists>l r f. c = DualConn l r f) \<longrightarrow> out_open s))" if fd: "finished (client s)"
  proof (cases "client_conn s")
    case None
    then show ?thesis using close_log_run [OF assms] fin fd j(1) by (simp add: close_log_def)
  next
    case (Some c)
    then obtain a b where "filter is_close evs = [SClose a b]"
        "(in_open s, out_open s) = fst (conn_Close c a b (True, True))"
      using close_log_run [OF assms] fin fd j(1) by (auto simp: close_log_def)
    then show ?thesis
      using Some by (cases c; cases a)
        (auto simp: conn_Close_def close_error_def left_open_def split: close_result.splits)
  qed
  ultimately show ?thesis by (auto simp: srv_step_def)
qed

theorem shutdown_order_witness:
  "(\<exists>s. srv_run (life_run sample_udp Closed Closed) server_Start = Some s \<and> server_done s \<and> \<not> in_open s \<and> \<not> out_open s) \<and>
   (\<exists>s. srv_run (life_run sample_dual (CloseError ''bad file descriptor'' False) Closed) server_Start = Some s \<and>
      server_done s \<and> out_open s)"
proof
  let ?r = "srv_run (life_run sample_udp Closed Closed) server_Start"
  have "?r \<noteq> None" "exited (the ?r) = None" "server_done (the ?r)" "client_conn (the ?r) \<noteq> None" by code_simp+
  then obtain s c where s: "?r = Some s" "exited s = None" "server_done s" "client_conn s = Some c" by auto
  have "filter is_close (life_run sample_udp Closed Closed) = [SClose Closed Closed]" by code_simp
  then show "\<exists>s. ?r = Some s \<and> server_done s \<and> \<not> in_open s \<and> \<not> out_open s"
    using shutdown_order [OF s(1,2)] s by auto
next
  let ?evs = "life_run sample_dual (CloseError ''bad file descriptor'' False) Closed"
  let ?r = "srv_run ?evs server_Start"
  have "?r \<noteq> None" "exited (the ?r) = None" "server_done (the ?r)" "client_conn (the ?r) = Some sample_dual" by code_simp+
  then obtain s where s: "?r = Some s" "exited s = None" "server_done s" "client_conn s = Some sample_dual" by auto
  have "filter is_close ?evs = [SClose (CloseError ''bad file descriptor'' False) Closed]" by code_simp
  then show "\<exists>s. ?r = Some s \<and> server_done s \<and> out_open s"
    using shutdown_order [OF s(1,2)] s by (auto simp: sample_dual_def)
qed

subsection \<open>The server can be stopped\<close>

definition can_down :: "server \<Rightarrow> bool" where
  "can_down s \<longleftrightarrow> (\<exists>evs s'. srv_run evs s = Some s' \<and> server_done s' \<and> exited s' = None)"

lemma can_down_step: "srv_step ev s = Some s' \<Longrightarrow> can_down s' \<Longrightarrow> can_down s"
  unfolding can_down_def by (metis srv_run.simps(2) option.simps(5))

lemma down_shutdown: "exited s = None \<Longrightarrow> main_pc s = MShutdown \<Longrightarrow> can_down s"
  by (rule can_down_step [of "SDown None"])
    (auto simp: srv_step_def guarded_def can_down_def intro!: exI [of _ "[]"])

lemma down_stopped:
  assumes "exited s = None" and "main_pc s = MStop" and "finished (client s)"
  shows "can_down s"
proof -
  let ?s' = "s\<lparr>main_pc := MShutdown, listener := LClosed\<rparr>"
  have "srv_step SStopped s = Some ?s'" using assms by (simp add: srv_step_def guarded_def can_return_def)
  then show ?thesis by (rule can_down_step) (rule down_shutdown; simp add: assms(1))
qed

lemma close_step:
  assumes "exited s = None" and "jobs (client s) = [j]" and "job_view s j" and "crashed (client s) = None"
    and "job_pc j = JClose"
  shows "\<exists>s'. srv_step (SClose Closed Closed) s = Some s' \<and> exited s' = None \<and> main_pc s' = main_pc s \<and> finished (client s')"
proof -
  obtain c where "client_conn s = Some c" using assms(3,5) by (auto simp: job_view_def)
  then show ?thesis using assms by (cases "conn_Close c Closed Closed (in_open s, out_open s)")
      (auto simp: srv_step_def srv_defs split: prod.split)
qed

lemma process_step:
  assumes "exited s = None" and "jobs (client s) = [j]" and "has_close (client s)" and "crashed (client s) = None"
    and "job_pc j = JProcess" and "cancelled (client s)"
  shows "\<exists>s' j'. srv_step SProcess s = Some s' \<and> exited s' = None \<and> main_pc s' = main_pc s \<and>
    jobs (client s') = [j'] \<and> job_pc j' = JClose"
  using assms by (simp add: srv_step_def srv_defs)

lemma down_stop:
  assumes inv: "srv_inv s" and e: "exited s = None" and m: "main_pc s = MStop"
  shows "can_down s"
proof -
  have closing: "can_down t" if "srv_inv t" "exited t = None" "main_pc t = MStop" "jobs (client t) = [j]"
      "job_pc j = JClose" for t j
  proof -
    have "client_ok t" using that by (simp add: srv_inv_def)
    then have "job_view t j" "crashed (client t) = None" using that(4) by (auto simp: client_ok_def)
    from close_step [OF that(2,4) this that(5)] show ?thesis
      using that(3) down_stopped can_down_step by metis
  qed
  have ok: "client_ok s" "main_ok s" using inv e by (simp_all add: srv_inv_def)
  obtain j where j: "jobs (client s) = [j]" "job_view s j" "has_close (client s)" "crashed (client s) = None"
    by (rule client_okD [OF ok(1)])
  have c: "cancelled (client s)" "started j" using ok(2) m j(1) by (simp_all add: main_ok_def)
  show ?thesis
  proof (cases "job_pc j")
    case JInit
    then show ?thesis using j(2) c by (simp add: job_view_def)
  next
    case JProcess
    from process_step [OF e j(1,3,4) this c(1)] obtain s' j' where
      s': "srv_step SProcess s = Some s'" "exited s' = None" "main_pc s' = main_pc s"
        "jobs (client s') = [j']" "job_pc j' = JClose" by blast
    have "can_down s'" by (rule closing [OF srv_inv_step [OF inv s'(1)] s'(2) _ s'(4,5)]) (simp add: s'(3) m)
    then show ?thesis by (rule can_down_step [OF s'(1)])
  next
    case JClose
    then show ?thesis using closing [OF inv e m j(1)] by simp
  next
    case JEnd
    then show ?thesis using down_stopped [OF e m] j(2) by (simp add: job_view_def)
  qed
qed

lemma down_serve:
  assumes inv: "srv_inv s" and e: "exited s = None" and m: "main_pc s = MServe"
  shows "can_down s"
proof -
  let ?t = "s\<lparr>ctx_over := True\<rparr>"
  have c: "srv_step SCtx s = Some ?t" using e by (simp add: srv_step_def)
  have "client_ok s" using inv e by (simp add: srv_inv_def)
  then have "\<exists>u. srv_step SStop ?t = Some u \<and> exited u = None \<and> main_pc u = MStop"
    using e m by (auto simp: srv_step_def srv_defs)
  then obtain u where u: "srv_step SStop ?t = Some u" "exited u = None" "main_pc u = MStop" by blast
  have "can_down u" by (rule down_stop [OF srv_inv_step [OF srv_inv_step [OF inv c] u(1)] u(2,3)])
  then show ?thesis using can_down_step [OF c] can_down_step [OF u(1)] by blast
qed

lemma go_step:
  "exited s = None \<Longrightarrow> main_pc s = MClient \<Longrightarrow> started (jobs (client s) ! 0) \<Longrightarrow>
    \<exists>s'. srv_step SGo s = Some s' \<and> exited s' = None \<and> main_pc s' = MServe"
  by (simp add: srv_step_def guarded_def)

lemma down_client:
  assumes inv: "srv_inv s" and e: "exited s = None" and m: "main_pc s = MClient"
  shows "can_down s"
proof -
  have going: "can_down t" if t: "srv_inv t" "exited t = None" "main_pc t = MClient" "started (jobs (client t) ! 0)" for t
  proof -
    obtain u where u: "srv_step SGo t = Some u" "exited u = None" "main_pc u = MServe"
      using go_step [OF t(2-4)] by blast
    have "can_down u" by (rule down_serve [OF srv_inv_step [OF t(1) u(1)] u(2,3)])
    then show ?thesis by (rule can_down_step [OF u(1)])
  qed
  have ok: "client_ok s" using inv e by (simp add: srv_inv_def)
  obtain j where j: "jobs (client s) = [j]" "job_view s j" "has_close (client s)" "crashed (client s) = None"
    by (rule client_okD [OF ok])
  show ?thesis
  proof (cases "job_pc j = JInit")
    case True
    then have "\<exists>t. srv_step (SInit (Ok (Inl []))) s = Some t \<and> exited t = None \<and> main_pc t = MClient \<and>
        started (jobs (client t) ! 0)"
      using e m j by (simp add: srv_step_def srv_defs)
    then obtain t where t: "srv_step (SInit (Ok (Inl []))) s = Some t" "exited t = None" "main_pc t = MClient"
        "started (jobs (client t) ! 0)" by blast
    have "can_down t" by (rule going [OF srv_inv_step [OF inv t(1)] t(2-4)])
    then show ?thesis by (rule can_down_step [OF t(1)])
  next
    case False
    then have "started (jobs (client s) ! 0)" using j(1,2) by (cases "job_pc j") (simp_all add: job_view_def)
    then show ?thesis by (rule going [OF inv e m])
  qed
qed

lemma inv_can_down:
  assumes inv: "srv_inv s" and e: "exited s = None"
  shows "can_down s"
proof (cases "main_pc s")
  case MEnd
  then have "server_done s" using inv e by (simp add: srv_inv_def main_ok_def)
  then show ?thesis using e by (auto simp: can_down_def intro!: exI [of _ "[]"])
qed (use down_client down_serve down_stop down_shutdown inv e in blast)+

text \<open>As long as the program has not ended, the server can be brought to its end in good order,
  with or without a client, whatever has happened before.\<close>

theorem server_can_end:
  assumes "srv_run evs server_Start = Some s" and "exited s = None"
  shows "\<exists>evs' s'. srv_run (evs @ evs') server_Start = Some s' \<and> server_done s' \<and> exited s' = None"
proof -
  have "can_down s" by (rule inv_can_down [OF srv_run_inv [OF assms(1)] assms(2)])
  then show ?thesis
    unfolding can_down_def using srv.run_appendI [OF assms(1)] by blast
qed

theorem server_can_end_witness:
  "\<exists>evs s'. srv_run (no_client_run @ evs) server_Start = Some s' \<and> server_done s'"
proof -
  let ?r = "srv_run no_client_run server_Start"
  have "?r \<noteq> None" "exited (the ?r) = None" by code_simp+
  then obtain s where s: "?r = Some s" "exited s = None" by auto
  show ?thesis using server_can_end [OF s] by blast
qed

end
