(* ===== verification/Command_Line.thy ===== *)
theory Command_Line
  imports Service_Start
begin

text \<open>
  The command of \<open>cmd/root.go\<close>: where the values of its flags come from, which DHCP server is
  meant by a name, and the main function around the server of \<open>service/server.go\<close>. What \<open>viper\<close> finds
  for a key, which texts \<open>pflag\<close> accepts for a flag and what the DNS answers are arguments; of viper it
  is relied on that a variable of the environment counts before the configuration file.
\<close>

subsection \<open>Flags\<close>

record flag =
  fl_name :: string
  fl_value :: string
  fl_changed :: bool

definition env_var :: "string \<Rightarrow> string" where
  "env_var name = map (\<lambda>c. if c = CHR ''-'' then CHR ''_'' else
     if (97 :: nat) \<le> of_char c \<and> of_char c \<le> (122 :: nat) then char_of (of_char c - 32 :: nat) else c) name"

text \<open>\<open>Flags().Set\<close>, whose error \<open>bindAllFlags\<close> does not look at.\<close>

definition flag_set :: "(string \<Rightarrow> string \<Rightarrow> bool) \<Rightarrow> string \<Rightarrow> flag \<Rightarrow> flag" where
  "flag_set accepts v f =
     (if accepts (fl_name f) v then f\<lparr>fl_value := v, fl_changed := True\<rparr> else f)"

definition bindAllFlags ::
  "(string option \<Rightarrow> string \<Rightarrow> string option) \<Rightarrow> (string \<Rightarrow> string \<Rightarrow> bool) \<Rightarrow> flag list \<Rightarrow> flag list" where
  "bindAllFlags get accepts fs = map (\<lambda>f.
     let bound = (if CHR ''-'' \<in> set (fl_name f) then Some (env_var (fl_name f)) else None) in
     if fl_changed f then f
     else (case get bound (fl_name f) of None \<Rightarrow> f | Some v \<Rightarrow> flag_set accepts v f)) fs"

datatype config_source = ConfigFile string | ConfigSearch string string

text \<open>\<open>initializeConfig\<close>: the file to read, and what its outcome means. A file that is searched for and
  not found is no error; one that is named is.\<close>

definition config_source_of :: "string \<Rightarrow> string \<Rightarrow> string + string \<Rightarrow> config_source fatal" where
  "config_source_of cfgFile env_config home =
     (if cfgFile \<noteq> [] then Ok (ConfigFile cfgFile)
      else if env_config \<noteq> [] then Ok (ConfigFile env_config)
      else case home of Inl e \<Rightarrow> Fatal e | Inr h \<Rightarrow> Ok (ConfigSearch h ''.rest2dhcp''))"

datatype config_read = ConfigRead | ConfigNotFound | ConfigError string

definition initializeConfig ::
  "config_read \<Rightarrow> (string option \<Rightarrow> string \<Rightarrow> string option) \<Rightarrow> (string \<Rightarrow> string \<Rightarrow> bool) \<Rightarrow> flag list \<Rightarrow>
     string + flag list" where
  "initializeConfig r get accepts fs =
     (case r of ConfigError e \<Rightarrow> Inl e | _ \<Rightarrow> Inr (bindAllFlags get accepts fs))"

subsection \<open>The DHCP server and the mode\<close>

record root_config = server_config +
  dhcp_server :: string

definition first_v4 :: "ip list \<Rightarrow> ip" where
  "first_v4 ips = (case find (\<lambda>a. to4 a \<noteq> None) ips of None \<Rightarrow> None | Some a \<Rightarrow> a)"

text \<open>A failed lookup is only logged.\<close>

definition resolve_server :: "(string \<Rightarrow> string + ip list) \<Rightarrow> root_config \<Rightarrow> root_config" where
  "resolve_server lookup c =
     (if c_remote c = None then
        (if dhcp_server c \<noteq> []
         then c\<lparr>c_remote := (case lookup (dhcp_server c) of Inl e \<Rightarrow> None | Inr ips \<Rightarrow> first_v4 ips)\<rparr>
         else c)
      else c\<lparr>dhcp_server := []\<rparr>)"

definition parse_mode :: "string \<Rightarrow> root_config \<Rightarrow> root_config fatal" where
  "parse_mode modetxt c = (case parse_conn_type AutoDetect modetxt of
       Inl e \<Rightarrow> Fatal (''Error: '' @ e)
     | Inr t \<Rightarrow> Ok (c\<lparr>c_mode := t\<rparr>))"

definition root_setup :: "(string \<Rightarrow> string + ip list) \<Rightarrow> string \<Rightarrow> kube_config \<Rightarrow> root_config \<Rightarrow> root_config fatal" where
  "root_setup lookup modetxt kube c = (case parse_mode modetxt (resolve_server lookup c) of
       Ok c' \<Rightarrow> Ok (c'\<lparr>c_kube := Some kube\<rparr>) | Fatal e \<Rightarrow> Fatal e | Panics p \<Rightarrow> Panics p)"

subsection \<open>The main function\<close>

text \<open>
  The main goroutine waits for \<open>Start\<close>, then for an interrupt or the end of the server. The channel of
  signals holds one; once an interrupt was taken they are no longer caught, so the next one ends the
  program at once, as any other signal does all the time.
\<close>

datatype cmd_pc = CStart | CWait | CStopping | CEnd

record command =
  cmd_server :: server
  cmd_pc :: cmd_pc
  signalled :: bool
  killed :: bool

datatype cmd_signal = SIGINT | SIGTERM

datatype cmd_event = CServer srv_event | CSignal cmd_signal | CReady | CTerm | CDone

definition command_start :: command where
  "command_start = \<lparr>cmd_server = server_Start, cmd_pc = CStart, signalled = False, killed = False\<rparr>"

definition server_step :: "srv_event \<Rightarrow> command \<Rightarrow> command option" where
  "server_step ev c = map_option (\<lambda>s. c\<lparr>cmd_server := s\<rparr>) (srv_step ev (cmd_server c))"

definition cmd_step :: "cmd_event \<Rightarrow> command \<Rightarrow> command option" where
  "cmd_step ev c =
     (if killed c \<or> exited (cmd_server c) \<noteq> None \<or> cmd_pc c = CEnd then None
      else case ev of
        CServer e \<Rightarrow> if e = SCtx then None else server_step e c
      | CSignal g \<Rightarrow> if g = SIGTERM \<or> cmd_pc c = CStopping then Some (c\<lparr>killed := True\<rparr>) else Some (c\<lparr>signalled := True\<rparr>)
      | CReady \<Rightarrow> guarded (cmd_pc c = CStart \<and> ready (cmd_server c)) (c\<lparr>cmd_pc := CWait\<rparr>)
      | CTerm \<Rightarrow> if cmd_pc c = CWait \<and> signalled c
          then server_step SCtx (c\<lparr>cmd_pc := CStopping, signalled := False\<rparr>) else None
      | CDone \<Rightarrow> guarded (cmd_pc c \<in> {CWait, CStopping} \<and> server_done (cmd_server c)) (c\<lparr>cmd_pc := CEnd\<rparr>))"

fun cmd_run :: "cmd_event list \<Rightarrow> command \<Rightarrow> command option" where
  "cmd_run [] c = Some c"
| "cmd_run (ev # evs) c = (case cmd_step ev c of None \<Rightarrow> None | Some c' \<Rightarrow> cmd_run evs c')"

interpretation cmd: machine cmd_step cmd_run
  by unfold_locales simp_all


subsection \<open>Values of flags\<close>

text \<open>What is documented of viper: the environment, under the name of the flag in capitals or under
  the bound name, counts before the configuration file; an empty variable counts as none.\<close>

definition viper_order ::
  "(string option \<Rightarrow> string \<Rightarrow> string option) \<Rightarrow> (string \<Rightarrow> string) \<Rightarrow> (string \<Rightarrow> string option) \<Rightarrow> bool" where
  "viper_order get env file \<longleftrightarrow> (\<forall>k. get None k = (if env (env_var k) \<noteq> [] then Some (env (env_var k)) else file k)) \<and>
     (\<forall>v k. CHR ''-'' \<in> set k \<longrightarrow> get (Some v) k = (if env v \<noteq> [] then Some (env v) else file k))"

lemma bound_flag: "fl_name (flag_set accepts v f) = fl_name f"
  by (simp add: flag_set_def)

text \<open>What a flag is in the end: what the command line gave; else the variable of the environment, if
  there is one, else the entry of the file, in either case only if the flag accepts the text. A refused
  text is dropped without a word, and hides what comes after it.\<close>

lemma flag_value:
  assumes "viper_order get env file" and "i < length fs" and "f = fs ! i"
  shows "fl_value (bindAllFlags get accepts fs ! i) =
    (if fl_changed f then fl_value f
     else let v = (if env (env_var (fl_name f)) \<noteq> [] then Some (env (env_var (fl_name f))) else file (fl_name f))
       in case v of None \<Rightarrow> fl_value f | Some x \<Rightarrow> if accepts (fl_name f) x then x else fl_value f)"
  using assms by (auto simp: bindAllFlags_def viper_order_def flag_set_def Let_def split: option.split)

lemma flags_bound:
  "length (bindAllFlags get accepts fs) = length fs"
  "map fl_name (bindAllFlags get accepts fs) = map fl_name fs"
  by (simp_all add: bindAllFlags_def Let_def bound_flag split: option.split)

subsection \<open>A server given by its name\<close>

lemma resolve_simps:
  "c_remote c = None \<Longrightarrow> dhcp_server c \<noteq> [] \<Longrightarrow>
    resolve_server lookup c = c\<lparr>c_remote := (case lookup (dhcp_server c) of Inl e \<Rightarrow> None | Inr ips \<Rightarrow> first_v4 ips)\<rparr>"
  by (simp add: resolve_server_def)

text \<open>The address a connection sends to.\<close>

definition conn_server :: "connection \<Rightarrow> udp_addr" where
  "conn_server c = (case c of UDPConn l r \<Rightarrow> r | DualConn l r f \<Rightarrow> r | RawConn l r \<Rightarrow> r)"

lemma known_mode:
  assumes "parse_conn_type AutoDetect txt = Inr m"
  obtains conn where "GetConnection loc rem (if m = AutoDetect then getAutoConnectionType rem body else m) = Some conn"
    and "conn_server conn = (rem, 67)"
proof -
  let ?t = "if m = AutoDetect then getAutoConnectionType rem body else m"
  have "m \<in> {AutoDetect, UDP, Dual, Packet, Fritzbox, Broken}"
    using assms by (auto simp: parse_conn_type_def split: if_splits)
  moreover have "getAutoConnectionType rem body \<in> {Fritzbox, UDP, Broken}"
    by (simp add: getAutoConnectionType_def split: sum.split option.split)
  ultimately have "?t \<in> {UDP, Dual, Packet, Fritzbox, Broken}" by auto
  then have "\<exists>conn. GetConnection loc rem ?t = Some conn \<and> conn_server conn = (rem, 67)"
    by (auto simp: GetConnection_def conn_server_def)
  then show thesis using that by blast
qed

text \<open>The client's initialisation with a static resolver, once server and local address are found.\<close>

lemma init_known:
  assumes "GetServerIP new l = Ok ((remote, None), l1)" and "GetLocalIP new remote l1 = Ok ((loc, None), l2)"
    and "parse_conn_type AutoDetect txt = Inr m"
  shows "\<exists>rel t conn. init_client new (resolver_relay lookup api (StaticResolver s)) body m l =
      Ok (Inr (remote, loc, rel, t, Some conn)) \<and> conn_server conn = (remote, 67)"
proof -
  obtain conn where "GetConnection loc remote (if m = AutoDetect then getAutoConnectionType remote body else m) = Some conn"
      "conn_server conn = (remote, 67)"
    by (rule known_mode [OF assms(3)])
  then show ?thesis
    using assms(1,2) by (simp add: init_client_def resolver_relay_def GetRelayIP_def Let_def)
qed

text \<open>Server and local address from a route, for a host that has one.\<close>

lemma found_addresses:
  assumes "Route r (case remote_ip l of Some a \<Rightarrow> Some a | None \<Rightarrow> Some [1, 1, 1, 1]) = Inr (f, gw, Some src, None)"
  shows "\<exists>l1 loc l2. GetServerIP (Inr (Some r)) l =
      Ok ((case remote_ip l of Some a \<Rightarrow> Some a | None \<Rightarrow> gw, None), l1) \<and>
    GetLocalIP (Inr (Some r)) (case remote_ip l of Some a \<Rightarrow> Some a | None \<Rightarrow> gw) l1 = Ok ((loc, None), l2)"
  using assms by (auto simp: GetServerIP_def GetLocalIP_def of_result_def Let_def split: option.splits)

text \<open>C14. A command with a server name, without an address of the server and without a Kubernetes
  service, whose mode is one of the known texts, on a host that has a route with a source address to
  where it wants to send, comes up without an error. Its client talks to port 67 of the first IPv4
  address of that name; but when the name is unknown or has no IPv4 address, of the gateway of the
  default route (the one to 1.1.1.1): a misspelled name sends the requests to the router.\<close>

theorem server_by_name:
  fixes dns c
  defines "found \<equiv> find (\<lambda>a. to4 a \<noteq> None) (case dns (dhcp_server c) of Inl e \<Rightarrow> [] | Inr ips \<Rightarrow> ips)"
  assumes "c_remote c = None" and "dhcp_server c \<noteq> []" and "cfg_service kube = []"
    and "parse_conn_type AutoDetect modetxt = Inr m"
    and "Route r (case found of Some a \<Rightarrow> a | None \<Rightarrow> Some [1, 1, 1, 1]) = Inr (f, gw, Some src, None)"
  shows "\<exists>c' remote loc rel t conn. root_setup dns modetxt kube c = Ok c' \<and>
    start_client (Inr (Some r)) lookup k api api' body (server_config.truncate c') =
      Ok (Inr (remote, loc, rel, t, Some conn)) \<and>
    remote = (case found of Some a \<Rightarrow> a | None \<Rightarrow> gw) \<and> conn_server conn = (remote, 67)"
proof -
  let ?named = "case found of None \<Rightarrow> None | Some a \<Rightarrow> a"
  let ?c = "(resolve_server dns c)\<lparr>c_mode := m, c_kube := Some kube\<rparr>"
  have s: "root_setup dns modetxt kube c = Ok ?c"
    using assms(5) by (simp add: root_setup_def parse_mode_def)
  have "c_remote ?c = ?named"
    using resolve_simps [of c dns] assms(2,3) by (auto simp: first_v4_def found_def split: sum.split)
  then have t: "c_remote (server_config.truncate ?c) = ?named" "c_mode (server_config.truncate ?c) = m"
      "c_kube (server_config.truncate ?c) = Some kube"
    by (simp_all add: server_config.truncate_def)
  have nn: "found \<noteq> Some None" by (auto simp: found_def find_Some_iff to4_def)
  let ?l = "\<lparr>local_ip = c_local (server_config.truncate ?c), remote_ip = ?named\<rparr>"
  have "(case remote_ip ?l of Some a \<Rightarrow> Some a | None \<Rightarrow> d) = (case found of Some a \<Rightarrow> a | None \<Rightarrow> d)" for d
    using nn by (auto split: option.splits)
  then obtain l1 loc l2 where "GetServerIP (Inr (Some r)) ?l = Ok ((case found of Some a \<Rightarrow> a | None \<Rightarrow> gw, None), l1)"
      "GetLocalIP (Inr (Some r)) (case found of Some a \<Rightarrow> a | None \<Rightarrow> gw) l1 = Ok ((loc, None), l2)"
    using found_addresses [of r ?l f gw src] assms(6) by auto
  from init_known [OF this assms(5)] s t assms(4) show ?thesis
    by (simp add: start_client_def getIPResolver_def static_of_def NewStaticIPResolver_def resolver_base_def) blast
qed

definition sample_root :: root_config where
  "sample_root = \<lparr>c_local = None, c_remote = None, c_relay = None, c_mode = UDP, c_baseurl = [], c_hostname = [],
     c_port = 8080, c_kube = None, dhcp_server = ''dhpc.example''\<rparr>"

definition sample_kube_config :: kube_config where
  "sample_kube_config = \<lparr>cfg_namespace = ''default'', cfg_service = []\<rparr>"

theorem server_by_name_witness:
  "\<exists>c' loc rel t conn. root_setup (\<lambda>n. Inl ''no such host'') ''udp'' sample_kube_config sample_root = Ok c' \<and>
    start_client (Inr (Some sample_router)) (\<lambda>n. Inl []) (Inr ()) (Inl []) (Inl []) (Inl ()) (server_config.truncate c') =
      Ok (Inr (Some [192, 168, 1, 1], loc, rel, t, Some conn)) \<and> conn_server conn = (Some [192, 168, 1, 1], 67)"
proof -
  have "c_remote sample_root = None" "dhcp_server sample_root \<noteq> []" "cfg_service sample_kube_config = []"
    by (simp_all add: sample_root_def sample_kube_config_def)
  moreover have "parse_conn_type AutoDetect ''udp'' = Inr UDP" by (simp add: parse_conn_type_def conn_type_defs)
  ultimately show ?thesis
    using server_by_name [where c = sample_root and kube = sample_kube_config and modetxt = "''udp''" and m = UDP
        and dns = "\<lambda>n. Inl ''no such host''" and r = sample_router] route_lookup_example
    by simp
qed


subsection \<open>Interrupts\<close>

lemma client_event_flags:
  "client_event ev s = Some s' \<Longrightarrow> ctx_over s' = ctx_over s \<and> ready s' = ready s \<and> server_done s' = server_done s"
  by (auto simp: client_event_def)

lemma lease_request_flags:
  "lease_request r s = Some s' \<Longrightarrow> ctx_over s' = ctx_over s \<and> ready s' = ready s"
  by (auto simp: lease_request_def panic_on_def split: sum.splits lease_course.splits if_splits)

lemma srv_step_flags:
  assumes "srv_step ev s = Some s'"
  shows "(ctx_over s' \<longleftrightarrow> ctx_over s \<or> ev = SCtx) \<and> (ready s' \<longleftrightarrow> ready s \<or> ev = SProbe)"
proof (cases ev)
  case (SInit r)
  then show ?thesis
    using assms client_event_flags
    by (auto simp: srv_step_def split: if_splits fatal.splits sum.splits prod.splits)
next
  case (SClose r1 r2)
  then show ?thesis
    using assms client_event_flags
    by (auto simp: srv_step_def split: if_splits sum.splits prod.splits)
next
  case (SLease r)
  then show ?thesis using assms lease_request_flags by (auto simp: srv_step_def split: if_splits)
qed (use assms client_event_flags in \<open>auto simp: srv_step_def guarded_def split: if_splits\<close>)

definition cmd_inv :: "command \<Rightarrow> bool" where
  "cmd_inv c \<longleftrightarrow> srv_inv (cmd_server c) \<and>
     (case cmd_pc c of
        CStart \<Rightarrow> \<not> ctx_over (cmd_server c)
      | CWait \<Rightarrow> ready (cmd_server c) \<and> \<not> ctx_over (cmd_server c)
      | CStopping \<Rightarrow> ready (cmd_server c) \<and> ctx_over (cmd_server c)
      | CEnd \<Rightarrow> ready (cmd_server c) \<and> server_done (cmd_server c))"

lemma cmd_inv_step:
  assumes "cmd_inv c" and "cmd_step ev c = Some c'"
  shows "cmd_inv c'"
proof (cases ev)
  case (CServer e)
  then obtain s where s: "srv_step e (cmd_server c) = Some s" "c' = c\<lparr>cmd_server := s\<rparr>" "e \<noteq> SCtx" "cmd_pc c \<noteq> CEnd"
    using assms(2) by (auto simp: cmd_step_def server_step_def split: if_splits)
  have "srv_inv s" using assms(1) srv_inv_step [OF _ s(1)] by (simp add: cmd_inv_def)
  then show ?thesis
    using assms(1) srv_step_flags [OF s(1)] s(2-4) by (cases "cmd_pc c") (auto simp: cmd_inv_def)
next
  case CTerm
  then obtain s where s: "srv_step SCtx (cmd_server c) = Some s" "cmd_pc c = CWait"
      "c' = c\<lparr>cmd_pc := CStopping, signalled := False, cmd_server := s\<rparr>"
    using assms(2) by (auto simp: cmd_step_def server_step_def split: if_splits)
  have "srv_inv s" using assms(1) srv_inv_step [OF _ s(1)] by (simp add: cmd_inv_def)
  then show ?thesis using assms(1) srv_step_flags [OF s(1)] s(2,3) by (simp add: cmd_inv_def)
qed (use assms in \<open>auto simp: cmd_step_def guarded_def cmd_inv_def split: if_splits cmd_pc.splits\<close>)

lemma cmd_run_inv: "cmd_run evs command_start = Some c \<Longrightarrow> cmd_inv c"
proof -
  have "cmd_inv command_start"
    using srv_inv_Start by (simp add: cmd_inv_def command_start_def server_Start_def)
  then show "cmd_run evs command_start = Some c \<Longrightarrow> ?thesis"
    using cmd.run_invariant [of cmd_inv] cmd_inv_step by blast
qed

text \<open>A run of the server by itself, seen from the command: the context is over already, so the events
  that end it change nothing.\<close>

lemma srv_ctx_idle: "ctx_over s \<Longrightarrow> srv_step SCtx s = Some s' \<Longrightarrow> s' = s"
  by (auto simp: srv_step_def split: if_splits)

lemma lift_run:
  assumes "srv_run evs s = Some s'" and "exited s' = None" and "ctx_over s" and "cmd_server c = s"
    and "\<not> killed c" and "cmd_pc c \<noteq> CEnd"
  shows "\<exists>evs'. cmd_run evs' c = Some (c\<lparr>cmd_server := s'\<rparr>)"
  using assms
proof (induction evs arbitrary: s c)
  case Nil
  then show ?case by (intro exI [of _ "[]"]) simp
next
  case (Cons e es)
  obtain s1 where s1: "srv_step e s = Some s1" "srv_run es s1 = Some s'" by (rule srv.run_ConsD [OF Cons.prems(1)])
  have over: "ctx_over s1" using srv_step_flags [OF s1(1)] Cons.prems(3) by simp
  have ex: "exited s = None" using s1(1) by (simp add: srv_step_def split: if_splits)
  show ?case
  proof (cases "e = SCtx")
    case True
    then show ?thesis using Cons.IH [of s c] srv_ctx_idle [OF Cons.prems(3)] s1 Cons.prems by simp
  next
    case False
    obtain evs' where "cmd_run evs' (c\<lparr>cmd_server := s1\<rparr>) = Some (c\<lparr>cmd_server := s'\<rparr>)"
      using Cons.IH [OF s1(2) Cons.prems(2) over, of "c\<lparr>cmd_server := s1\<rparr>"] Cons.prems(5,6) by auto
    moreover have "cmd_step (CServer e) c = Some (c\<lparr>cmd_server := s1\<rparr>)"
      using s1(1) False ex Cons.prems by (simp add: cmd_step_def server_step_def)
    ultimately show ?thesis by (intro exI [of _ "CServer e # evs'"]) simp
  qed
qed

lemma cmd_ready_step:
  "cmd_step ev c = Some c' \<Longrightarrow> ready (cmd_server c') \<longleftrightarrow> ready (cmd_server c) \<or> ev = CServer SProbe"
  using srv_step_flags
  by (cases ev) (fastforce simp: cmd_step_def server_step_def guarded_def split: if_splits)+

lemma not_ready_run:
  "cmd_run evs c = Some c' \<Longrightarrow> cmd_inv c \<Longrightarrow> \<not> ready (cmd_server c) \<Longrightarrow> CServer SProbe \<notin> set evs \<Longrightarrow>
    cmd_pc c' = CStart \<and> \<not> ctx_over (cmd_server c')"
proof (induction evs arbitrary: c)
  case Nil
  then show ?case by (cases "cmd_pc c") (simp_all add: cmd_inv_def)
next
  case (Cons e es)
  obtain c1 where c1: "cmd_step e c = Some c1" "cmd_run es c1 = Some c'" by (rule cmd.run_ConsD [OF Cons.prems(1)])
  have "cmd_inv c1" by (rule cmd_inv_step [OF Cons.prems(2) c1(1)])
  moreover have "\<not> ready (cmd_server c1)" using cmd_ready_step [OF c1(1)] Cons.prems(3,4) by auto
  ultimately show ?case using Cons.IH [OF c1(2)] Cons.prems(4) by simp
qed

text \<open>Once the context is over, the server can be brought to its end and the main function to its.\<close>

lemma stopping_ends:
  assumes "cmd_inv c" and "exited (cmd_server c) = None" and "\<not> killed c" and "cmd_pc c = CStopping"
  shows "\<exists>evs c'. cmd_run evs c = Some c' \<and> cmd_pc c' = CEnd \<and> exited (cmd_server c') = None \<and> \<not> killed c'"
proof -
  have s: "srv_inv (cmd_server c)" "ctx_over (cmd_server c)" using assms(1,4) by (simp_all add: cmd_inv_def)
  obtain es s' where es: "srv_run es (cmd_server c) = Some s'" "server_done s'" "exited s' = None"
    using inv_can_down [OF s(1) assms(2)] unfolding can_down_def by blast
  obtain evs where e: "cmd_run evs c = Some (c\<lparr>cmd_server := s'\<rparr>)"
    using lift_run [OF es(1,3) s(2), of c] assms(3,4) by auto
  have "cmd_step CDone (c\<lparr>cmd_server := s'\<rparr>) = Some (c\<lparr>cmd_server := s', cmd_pc := CEnd\<rparr>)"
    using es assms(3,4) by (simp add: cmd_step_def guarded_def)
  then have "cmd_run (evs @ [CDone]) c = Some (c\<lparr>cmd_server := s', cmd_pc := CEnd\<rparr>)"
    using cmd.run_appendI [OF e] by simp
  then show ?thesis using es(3) assms(3) by (intro exI) auto
qed

lemma waiting_ends:
  assumes "cmd_inv c" and "exited (cmd_server c) = None" and "\<not> killed c" and "cmd_pc c = CWait" and "signalled c"
  shows "\<exists>evs c'. cmd_run evs c = Some c' \<and> cmd_pc c' = CEnd \<and> exited (cmd_server c') = None \<and> \<not> killed c'"
proof -
  let ?c = "c\<lparr>cmd_pc := CStopping, signalled := False, cmd_server := (cmd_server c)\<lparr>ctx_over := True\<rparr>\<rparr>"
  have t: "cmd_step CTerm c = Some ?c" using assms by (simp add: cmd_step_def server_step_def srv_step_def)
  obtain evs c' where "cmd_run evs ?c = Some c'" "cmd_pc c' = CEnd" "exited (cmd_server c') = None" "\<not> killed c'"
    using stopping_ends [OF cmd_inv_step [OF assms(1) t]] assms(2,3) by auto
  then show ?thesis using t by (intro exI [of _ "CTerm # evs"] exI [of _ c']) simp
qed

text \<open>C20. Before \<open>Start\<close> has returned, and as long as the server does not find itself at its own
  address, no interrupt has any effect: the context stays open and the main function keeps waiting.
  Afterwards an interrupt can end the command in good order: in every state that is reached, while the
  interrupt is waiting or being handled, and unless the program has crashed or was killed by a second
  signal, the end of the main function can still be reached without either. And the main function
  ends in no other way than with the context over, the client's process ended and nothing listening.\<close>

theorem interrupt_needs_ready:
  assumes "cmd_run evs command_start = Some c" and "exited (cmd_server c) = None" and "\<not> killed c"
  shows "(\<not> ready (cmd_server c) \<longrightarrow> (\<forall>evs' c'. cmd_run evs' c = Some c' \<and> CServer SProbe \<notin> set evs' \<longrightarrow>
      cmd_pc c' = CStart \<and> \<not> ctx_over (cmd_server c'))) \<and>
    (cmd_pc c = CWait \<and> signalled c \<or> cmd_pc c = CStopping \<longrightarrow> (\<exists>evs' c'. cmd_run evs' c = Some c' \<and>
      cmd_pc c' = CEnd \<and> exited (cmd_server c') = None \<and> \<not> killed c')) \<and>
    (cmd_pc c = CEnd \<longrightarrow> ctx_over (cmd_server c) \<and> server_done (cmd_server c) \<and>
      finished (client (cmd_server c)) \<and> listener (cmd_server c) = LClosed)"
proof -
  have inv: "cmd_inv c" by (rule cmd_run_inv [OF assms(1)])
  then have "main_ok (cmd_server c)" using assms(2) by (simp add: cmd_inv_def srv_inv_def)
  then have "server_done (cmd_server c) \<longrightarrow> ctx_over (cmd_server c) \<and> finished (client (cmd_server c)) \<and>
      listener (cmd_server c) = LClosed"
    by (cases "main_pc (cmd_server c)") (simp_all add: main_ok_def)
  moreover have "cmd_pc c = CEnd \<longrightarrow> server_done (cmd_server c)" using inv by (auto simp: cmd_inv_def)
  ultimately show ?thesis
    using not_ready_run [OF _ inv] stopping_ends [OF inv assms(2,3)] waiting_ends [OF inv assms(2,3)] by blast
qed

text \<open>Two runs: an interrupt while the client is being made, and one of a server that is ready.\<close>

definition early_run :: "cmd_event list" where
  "early_run = [CSignal SIGINT]"

definition late_run :: "cmd_event list" where
  "late_run = map CServer no_client_run @ [CReady, CSignal SIGINT]"

theorem interrupt_needs_ready_witness:
  "(\<exists>c. cmd_run early_run command_start = Some c \<and> signalled c \<and> (\<forall>evs' c'. cmd_run evs' c = Some c' \<and>
      CServer SProbe \<notin> set evs' \<longrightarrow> cmd_pc c' = CStart)) \<and>
   (\<exists>evs' c'. cmd_run (late_run @ evs') command_start = Some c' \<and> cmd_pc c' = CEnd)"
proof
  let ?r = "cmd_run early_run command_start"
  have "?r \<noteq> None" "exited (cmd_server (the ?r)) = None" "\<not> killed (the ?r)" "signalled (the ?r)"
    "\<not> ready (cmd_server (the ?r))" by code_simp+
  then obtain c where c: "?r = Some c" "exited (cmd_server c) = None" "\<not> killed c" "signalled c"
      "\<not> ready (cmd_server c)" by auto
  show "\<exists>c. ?r = Some c \<and> signalled c \<and> (\<forall>evs' c'. cmd_run evs' c = Some c' \<and>
      CServer SProbe \<notin> set evs' \<longrightarrow> cmd_pc c' = CStart)"
    using interrupt_needs_ready [OF c(1-3)] c by blast
next
  let ?r = "cmd_run late_run command_start"
  have "?r \<noteq> None" "exited (cmd_server (the ?r)) = None" "\<not> killed (the ?r)" "signalled (the ?r)"
    "cmd_pc (the ?r) = CWait" by code_simp+
  then obtain c where c: "?r = Some c" "exited (cmd_server c) = None" "\<not> killed c" "signalled c"
      "cmd_pc c = CWait" by auto
  obtain evs' c' where "cmd_run evs' c = Some c'" "cmd_pc c' = CEnd"
    using interrupt_needs_ready [OF c(1-3)] c(4,5) by blast
  then show "\<exists>evs' c'. cmd_run (late_run @ evs') command_start = Some c' \<and> cmd_pc c' = CEnd"
    using cmd.run_appendI [OF c(1)] by blast
qed

end
