(* ===== verification/Kube_Patch.thy ===== *)
theory Kube_Patch
  imports Prelude Host_Names
begin

text \<open>
  \<open>kubernetes/patch.go\<close>, the JSON patches for labels and annotations, and the operations of
  \<open>kubernetes/kube.go\<close> that look at an answer of the API. A patch is what \<open>json.Marshal\<close> is given.

  What a patch does is said by RFC 6902, which the server follows, on the part of an object
  the patches are about. \<open>strict\<close> tells apart what servers do with a \<open>replace\<close> of a member that is
  not there: the RFC refuses it, the library of the API server has long created the member.
\<close>

subsection \<open>Building a patch\<close>

datatype patch_item = Patch string string string | PatchStruct string string

record patch =
  patch_set :: "patch_item list"
  with_annotations :: bool
  with_labels :: bool

record meta_object =
  labels :: "(string \<rightharpoonup> string) option"
  annotations :: "(string \<rightharpoonup> string) option"

text \<open>\<open>GetLabels\<close> and \<open>GetAnnotations\<close>: whether there are any.\<close>

definition no_entries :: "(string \<rightharpoonup> string) option \<Rightarrow> bool" where
  "no_entries m \<longleftrightarrow> m = None \<or> m = Some Map.empty"

definition Add :: "patch_item list \<Rightarrow> patch \<Rightarrow> patch" where
  "Add its p = p\<lparr>patch_set := patch_set p @ its\<rparr>"

definition NewPatch :: "patch_item list list \<Rightarrow> patch" where
  "NewPatch sets = fold Add sets \<lparr>patch_set = [], with_annotations = False, with_labels = False\<rparr>"

text \<open>\<open>strings.Replace(key, "/", "~1", -1)\<close>.\<close>

definition escape_key :: "string \<Rightarrow> string" where
  "escape_key key = concat (map (\<lambda>c. if c = CHR ''/'' then ''~1'' else [c]) key)"

definition labels_path :: string where "labels_path = ''/metadata/labels''"
definition annotations_path :: string where "annotations_path = ''/metadata/annotations''"

definition getRemovePatch :: "string \<Rightarrow> patch_item list" where
  "getRemovePatch path = [Patch ''remove'' path []]"

definition getStringPatch :: "string \<Rightarrow> string \<Rightarrow> patch_item list" where
  "getStringPatch path v = [Patch ''replace'' path v]"

definition getLabelPatch :: "meta_object \<Rightarrow> string \<Rightarrow> string \<Rightarrow> patch \<Rightarrow> patch_item list \<times> patch" where
  "getLabelPatch obj key v p =
     ((if \<not> with_labels p \<and> no_entries (labels obj) then [PatchStruct ''add'' labels_path] else []) @
        [Patch ''replace'' (labels_path @ ''/'' @ escape_key key) v],
      p\<lparr>with_labels := True\<rparr>)"

definition getAnnotationPatch :: "meta_object \<Rightarrow> string \<Rightarrow> string \<Rightarrow> patch \<Rightarrow> patch_item list \<times> patch" where
  "getAnnotationPatch obj key v p =
     ((if \<not> with_annotations p \<and> no_entries (annotations obj) then [PatchStruct ''add'' annotations_path] else []) @
        [Patch ''replace'' (annotations_path @ ''/'' @ escape_key key) v],
      p\<lparr>with_annotations := True\<rparr>)"

definition patch_Set :: "string \<Rightarrow> string \<Rightarrow> patch \<Rightarrow> patch" where
  "patch_Set path v p = Add (getStringPatch path v) p"

definition patch_Remove :: "string \<Rightarrow> patch \<Rightarrow> patch" where
  "patch_Remove path p = Add (getRemovePatch path) p"

definition SetLabel :: "meta_object \<Rightarrow> string \<Rightarrow> string \<Rightarrow> patch \<Rightarrow> patch" where
  "SetLabel obj key v p = (let (its, p') = getLabelPatch obj key v p in Add its p')"

definition RemoveLabel :: "string \<Rightarrow> patch \<Rightarrow> patch" where
  "RemoveLabel key p = Add (getRemovePatch (labels_path @ ''/'' @ escape_key key)) p"

definition SetAnnotation :: "meta_object \<Rightarrow> string \<Rightarrow> string \<Rightarrow> patch \<Rightarrow> patch" where
  "SetAnnotation obj key v p = (let (its, p') = getAnnotationPatch obj key v p in Add its p')"

definition RemoveAnnotation :: "string \<Rightarrow> patch \<Rightarrow> patch" where
  "RemoveAnnotation key p = Add (getRemovePatch (annotations_path @ ''/'' @ escape_key key)) p"

subsection \<open>What a patch does\<close>

text \<open>A JSON pointer, as RFC 6901 reads it.\<close>

fun unescape :: "string \<Rightarrow> string" where
  "unescape [] = []"
| "unescape (c # s) = (case s of
       d # s' \<Rightarrow>
         if c = CHR ''~'' \<and> d = CHR ''1'' then CHR ''/'' # unescape s'
         else if c = CHR ''~'' \<and> d = CHR ''0'' then CHR ''~'' # unescape s'
         else c # unescape s
     | [] \<Rightarrow> c # unescape s)"

definition pointer :: "string \<Rightarrow> string list" where
  "pointer path = map unescape (tl (split_on (CHR ''/'') path))"

definition replace_entry ::
  "bool \<Rightarrow> string \<Rightarrow> string \<Rightarrow> (string \<rightharpoonup> string) option \<Rightarrow> (string \<rightharpoonup> string) option option" where
  "replace_entry strict k v m = (case m of
       None \<Rightarrow> None
     | Some f \<Rightarrow> if strict \<and> f k = None then None else Some (Some (f(k \<mapsto> v))))"

definition remove_entry :: "string \<Rightarrow> (string \<rightharpoonup> string) option \<Rightarrow> (string \<rightharpoonup> string) option option" where
  "remove_entry k m = (case m of
       None \<Rightarrow> None
     | Some f \<Rightarrow> if f k = None then None else Some (Some (f(k := None))))"

text \<open>A patch changes one of the two maps; \<open>None\<close> is a patch the server refuses.\<close>

definition at_member ::
  "string \<Rightarrow> ((string \<rightharpoonup> string) option \<Rightarrow> (string \<rightharpoonup> string) option option) \<Rightarrow> meta_object \<Rightarrow> meta_object option" where
  "at_member n f obj =
     (if n = ''labels'' then map_option (\<lambda>m. obj\<lparr>labels := m\<rparr>) (f (labels obj))
      else if n = ''annotations'' then map_option (\<lambda>m. obj\<lparr>annotations := m\<rparr>) (f (annotations obj))
      else None)"

definition apply_item :: "bool \<Rightarrow> patch_item \<Rightarrow> meta_object \<Rightarrow> meta_object option" where
  "apply_item strict it obj = (case it of
       PatchStruct oper path \<Rightarrow> (case pointer path of
           [m, n] \<Rightarrow> if m = ''metadata'' \<and> oper = ''add'' then at_member n (\<lambda>_. Some (Some Map.empty)) obj else None
         | _ \<Rightarrow> None)
     | Patch oper path v \<Rightarrow> (case pointer path of
           [m, n, k] \<Rightarrow>
             if m \<noteq> ''metadata'' then None
             else if oper = ''replace'' then at_member n (replace_entry strict k v) obj
             else if oper = ''remove'' then at_member n (remove_entry k) obj
             else None
         | _ \<Rightarrow> None))"

fun apply_patch :: "bool \<Rightarrow> patch_item list \<Rightarrow> meta_object \<Rightarrow> meta_object option" where
  "apply_patch strict [] obj = Some obj"
| "apply_patch strict (it # its) obj =
     (case apply_item strict it obj of None \<Rightarrow> None | Some obj' \<Rightarrow> apply_patch strict its obj')"


subsection \<open>The operations, as they are meant\<close>

datatype meta_op =
    OpSetLabel string string
  | OpRemoveLabel string
  | OpSetAnnotation string string
  | OpRemoveAnnotation string

fun op_key :: "meta_op \<Rightarrow> string" where
  "op_key (OpSetLabel k v) = k"
| "op_key (OpRemoveLabel k) = k"
| "op_key (OpSetAnnotation k v) = k"
| "op_key (OpRemoveAnnotation k) = k"

fun patch_op :: "meta_object \<Rightarrow> meta_op \<Rightarrow> patch \<Rightarrow> patch" where
  "patch_op obj (OpSetLabel k v) p = SetLabel obj k v p"
| "patch_op obj (OpRemoveLabel k) p = RemoveLabel k p"
| "patch_op obj (OpSetAnnotation k v) p = SetAnnotation obj k v p"
| "patch_op obj (OpRemoveAnnotation k) p = RemoveAnnotation k p"

definition set_entry ::
  "bool \<Rightarrow> string \<Rightarrow> string \<Rightarrow> (string \<rightharpoonup> string) option \<Rightarrow> (string \<rightharpoonup> string) option option" where
  "set_entry strict k v m =
     (let f = (case m of None \<Rightarrow> Map.empty | Some f \<Rightarrow> f)
      in if strict \<and> f k = None then None else Some (Some (f(k \<mapsto> v))))"

fun meant :: "bool \<Rightarrow> meta_op \<Rightarrow> meta_object \<Rightarrow> meta_object option" where
  "meant strict (OpSetLabel k v) obj = map_option (\<lambda>m. obj\<lparr>labels := m\<rparr>) (set_entry strict k v (labels obj))"
| "meant strict (OpRemoveLabel k) obj = map_option (\<lambda>m. obj\<lparr>labels := m\<rparr>) (remove_entry k (labels obj))"
| "meant strict (OpSetAnnotation k v) obj =
     map_option (\<lambda>m. obj\<lparr>annotations := m\<rparr>) (set_entry strict k v (annotations obj))"
| "meant strict (OpRemoveAnnotation k) obj =
     map_option (\<lambda>m. obj\<lparr>annotations := m\<rparr>) (remove_entry k (annotations obj))"

fun all_meant :: "bool \<Rightarrow> meta_op list \<Rightarrow> meta_object \<Rightarrow> meta_object option" where
  "all_meant strict [] obj = Some obj"
| "all_meant strict (x # xs) obj = (case meant strict x obj of None \<Rightarrow> None | Some obj' \<Rightarrow> all_meant strict xs obj')"

subsection \<open>Escaping\<close>

lemma escape_key_simps [simp]:
  "escape_key [] = []"
  "escape_key (c # s) = (if c = CHR ''/'' then ''~1'' else [c]) @ escape_key s"
  by (simp_all add: escape_key_def)

lemma escape_no_slash: "CHR ''/'' \<notin> set (escape_key k)"
  by (induction k) auto

lemma unescape_other: "c \<noteq> CHR ''~'' \<Longrightarrow> unescape (c # s) = c # unescape s"
  by (cases s) simp_all

lemma unescape_free: "CHR ''~'' \<notin> set s \<Longrightarrow> unescape s = s"
  by (induction s) (auto simp: unescape_other simp del: unescape.simps(2))

lemma unescape_slash: "unescape (CHR ''~'' # CHR ''1'' # s) = CHR ''/'' # unescape s"
  by simp

lemma unescape_escape: "CHR ''~'' \<notin> set k \<Longrightarrow> unescape (escape_key k) = k"
  by (induction k) (auto simp: unescape_other unescape_slash simp del: unescape.simps(2))

lemma split_on_here: "split_on c (c # ys) = [] # split_on c ys"
  by simp

lemma pointer_member:
  assumes "CHR ''/'' \<notin> set n" and "CHR ''~'' \<notin> set n"
  shows "pointer (''/metadata/'' @ n) = [''metadata'', n]"
    and "CHR ''/'' \<notin> set k \<Longrightarrow> pointer (''/metadata/'' @ n @ ''/'' @ k) = [''metadata'', n, unescape k]"
proof -
  have m: "split_on (CHR ''/'') (''/metadata/'' @ s) = [] # ''metadata'' # split_on (CHR ''/'') s" for s
    using split_on_here [of "CHR ''/''" "''metadata'' @ ''/'' @ s"]
      split_on_append [of "CHR ''/''" "''metadata''" s] by (simp del: split_on.simps)
  have u: "unescape ''metadata'' = ''metadata''" by (rule unescape_free) simp
  show "pointer (''/metadata/'' @ n) = [''metadata'', n]"
    unfolding pointer_def m split_on_free [OF assms(1)] using u unescape_free [OF assms(2)] by simp
  assume k: "CHR ''/'' \<notin> set k"
  have "split_on (CHR ''/'') (n @ ''/'' @ k) = [n, k]"
    using split_on_append [OF assms(1)] split_on_free [OF k] by (simp del: split_on.simps)
  then show "pointer (''/metadata/'' @ n @ ''/'' @ k) = [''metadata'', n, unescape k]"
    unfolding pointer_def m using u unescape_free [OF assms(2)] by simp
qed

lemma paths: "labels_path = ''/metadata/'' @ ''labels''" "annotations_path = ''/metadata/'' @ ''annotations''"
  by (simp_all add: labels_path_def annotations_path_def)

lemma pointer_paths:
  "pointer labels_path = [''metadata'', ''labels'']"
  "pointer annotations_path = [''metadata'', ''annotations'']"
  unfolding paths by (rule pointer_member; simp)+

lemma pointer_entry:
  assumes "CHR ''~'' \<notin> set k"
  shows "pointer (labels_path @ ''/'' @ escape_key k) = [''metadata'', ''labels'', k]"
    and "pointer (annotations_path @ ''/'' @ escape_key k) = [''metadata'', ''annotations'', k]"
  unfolding paths append_assoc
  by (subst pointer_member(2); simp add: escape_no_slash unescape_escape [OF assms])+

lemma apply_append:
  "apply_patch strict (xs @ ys) obj =
    (case apply_patch strict xs obj of None \<Rightarrow> None | Some obj' \<Rightarrow> apply_patch strict ys obj')"
  by (induction xs arbitrary: obj) (simp_all split: option.split)


subsection \<open>A patch does what was asked for\<close>

text \<open>What the flags of a patch say of the object it was built for, once the patch so far has been
  applied.\<close>

definition flag_ok :: "bool \<Rightarrow> (string \<rightharpoonup> string) option \<Rightarrow> (string \<rightharpoonup> string) option \<Rightarrow> bool" where
  "flag_ok flag orig now \<longleftrightarrow>
     (if flag \<or> \<not> no_entries orig then now \<noteq> None else no_entries now)"

definition patch_inv :: "meta_object \<Rightarrow> patch \<Rightarrow> meta_object \<Rightarrow> bool" where
  "patch_inv orig p now \<longleftrightarrow> flag_ok (with_labels p) (labels orig) (labels now) \<and>
     flag_ok (with_annotations p) (annotations orig) (annotations now)"

definition op_items :: "meta_object \<Rightarrow> meta_op \<Rightarrow> patch \<Rightarrow> patch_item list" where
  "op_items obj x p = drop (length (patch_set p)) (patch_set (patch_op obj x p))"

lemmas patch_defs = SetLabel_def getLabelPatch_def RemoveLabel_def SetAnnotation_def getAnnotationPatch_def
  RemoveAnnotation_def getRemovePatch_def Add_def Let_def

lemma patch_set_op: "patch_set (patch_op obj x p) = patch_set p @ op_items obj x p"
  by (cases x) (simp_all add: op_items_def patch_defs)

lemmas pointer_entries = pointer_entry [unfolded append.simps]

lemmas item_simps = apply_item_def pointer_paths at_member_def

lemma remove_none: "remove_entry k m = Some m' \<Longrightarrow> m \<noteq> None \<and> \<not> no_entries m \<and> m' \<noteq> None"
  by (auto simp: remove_entry_def no_entries_def split: option.splits if_splits)

lemma flag_remove: "flag_ok b orig m \<Longrightarrow> remove_entry k m = Some m' \<Longrightarrow> flag_ok b orig m'"
  using remove_none [of k m m'] by (auto simp: flag_ok_def)

lemma flag_set: "set_entry strict k v m = Some m' \<Longrightarrow> flag_ok True orig m'"
  by (auto simp: flag_ok_def set_entry_def Let_def split: if_splits)

text \<open>An entry is set by one patch or by two.\<close>

lemma set_by_replace: "m \<noteq> None \<Longrightarrow> replace_entry strict k v m = set_entry strict k v m"
  by (auto simp: replace_entry_def set_entry_def)

lemma set_by_add: "no_entries m \<Longrightarrow> replace_entry strict k v (Some Map.empty) = set_entry strict k v m"
  by (auto simp: replace_entry_def set_entry_def no_entries_def)

lemma op_applied:
  assumes inv: "patch_inv orig p now" and k: "CHR ''~'' \<notin> set (op_key x)"
  shows "apply_patch strict (op_items orig x p) now = meant strict x now"
proof (cases x)
  case (OpSetLabel k v)
  then have e: "pointer (labels_path @ CHR ''/'' # escape_key k) = [''metadata'', ''labels'', k]"
    using assms(2) by (simp add: pointer_entries)
  show ?thesis
  proof (cases "\<not> with_labels p \<and> no_entries (labels orig)")
    case True
    then have n: "no_entries (labels now)" using inv by (simp add: patch_inv_def flag_ok_def)
    have "op_items orig x p = [PatchStruct ''add'' labels_path, Patch ''replace'' (labels_path @ ''/'' @ escape_key k) v]"
      using True OpSetLabel by (simp add: op_items_def patch_defs)
    then show ?thesis
      using OpSetLabel set_by_add [OF n, of strict k v]
      by (simp add: item_simps e option.map_comp comp_def split: option.split)
  next
    case False
    then have n: "labels now \<noteq> None" using inv by (auto simp: patch_inv_def flag_ok_def)
    have "op_items orig x p = [Patch ''replace'' (labels_path @ ''/'' @ escape_key k) v]"
      using False OpSetLabel by (auto simp: op_items_def patch_defs)
    then show ?thesis
      using OpSetLabel set_by_replace [OF n, of strict k v] by (simp add: item_simps e split: option.split)
  qed
next
  case (OpSetAnnotation k v)
  then have e: "pointer (annotations_path @ CHR ''/'' # escape_key k) = [''metadata'', ''annotations'', k]"
    using assms(2) by (simp add: pointer_entries)
  show ?thesis
  proof (cases "\<not> with_annotations p \<and> no_entries (annotations orig)")
    case True
    then have n: "no_entries (annotations now)" using inv by (simp add: patch_inv_def flag_ok_def)
    have "op_items orig x p =
        [PatchStruct ''add'' annotations_path, Patch ''replace'' (annotations_path @ ''/'' @ escape_key k) v]"
      using True OpSetAnnotation by (simp add: op_items_def patch_defs)
    then show ?thesis
      using OpSetAnnotation set_by_add [OF n, of strict k v]
      by (simp add: item_simps e option.map_comp comp_def split: option.split)
  next
    case False
    then have n: "annotations now \<noteq> None" using inv by (auto simp: patch_inv_def flag_ok_def)
    have "op_items orig x p = [Patch ''replace'' (annotations_path @ ''/'' @ escape_key k) v]"
      using False OpSetAnnotation by (auto simp: op_items_def patch_defs)
    then show ?thesis
      using OpSetAnnotation set_by_replace [OF n, of strict k v] by (simp add: item_simps e split: option.split)
  qed
qed (use k in \<open>simp_all add: op_items_def patch_defs item_simps pointer_entries split: option.split\<close>)

lemma op_inv:
  assumes inv: "patch_inv orig p now" and m: "meant strict x now = Some now'"
  shows "patch_inv orig (patch_op orig x p) now'"
  using inv m flag_remove flag_set
  by (cases x) (auto simp: patch_inv_def patch_defs)

lemma ops_applied:
  assumes "list_all (\<lambda>x. CHR ''~'' \<notin> set (op_key x)) ops"
    and "\<And>now. apply_patch strict (patch_set p) orig = Some now \<Longrightarrow> patch_inv orig p now"
  shows "apply_patch strict (patch_set (fold (patch_op orig) ops p)) orig =
    (case apply_patch strict (patch_set p) orig of None \<Rightarrow> None | Some now \<Rightarrow> all_meant strict ops now)"
  using assms
proof (induction ops arbitrary: p)
  case Nil
  then show ?case by (simp split: option.split)
next
  case (Cons x ops)
  let ?p = "patch_op orig x p"
  have x: "CHR ''~'' \<notin> set (op_key x)" and ops: "list_all (\<lambda>x. CHR ''~'' \<notin> set (op_key x)) ops"
    using Cons.prems(1) by simp_all
  have step: "apply_patch strict (patch_set ?p) orig =
      (case apply_patch strict (patch_set p) orig of None \<Rightarrow> None | Some now \<Rightarrow> meant strict x now)"
    using op_applied [OF Cons.prems(2) x, of _ strict]
    by (simp add: patch_set_op apply_append split: option.split)
  have "patch_inv orig ?p now" if "apply_patch strict (patch_set ?p) orig = Some now" for now
    using that Cons.prems(2) op_inv by (auto simp: step split: option.splits)
  from Cons.IH [OF ops this] show ?case by (simp add: step split: option.split)
qed

text \<open>C28. A patch does what the calls that built it asked for, in their order: on the object it was
  built for, the server sets and removes exactly these labels and annotations and nothing else,
  and refuses the patch exactly when an entry to be removed, or in the strict reading one to be
  set, is not there at its turn. A slash in a key, as Kubernetes has them, is read back; a tilde,
  which is not escaped, is not.\<close>

theorem patch_as_meant:
  assumes "list_all (\<lambda>x. CHR ''~'' \<notin> set (op_key x)) ops"
  shows "apply_patch strict (patch_set (fold (patch_op obj) ops (NewPatch []))) obj = all_meant strict ops obj"
proof -
  have "patch_inv obj (NewPatch []) obj"
    by (auto simp: patch_inv_def flag_ok_def NewPatch_def no_entries_def)
  then show ?thesis
    using ops_applied [OF assms, of strict "NewPatch []" obj] by (simp add: NewPatch_def)
qed

definition bare_object :: meta_object where
  "bare_object = \<lparr>labels = None, annotations = None\<rparr>"

theorem patch_as_meant_witness:
  "apply_patch False (patch_set (fold (patch_op bare_object)
      [OpSetLabel ''app.io/name'' ''dhcp'', OpSetLabel ''tier'' ''net'', OpRemoveLabel ''tier''] (NewPatch []))) bare_object =
    Some \<lparr>labels = Some [''app.io/name'' \<mapsto> ''dhcp''], annotations = None\<rparr>"
proof -
  let ?ops = "[OpSetLabel ''app.io/name'' ''dhcp'', OpSetLabel ''tier'' ''net'', OpRemoveLabel ''tier'']"
  have "list_all (\<lambda>x. CHR ''~'' \<notin> set (op_key x)) ?ops" by simp
  from patch_as_meant [OF this, of False bare_object] show ?thesis
    by (simp add: bare_object_def set_entry_def remove_entry_def fun_upd_twist)
qed


subsection \<open>Answers of the API\<close>

text \<open>\<open>kubernetes/kube.go\<close> on what the API answered. A service comes with its type; a config map is
  its data. An event of the informer becomes the old and the new object.\<close>

definition GetServicesForLB :: "string + (string \<times> 'svc) list \<Rightarrow> string + 'svc list" where
  "GetServicesForLB answer = (case answer of
       Inl e \<Rightarrow> Inl e
     | Inr items \<Rightarrow> Inr (map snd (filter (\<lambda>(t, s). t = ''LoadBalancer'') items)))"

definition GetConfig :: "string + (string \<rightharpoonup> string) \<Rightarrow> string \<Rightarrow> string + string" where
  "GetConfig answer config = (case answer of
       Inl e \<Rightarrow> Inl e
     | Inr data \<Rightarrow> (case data config of None \<Rightarrow> Inl ''config entry not found'' | Some cfg \<Rightarrow> Inr cfg))"

datatype 'o informer_event = Added 'o | Deleted 'o | Updated 'o 'o

definition watch_message :: "'o informer_event \<Rightarrow> 'o option \<times> 'o option" where
  "watch_message ev = (case ev of
       Added x \<Rightarrow> (None, Some x)
     | Deleted x \<Rightarrow> (Some x, None)
     | Updated x y \<Rightarrow> (Some x, Some y))"

lemma watch_message_inj: "watch_message ev = watch_message ev' \<longleftrightarrow> ev = ev'"
  by (cases ev; cases ev') (simp_all add: watch_message_def)

end
