(* ===== verification/Js_Strings.thy ===== *)
theory Js_Strings
  imports Prelude
begin

text \<open>
  What the API browser's code under \<open>doc/\<close> uses of JavaScript's strings and exceptions. A string
  is the list of its UTF-16 code units; a function that may throw returns a sum. The operations
  are the language's own: \<open>split\<close> by a one-character separator, \<open>join\<close>, \<open>trim\<close>, \<open>startsWith\<close>,
  \<open>replace\<close> of a one-character pattern, the white space class of regular expressions.
\<close>

datatype js_error = Error string | RangeError | URIError | TypeError | SyntaxError

type_synonym 'a js = "js_error + 'a"

type_synonym unit16 = "16 word"

type_synonym jstr = "unit16 list"

text \<open>A literal of the source.\<close>

definition us :: "string \<Rightarrow> jstr" where
  "us s = map of_char s"

lemma us_simps [simp]: "us [] = []" "us (c # s) = of_char c # us s"
  by (simp_all add: us_def)

definition map_js :: "('a \<Rightarrow> 'b) \<Rightarrow> 'a js \<Rightarrow> 'b js" where
  "map_js f m = map_sum id f m"

lemma map_js_simps [simp]: "map_js f (Inl e) = Inl e" "map_js f (Inr x) = Inr (f x)"
  by (simp_all add: map_js_def)

lemma map_js_eq [simp]:
  "map_js f m = Inl e \<longleftrightarrow> m = Inl e"
  "map_js f m = Inr y \<longleftrightarrow> (\<exists>x. m = Inr x \<and> f x = y)"
  by (cases m; auto)+

lemma map_js_compose: "map_js f (map_js g m) = map_js (\<lambda>x. f (g x)) m"
  by (cases m) simp_all

definition bind_js :: "'a js \<Rightarrow> ('a \<Rightarrow> 'b js) \<Rightarrow> 'b js" where
  "bind_js m f = (case m of Inl e \<Rightarrow> Inl e | Inr x \<Rightarrow> f x)"

lemma bind_js_simps [simp]: "bind_js (Inl e) f = Inl e" "bind_js (Inr x) f = f x"
  by (simp_all add: bind_js_def)

lemma bind_js_Inr: "bind_js m f = Inr y \<longleftrightarrow> (\<exists>x. m = Inr x \<and> f x = Inr y)"
  by (cases m) simp_all

lemma bind_js_Inl: "bind_js m f = Inl e \<longleftrightarrow> m = Inl e \<or> (\<exists>x. m = Inr x \<and> f x = Inl e)"
  by (cases m) auto

text \<open>A loop whose body may throw.\<close>

fun mapM_js :: "('a \<Rightarrow> 'b js) \<Rightarrow> 'a list \<Rightarrow> 'b list js" where
  "mapM_js f [] = Inr []"
| "mapM_js f (x # xs) = bind_js (f x) (\<lambda>y. map_js ((#) y) (mapM_js f xs))"

lemma mapM_js_Inr:
  "mapM_js f xs = Inr ys \<longleftrightarrow> list_all2 (\<lambda>x y. f x = Inr y) xs ys"
  by (induction xs arbitrary: ys) (auto simp: bind_js_Inr list_all2_Cons1)

text \<open>
  The contract of an encoder that may throw and its decoder: what was written is read back. So no
  two values share a code, and it lifts to lists.
\<close>

locale codec =
  fixes enc :: "'a \<Rightarrow> 'b js" and dec :: "'b \<Rightarrow> 'a js"
  assumes dec_enc: "enc x = Inr y \<Longrightarrow> dec y = Inr x"
begin

lemma enc_inj: "enc x = Inr t \<Longrightarrow> enc y = Inr t \<Longrightarrow> x = y"
  by (metis dec_enc sum.inject(2))

lemma mapM_codec: "mapM_js enc xs = Inr ys \<Longrightarrow> mapM_js dec ys = Inr xs"
  by (induction xs arbitrary: ys) (auto simp: bind_js_Inr dec_enc)

end

text \<open>A second encoder whose code the decoder reads too, such as a spelling a browser prefers.\<close>

locale respelled_codec = codec enc dec
  for enc :: "'a \<Rightarrow> 'b js" and dec :: "'b \<Rightarrow> 'a js" +
  fixes respell :: "'b \<Rightarrow> 'b"
  assumes dec_respell: "enc x = Inr y \<Longrightarrow> dec (respell y) = Inr x"
begin

lemma respell_inj: "enc x = Inr s \<Longrightarrow> enc y = Inr t \<Longrightarrow> respell s = respell t \<Longrightarrow> x = y"
  by (metis dec_respell sum.inject(2))

lemma mapM_respell: "mapM_js enc xs = Inr ys \<Longrightarrow> mapM_js dec (map respell ys) = Inr xs"
  by (induction xs arbitrary: ys) (auto simp: bind_js_Inr dec_respell)

end

subsection \<open>Splitting and joining\<close>

fun split_at :: "unit16 \<Rightarrow> jstr \<Rightarrow> jstr list" where
  "split_at c [] = [[]]"
| "split_at c (x # xs) =
     (if x = c then [] # split_at c xs
      else case split_at c xs of [] \<Rightarrow> [[x]] | p # ps \<Rightarrow> (x # p) # ps)"

fun join_with :: "jstr \<Rightarrow> jstr list \<Rightarrow> jstr" where
  "join_with sep [] = []"
| "join_with sep [p] = p"
| "join_with sep (p # ps) = p @ sep @ join_with sep ps"

lemma split_at_not_Nil [simp]: "split_at c s \<noteq> []"
  by (induction s) (auto split: list.splits)

lemma split_at_append:
  "c \<notin> set p \<Longrightarrow> split_at c (p @ s) = (p @ hd (split_at c s)) # tl (split_at c s)"
  by (induction p) (auto split: list.splits)

lemma split_at_absent: "c \<notin> set p \<Longrightarrow> split_at c p = [p]"
  using split_at_append [of c p "[]"] by simp

lemma split_at_sep: "c \<notin> set p \<Longrightarrow> split_at c (p @ c # s) = p # split_at c s"
  using split_at_append [of c p "c # s"] by simp

lemma split_at_join:
  "ps \<noteq> [] \<Longrightarrow> \<forall>p \<in> set ps. c \<notin> set p \<Longrightarrow> split_at c (join_with [c] ps) = ps"
  by (induction "[c]" ps rule: join_with.induct) (auto simp: split_at_absent split_at_sep)

lemma join_set: "set (join_with sep ps) \<subseteq> set sep \<union> (\<Union>p \<in> set ps. set p)"
  by (induction sep ps rule: join_with.induct) auto

subsection \<open>White space, prefixes, replacement\<close>

text \<open>The class of \<open>\s\<close>, which is also what \<open>trim\<close> removes.\<close>

definition js_space :: "unit16 \<Rightarrow> bool" where
  "js_space c \<longleftrightarrow> 9 \<le> c \<and> c \<le> 13 \<or> c = 32 \<or> c = 160 \<or> c = 5760 \<or> 8192 \<le> c \<and> c \<le> 8202
     \<or> c = 8232 \<or> c = 8233 \<or> c = 8239 \<or> c = 8287 \<or> c = 12288 \<or> c = 65279"

definition trim_js :: "jstr \<Rightarrow> jstr" where
  "trim_js s = rev (dropWhile js_space (rev (dropWhile js_space s)))"

fun starts_with :: "jstr \<Rightarrow> jstr \<Rightarrow> bool" where
  "starts_with [] s = True"
| "starts_with (p # ps) [] = False"
| "starts_with (p # ps) (c # s) = (p = c \<and> starts_with ps s)"

lemma starts_with_iff: "starts_with p s \<longleftrightarrow> (\<exists>r. s = p @ r)"
  by (induction p s rule: starts_with.induct) auto

text \<open>\<open>indexOf(t) >= 0\<close>.\<close>

fun has_sub :: "jstr \<Rightarrow> jstr \<Rightarrow> bool" where
  "has_sub t [] = starts_with t []"
| "has_sub t (c # s) = (starts_with t (c # s) \<or> has_sub t s)"

lemma includes_iff: "has_sub t s \<longleftrightarrow> (\<exists>a b. s = a @ t @ b)"
proof (induction s)
  case Nil
  then show ?case by (auto simp: starts_with_iff)
next
  case (Cons c s)
  have "(\<exists>a b. c # s = a @ t @ b) \<longleftrightarrow> (\<exists>b. c # s = t @ b) \<or> (\<exists>a b. s = a @ t @ b)"
    by (metis append_Cons append_Nil list.exhaust_sel list.sel(3) tl_append2)
  then show ?case using Cons by (simp add: starts_with_iff)
qed

text \<open>\<open>replace(/p/g, t)\<close> for a class of single characters, and for a string.\<close>

definition replace_unit :: "(unit16 \<Rightarrow> bool) \<Rightarrow> jstr \<Rightarrow> jstr \<Rightarrow> jstr" where
  "replace_unit P t s = concat (map (\<lambda>c. if P c then t else [c]) s)"

lemma replace_unit_simps [simp]:
  "replace_unit P t [] = []"
  "replace_unit P t (c # s) = (if P c then t else [c]) @ replace_unit P t s"
  by (simp_all add: replace_unit_def)

lemma replace_unit_append [simp]:
  "replace_unit P t (a @ b) = replace_unit P t a @ replace_unit P t b"
  by (simp add: replace_unit_def)

lemma replace_unit_id: "\<forall>c \<in> set s. \<not> P c \<Longrightarrow> replace_unit P t s = s"
  by (induction s) auto

fun replace_str :: "jstr \<Rightarrow> jstr \<Rightarrow> jstr \<Rightarrow> jstr" where
  "replace_str p t [] = []"
| "replace_str p t (c # cs) =
     (if p \<noteq> [] \<and> starts_with p (c # cs) then t @ replace_str p t (drop (length p - 1) cs)
      else c # replace_str p t cs)"

subsection \<open>Objects\<close>

text \<open>
  A plain object as the list of its own properties. Assigning a string to \<open>__proto__\<close> does
  nothing: the setter that every plain object inherits ignores a primitive.
\<close>

type_synonym 'v jobj = "(jstr \<times> 'v) list"

definition proto_key :: jstr where
  "proto_key = us ''__proto__''"

definition set_prop :: "jstr \<Rightarrow> 'v \<Rightarrow> 'v jobj \<Rightarrow> 'v jobj" where
  "set_prop k v ob = (if k = proto_key then ob else AList.update k v ob)"

definition obj_ok :: "'v jobj \<Rightarrow> bool" where
  "obj_ok ob \<longleftrightarrow> distinct (map fst ob) \<and> proto_key \<notin> fst ` set ob"

lemma obj_ok_Nil [simp]: "obj_ok []"
  by (simp add: obj_ok_def)

lemma obj_ok_set [simp]: "obj_ok ob \<Longrightarrow> obj_ok (set_prop k v ob)"
  by (auto simp: obj_ok_def set_prop_def distinct_update dom_update)

lemma set_prop_append:
  "k \<notin> fst ` set ob \<Longrightarrow> k \<noteq> proto_key \<Longrightarrow> set_prop k v ob = ob @ [(k, v)]"
  by (induction ob) (auto simp: set_prop_def)

lemma map_of_set_prop:
  "map_of (set_prop k v ob) = (if k = proto_key then map_of ob else (map_of ob)(k \<mapsto> v))"
  by (simp add: set_prop_def)

end
