(* ===== verification/Js_Uri.thy ===== *)
theory Js_Uri
  imports Js_Strings
begin

text \<open>
  Percent-encoding and query strings: \<open>encodeURIComponent\<close> and \<open>decodeURIComponent\<close> of the
  language, and the functions of \<open>core/utils.js\<close> that the minified files carry: \<open>parseSearch\<close>
  and \<open>serializeSearch\<close> (\<open>j\<close> and \<open>N\<close> in \<open>swagger-ui-standalone-preset.js\<close>, \<open>Fe\<close> for the first
  in \<open>swagger-ui.js\<close>) and \<open>buildFormData\<close> (\<open>He\<close> in \<open>swagger-ui.js\<close>).
\<close>

subsection \<open>UTF-16 and UTF-8\<close>

definition is_lead :: "unit16 \<Rightarrow> bool" where
  "is_lead c \<longleftrightarrow> 0xD800 \<le> c \<and> c \<le> 0xDBFF"

definition is_trail :: "unit16 \<Rightarrow> bool" where
  "is_trail c \<longleftrightarrow> 0xDC00 \<le> c \<and> c \<le> 0xDFFF"

definition code_point :: "unit16 \<Rightarrow> unit16 \<Rightarrow> nat" where
  "code_point c d = (unat c - 0xD800) * 0x400 + (unat d - 0xDC00) + 0x10000"

definition utf16 :: "nat \<Rightarrow> jstr" where
  "utf16 v =
     (if v < 0x10000 then [of_nat v]
      else [of_nat (0xD800 + (v - 0x10000) div 0x400), of_nat (0xDC00 + (v - 0x10000) mod 0x400)])"

definition utf8 :: "nat \<Rightarrow> nat list" where
  "utf8 v =
     (if v < 0x80 then [v]
      else if v < 0x800 then [0xC0 + v div 64, 0x80 + v mod 64]
      else if v < 0x10000 then [0xE0 + v div 4096, 0x80 + v div 64 mod 64, 0x80 + v mod 64]
      else [0xF0 + v div 262144, 0x80 + v div 4096 mod 64, 0x80 + v div 64 mod 64, 0x80 + v mod 64])"

text \<open>How many octets the first one announces; 0 for one that starts none.\<close>

definition octet_count :: "nat \<Rightarrow> nat" where
  "octet_count b =
     (if b < 0x80 then 1 else if b < 0xC0 then 0 else if b < 0xE0 then 2
      else if b < 0xF0 then 3 else if b < 0xF8 then 4 else 0)"

definition octet_tail :: "nat \<Rightarrow> bool" where
  "octet_tail b \<longleftrightarrow> 0x80 \<le> b \<and> b < 0xC0"

definition scalar :: "nat \<Rightarrow> bool" where
  "scalar v \<longleftrightarrow> v \<le> 0x10FFFF \<and> \<not> (0xD800 \<le> v \<and> v \<le> 0xDFFF)"

text \<open>The code point of a valid UTF-8 sequence: shortest form, in range, no surrogate.\<close>

fun utf8_value :: "nat list \<Rightarrow> nat option" where
  "utf8_value [a] = (if a < 0x80 then Some a else None)"
| "utf8_value [a, b] =
     (let v = (a - 0xC0) * 64 + (b - 0x80) in
      if octet_tail b \<and> 0x80 \<le> v \<and> scalar v then Some v else None)"
| "utf8_value [a, b, c] =
     (let v = (a - 0xE0) * 4096 + (b - 0x80) * 64 + (c - 0x80) in
      if octet_tail b \<and> octet_tail c \<and> 0x800 \<le> v \<and> scalar v
      then Some v else None)"
| "utf8_value [a, b, c, d] =
     (let v = (a - 0xF0) * 262144 + (b - 0x80) * 4096 + (c - 0x80) * 64 + (d - 0x80) in
      if octet_tail b \<and> octet_tail c \<and> octet_tail d \<and> 0x10000 \<le> v \<and> scalar v
      then Some v else None)"
| "utf8_value _ = None"

lemma utf8_length: "scalar v \<Longrightarrow> length (utf8 v) = octet_count (hd (utf8 v))"
  by (auto simp: utf8_def octet_count_def scalar_def)

lemma utf8_not_Nil [simp]: "utf8 v \<noteq> []"
  by (simp add: utf8_def)

lemma utf8_octets: "scalar v \<Longrightarrow> \<forall>b \<in> set (utf8 v). b < 256"
  by (auto simp: utf8_def scalar_def)

lemma octet_tail_mod: "octet_tail (128 + n mod 64)"
  by (simp add: octet_tail_def)

lemma base64_digits:
  "v div 64 * 64 + v mod 64 = (v :: nat)"
  "v div 4096 * 4096 + v div 64 mod 64 * 64 + v mod 64 = (v :: nat)"
  "v div 262144 * 262144 + v div 4096 mod 64 * 4096 + v div 64 mod 64 * 64 + v mod 64 = (v :: nat)"
proof -
  have d: "v div 4096 = v div 64 div 64" "v div 262144 = v div 64 div 64 div 64"
    by (simp_all flip: div_mult2_eq)
  have s: "n div 64 * 64 + n mod 64 = n" for n :: nat by simp
  show "v div 64 * 64 + v mod 64 = v" by (rule s)
  show "v div 4096 * 4096 + v div 64 mod 64 * 64 + v mod 64 = v"
    using s [of v] s [of "v div 64"] unfolding d by linarith
  show "v div 262144 * 262144 + v div 4096 mod 64 * 4096 + v div 64 mod 64 * 64 + v mod 64 = v"
    using s [of v] s [of "v div 64"] s [of "v div 64 div 64"] unfolding d by linarith
qed

lemma utf8_value_utf8: "scalar v \<Longrightarrow> utf8_value (utf8 v) = Some v"
  unfolding utf8_def
  by (cases "v < 0x80"; cases "v < 0x800"; cases "v < 0x10000")
    (simp_all add: octet_tail_mod base64_digits scalar_def)

subsection \<open>Percent-encoding\<close>

definition alnum16 :: "unit16 \<Rightarrow> bool" where
  "alnum16 c \<longleftrightarrow> 48 \<le> c \<and> c \<le> 57 \<or> 65 \<le> c \<and> c \<le> 90 \<or> 97 \<le> c \<and> c \<le> 122"

definition uri_unescaped :: "unit16 \<Rightarrow> bool" where
  "uri_unescaped c \<longleftrightarrow> alnum16 c \<or> c \<in> set (us ''-_.!~*()'') \<or> c = 39"

definition hex_digit :: "nat \<Rightarrow> unit16" where
  "hex_digit n = us ''0123456789ABCDEF'' ! n"

definition hex_val :: "unit16 \<Rightarrow> nat option" where
  "hex_val c =
     (if 48 \<le> c \<and> c \<le> 57 then Some (unat (c - 48))
      else if 65 \<le> c \<and> c \<le> 70 then Some (unat (c - 55))
      else if 97 \<le> c \<and> c \<le> 102 then Some (unat (c - 87))
      else None)"

definition pct :: "nat \<Rightarrow> jstr" where
  "pct b = [37, hex_digit (b div 16), hex_digit (b mod 16)]"

definition escape_point :: "nat \<Rightarrow> jstr" where
  "escape_point v = concat (map pct (utf8 v))"

fun encodeURIComponent :: "jstr \<Rightarrow> jstr js" where
  "encodeURIComponent [] = Inr []"
| "encodeURIComponent (c # cs) =
     (if uri_unescaped c then map_js ((#) c) (encodeURIComponent cs)
      else if is_trail c then Inl URIError
      else if \<not> is_lead c then map_js ((@) (escape_point (unat c))) (encodeURIComponent cs)
      else case cs of
          [] \<Rightarrow> Inl URIError
        | d # ds \<Rightarrow>
            if \<not> is_trail d then Inl URIError
            else map_js ((@) (escape_point (code_point c d))) (encodeURIComponent ds))"

fun read_octet :: "jstr \<Rightarrow> (nat \<times> jstr) option" where
  "read_octet (c # h # l # r) =
     (if c \<noteq> 37 then None
      else case (hex_val h, hex_val l) of (Some a, Some b) \<Rightarrow> Some (16 * a + b, r) | _ \<Rightarrow> None)"
| "read_octet _ = None"

fun read_octets :: "nat \<Rightarrow> jstr \<Rightarrow> (nat list \<times> jstr) option" where
  "read_octets 0 s = Some ([], s)"
| "read_octets (Suc n) s =
     (case read_octet s of None \<Rightarrow> None
      | Some (b, r) \<Rightarrow>
          (case read_octets n r of None \<Rightarrow> None | Some (bs, r') \<Rightarrow> Some (b # bs, r')))"

lemma read_octet_length: "read_octet s = Some (b, r) \<Longrightarrow> length r < length s"
  by (cases s rule: read_octet.cases) (auto split: if_splits option.splits)

lemma read_octets_length: "read_octets n s = Some (bs, r) \<Longrightarrow> length r \<le> length s"
proof (induction n arbitrary: s bs)
  case (Suc n)
  then show ?case using read_octet_length by (fastforce split: option.splits)
qed simp

text \<open>One escape: the code point it stands for and the rest of the string.\<close>

definition read_escape :: "jstr \<Rightarrow> (nat \<times> jstr) option" where
  "read_escape s =
     (case read_octet s of None \<Rightarrow> None
      | Some (b, r) \<Rightarrow>
          if octet_count b = 0 then None
          else case read_octets (octet_count b - 1) r of None \<Rightarrow> None
            | Some (bs, r') \<Rightarrow>
                (case utf8_value (b # bs) of None \<Rightarrow> None | Some v \<Rightarrow> Some (v, r')))"

lemma read_escape_length: "read_escape s = Some (v, r) \<Longrightarrow> length r < length s"
  unfolding read_escape_def
  by (auto split: option.splits if_splits dest!: read_octet_length read_octets_length)

function decodeURIComponent :: "jstr \<Rightarrow> jstr js" where
  "decodeURIComponent [] = Inr []"
| "decodeURIComponent (c # cs) =
     (if c \<noteq> 37 then map_js ((#) c) (decodeURIComponent cs)
      else case read_escape (c # cs) of
          None \<Rightarrow> Inl URIError
        | Some (v, r) \<Rightarrow> map_js ((@) (utf16 v)) (decodeURIComponent r))"
  by pat_completeness auto
termination
  by (relation "measure length") (auto dest: read_escape_length)


subsection \<open>Decoding what was encoded\<close>

fun wf16 :: "jstr \<Rightarrow> bool" where
  "wf16 [] = True"
| "wf16 (c # cs) =
     (if is_trail c then False
      else if is_lead c then (case cs of [] \<Rightarrow> False | d # ds \<Rightarrow> is_trail d \<and> wf16 ds)
      else wf16 cs)"

lemma surrogate_nat:
  "is_lead c \<longleftrightarrow> 55296 \<le> unat c \<and> unat c \<le> 56319"
  "is_trail c \<longleftrightarrow> 56320 \<le> unat c \<and> unat c \<le> 57343"
  by (simp_all add: is_lead_def is_trail_def word_le_nat_alt)

lemma lead_not_trail: "is_lead c \<Longrightarrow> \<not> is_trail c"
  unfolding surrogate_nat by linarith

lemma unat16_less: "unat (c :: unit16) < 65536"
  using unsigned_less [of c] by simp

lemma unescaped_small: "uri_unescaped c \<Longrightarrow> c \<le> 126 \<and> c \<noteq> 37"
  unfolding uri_unescaped_def alnum16_def by (auto simp: word_le_nat_alt)

lemma unescaped_single: "uri_unescaped c \<Longrightarrow> \<not> is_lead c \<and> \<not> is_trail c"
  using unescaped_small [of c] by (simp add: surrogate_nat word_le_nat_alt)

lemma hex_val_digit: "n < 16 \<Longrightarrow> hex_val (hex_digit n) = Some n"
proof -
  assume "n < 16"
  then have "n \<in> set [0..<16]" by simp
  moreover have "\<forall>n \<in> set [0..<16]. hex_val (hex_digit n) = Some n" by code_simp
  ultimately show ?thesis by blast
qed

lemma read_octet_pct: "b < 256 \<Longrightarrow> read_octet (pct b @ r) = Some (b, r)"
  by (simp add: pct_def hex_val_digit less_mult_imp_div_less)

lemma read_octets_pct:
  "\<forall>b \<in> set bs. b < 256 \<Longrightarrow> read_octets (length bs) (concat (map pct bs) @ r) = Some (bs, r)"
  by (induction bs) (simp_all add: read_octet_pct)

lemma read_escape_point: "scalar v \<Longrightarrow> read_escape (escape_point v @ r) = Some (v, r)"
proof -
  assume v: "scalar v"
  obtain b bs where u: "utf8 v = b # bs" by (cases "utf8 v") simp_all
  have "octet_count b = Suc (length bs)" using utf8_length [OF v] u by simp
  then show ?thesis
    using utf8_octets [OF v] utf8_value_utf8 [OF v] u
    by (simp add: read_escape_def escape_point_def read_octet_pct read_octets_pct)
qed

lemma escape_point_Cons: "\<exists>cs. escape_point v = 37 # cs"
  by (cases "utf8 v") (simp_all add: escape_point_def pct_def)

lemma decode_escape:
  "scalar v \<Longrightarrow> decodeURIComponent (escape_point v @ r) = map_js ((@) (utf16 v)) (decodeURIComponent r)"
  using escape_point_Cons [of v] read_escape_point [of v r] by auto

lemma single_unit: "\<not> is_lead c \<Longrightarrow> \<not> is_trail c \<Longrightarrow> scalar (unat c) \<and> utf16 (unat c) = [c]"
  using unat16_less [of c] unfolding surrogate_nat scalar_def utf16_def
  by (simp add: not_le) linarith

lemma unit_pair:
  assumes "is_lead c" "is_trail d"
  shows "scalar (code_point c d) \<and> utf16 (code_point c d) = [c, d]"
proof -
  define x y where "x = unat c - 55296" and "y = unat d - 56320"
  have x: "unat c = 55296 + x" "x < 1024" and y: "unat d = 56320 + y" "y < 1024"
    using assms unfolding surrogate_nat x_def y_def by linarith+
  have v: "code_point c d = 65536 + (x * 1024 + y)"
    by (simp add: code_point_def x y)
  have "(x * 1024 + y) div 1024 = x" "(x * 1024 + y) mod 1024 = y" using y(2) by simp_all
  moreover have "of_nat (55296 + x) = c" "of_nat (56320 + y) = d"
    by (simp_all flip: x(1) y(1))
  ultimately show ?thesis
    using x(2) y(2) by (simp add: v scalar_def utf16_def)
qed


lemma encode_outcome:
  "(if wf16 s then \<exists>t. encodeURIComponent s = Inr t else encodeURIComponent s = Inl URIError)"
  by (induction s rule: encodeURIComponent.induct)
    (auto simp: unescaped_single lead_not_trail split: list.splits if_splits)

lemma hex_digit_unescaped: "n < 16 \<Longrightarrow> uri_unescaped (hex_digit n)"
proof -
  assume "n < 16"
  then have "n \<in> set [0..<16]" by simp
  moreover have "\<forall>n \<in> set [0..<16]. uri_unescaped (hex_digit n)" by code_simp
  ultimately show ?thesis by blast
qed

lemma pct_alphabet: "b < 256 \<Longrightarrow> c \<in> set (pct b) \<Longrightarrow> uri_unescaped c \<or> c = 37"
  by (auto simp: pct_def hex_digit_unescaped less_mult_imp_div_less)

lemma escape_alphabet: "scalar v \<Longrightarrow> c \<in> set (escape_point v) \<Longrightarrow> uri_unescaped c \<or> c = 37"
  unfolding escape_point_def using utf8_octets [of v] pct_alphabet by fastforce

lemma encode_alphabet:
  "encodeURIComponent s = Inr t \<Longrightarrow> c \<in> set t \<Longrightarrow> uri_unescaped c \<or> c = 37"
proof (induction s arbitrary: t rule: encodeURIComponent.induct)
  case (2 u cs)
  from "2.prems" show ?case
    using "2.IH" single_unit [of u] unit_pair [of u] escape_alphabet [of _ c]
    by (auto split: if_splits list.splits) blast
qed simp

lemma encoded_no_sep: "encodeURIComponent s = Inr t \<Longrightarrow> 38 \<notin> set t \<and> 61 \<notin> set t \<and> 43 \<notin> set t"
  using encode_alphabet [of s t 38] encode_alphabet [of s t 61] encode_alphabet [of s t 43]
  by (auto simp: uri_unescaped_def alnum16_def)

text \<open>
  A browser writes the apostrophe, which \<open>encodeURIComponent\<close> leaves alone, as \<open>%27\<close> when it
  stores the query of an address; the facts below hold for either spelling.
\<close>

definition quote_as :: "jstr \<Rightarrow> jstr \<Rightarrow> jstr" where
  "quote_as q s = replace_unit (\<lambda>c. c = 39) q s"

definition quote_ok :: "jstr \<Rightarrow> bool" where
  "quote_ok q \<longleftrightarrow> q = [39] \<or> q = us ''%27''"

lemma quote_as_simps [simp]:
  "quote_as q [] = []"
  "quote_as q (c # s) = (if c = 39 then q else [c]) @ quote_as q s"
  "quote_as q (a @ b) = quote_as q a @ quote_as q b"
  by (simp_all add: quote_as_def)

lemma quote_as_id [simp]: "quote_as [39] s = s"
  by (induction s) auto

lemma quote_as_absent: "39 \<notin> set s \<Longrightarrow> quote_as q s = s"
  unfolding quote_as_def by (rule replace_unit_id) auto

lemma decode_quote: "quote_ok q \<Longrightarrow> decodeURIComponent (q @ r) = map_js ((#) 39) (decodeURIComponent r)"
proof -
  have "read_escape (us ''%27'' @ r) = Some (39, r)"
    by (simp add: read_escape_def hex_val_def octet_count_def)
  moreover have "(@) [39 :: unit16] = (#) 39" by (simp add: fun_eq_iff)
  ultimately show "quote_ok q \<Longrightarrow> ?thesis" by (auto simp: quote_ok_def utf16_def)
qed

lemma hex_digit_quote: "n < 16 \<Longrightarrow> hex_digit n \<noteq> 39"
proof -
  assume "n < 16"
  then have "n \<in> set [0..<16]" by simp
  moreover have "\<forall>n \<in> set [0..<16]. hex_digit n \<noteq> 39" by code_simp
  ultimately show ?thesis by blast
qed

lemma escape_point_quote: "scalar v \<Longrightarrow> 39 \<notin> set (escape_point v)"
  using utf8_octets [of v] hex_digit_quote
  by (fastforce simp: escape_point_def pct_def less_mult_imp_div_less)

lemma decode_encode_append:
  assumes q: "quote_ok q"
  shows "encodeURIComponent s = Inr t \<Longrightarrow>
    decodeURIComponent (quote_as q t @ r) = map_js ((@) s) (decodeURIComponent r)"
proof (induction s arbitrary: t rule: encodeURIComponent.induct)
  case 1
  then show ?case by (cases "decodeURIComponent r") simp_all
next
  case (2 c cs)
  show ?case
  proof (cases "uri_unescaped c")
    case True
    then obtain t' where "t = c # t'" "encodeURIComponent cs = Inr t'" using "2.prems" by auto
    then show ?thesis
      using "2.IH"(1) [OF True] unescaped_small [OF True] decode_quote [OF q]
      by (simp add: map_js_compose)
  next
    case u: False
    then have nt: "\<not> is_trail c" using "2.prems" by auto
    show ?thesis
    proof (cases "is_lead c")
      case False
      then obtain t' where "t = escape_point (unat c) @ t'" "encodeURIComponent cs = Inr t'"
        using "2.prems" u nt by auto
      then show ?thesis
        using "2.IH"(2) [OF u nt False] single_unit [OF False nt]
        by (simp add: decode_escape map_js_compose quote_as_absent escape_point_quote)
    next
      case True
      then obtain d ds where cs: "cs = d # ds" "is_trail d"
        using "2.prems" u nt by (auto split: list.splits if_splits)
      then obtain t' where "t = escape_point (code_point c d) @ t'" "encodeURIComponent ds = Inr t'"
        using "2.prems" u nt True by auto
      then show ?thesis
        using "2.IH"(3) [OF u nt _ cs(1)] cs(2) True unit_pair [OF True cs(2)]
        by (simp add: cs(1) decode_escape map_js_compose quote_as_absent escape_point_quote)
    qed
  qed
qed

lemma decode_encode:
  "quote_ok q \<Longrightarrow> encodeURIComponent s = Inr t \<Longrightarrow> decodeURIComponent (quote_as q t) = Inr s"
  using decode_encode_append [of q s t "[]"] by simp

text \<open>Percent-encoding is a codec, also as the browser respells it.\<close>

interpretation uri: respelled_codec encodeURIComponent decodeURIComponent "quote_as (us ''%27'')"
  using decode_encode [of "[39]"] decode_encode [of "us ''%27''"]
  by unfold_locales (simp_all add: quote_ok_def)

lemma quote_as_alphabet:
  assumes "quote_ok q" "encodeURIComponent s = Inr t"
  shows "38 \<notin> set (quote_as q t) \<and> 61 \<notin> set (quote_as q t)"
proof -
  have "set (quote_as q t) \<subseteq> set t \<union> set q" by (induction t) auto
  moreover have "38 \<notin> set q \<and> 61 \<notin> set q" using assms(1) by (auto simp: quote_ok_def)
  ultimately show ?thesis using encoded_no_sep [OF assms(2)] by auto
qed

subsection \<open>Query strings\<close>

text \<open>\<open>parseSearch\<close>: one \<open>key=value\<close> part, and the loop over the parts.\<close>

definition parse_part :: "jstr \<Rightarrow> jstr jobj \<Rightarrow> jstr jobj js" where
  "parse_part p params =
     (let r = split_at 61 p in
      bind_js (decodeURIComponent (hd r)) (\<lambda>k.
      bind_js (if length r < 2 \<or> r ! 1 = [] then Inr [] else decodeURIComponent (r ! 1)) (\<lambda>v.
      Inr (set_prop k v params))))"

fun parse_parts :: "jstr list \<Rightarrow> jstr jobj \<Rightarrow> jstr jobj js" where
  "parse_parts [] params = Inr params"
| "parse_parts (p # ps) params = bind_js (parse_part p params) (parse_parts ps)"

definition parseSearch :: "jstr \<Rightarrow> jstr jobj js" where
  "parseSearch search =
     (if search = [] then Inr [] else parse_parts (split_at 38 (drop 1 search)) [])"

definition serialize_part :: "jstr \<times> jstr \<Rightarrow> jstr js" where
  "serialize_part kv =
     bind_js (encodeURIComponent (fst kv)) (\<lambda>k.
     map_js (\<lambda>v. k @ 61 # v) (encodeURIComponent (snd kv)))"

definition serializeSearch :: "jstr jobj \<Rightarrow> jstr js" where
  "serializeSearch params = map_js (join_with [38]) (mapM_js serialize_part params)"

text \<open>
  \<open>buildFormData\<close>: the names are sent as they are, a value that is \<open>undefined\<close> (\<open>None\<close> here) or
  empty is left out, and a space becomes a plus sign.
\<close>

fun form_parts :: "jstr option jobj \<Rightarrow> jstr list js" where
  "form_parts [] = Inr []"
| "form_parts ((n, v) # ps) =
     (case v of
        None \<Rightarrow> form_parts ps
      | Some x \<Rightarrow>
          if x = [] then form_parts ps
          else bind_js (encodeURIComponent x) (\<lambda>e.
            map_js ((#) (n @ 61 # replace_str (us ''%20'') [43] e)) (form_parts ps)))"

definition buildFormData :: "jstr option jobj \<Rightarrow> jstr js" where
  "buildFormData data = map_js (join_with [38]) (form_parts data)"


lemma split_part:
  "61 \<notin> set k \<Longrightarrow> 61 \<notin> set v \<Longrightarrow> split_at 61 (k @ 61 # v) = [k, v]"
  by (simp add: split_at_sep split_at_absent)

lemma parse_serialized:
  assumes q: "quote_ok q" and "serialize_part (k, v) = Inr p"
  shows "parse_part (quote_as q p) params = Inr (set_prop k v params) \<and> 38 \<notin> set (quote_as q p)"
proof -
  from assms obtain k' v' where e: "encodeURIComponent k = Inr k'" "encodeURIComponent v = Inr v'"
      and p: "p = k' @ 61 # v'"
    by (auto simp: serialize_part_def bind_js_Inr)
  have "quote_as q v' = [] \<longrightarrow> v = []" using decode_encode [OF q e(2)] by auto
  then show ?thesis
    using quote_as_alphabet [OF q e(1)] quote_as_alphabet [OF q e(2)] decode_encode [OF q e(1)]
      decode_encode [OF q e(2)]
    by (auto simp: parse_part_def p split_part)
qed

lemma parse_serialized_parts:
  assumes q: "quote_ok q"
  shows "list_all2 (\<lambda>kv p. serialize_part kv = Inr p) ps parts \<Longrightarrow> obj_ok (acc @ ps) \<Longrightarrow>
    parse_parts (map (quote_as q) parts) acc = Inr (acc @ ps) \<and>
    (\<forall>p \<in> set parts. 38 \<notin> set (quote_as q p))"
proof (induction ps parts arbitrary: acc rule: list_all2_induct)
  case (Cons kv ps p parts)
  obtain k v where kv: "kv = (k, v)" by (cases kv)
  have "k \<notin> fst ` set acc" "k \<noteq> proto_key" using Cons.prems by (auto simp: obj_ok_def kv)
  then show ?case
    using Cons.IH [of "acc @ [(k, v)]"] Cons.prems parse_serialized [OF q, of k v p acc] Cons.hyps(1)
    by (simp add: kv set_prop_append)
qed simp

lemma quote_as_join:
  "quote_as q (join_with [38] ps) = join_with [38] (map (quote_as q) ps)"
  by (induction "[38 :: unit16]" ps rule: join_with.induct) simp_all

lemma serialize_defined:
  "\<forall>(k, v) \<in> set ps. wf16 k \<and> wf16 v \<Longrightarrow>
    \<exists>parts. list_all2 (\<lambda>kv p. serialize_part kv = Inr p) ps parts"
proof (induction ps)
  case (Cons kv ps)
  obtain k v where kv: "kv = (k, v)" by (cases kv)
  have "wf16 k" "wf16 v" using Cons.prems by (auto simp: kv)
  then obtain p where "serialize_part kv = Inr p"
    using encode_outcome [of k] encode_outcome [of v] by (auto simp: kv serialize_part_def)
  then show ?case using Cons by (auto simp: list_all2_Cons1)
qed (auto intro: exI [of _ "[]"])

lemma search_round_trip_aux:
  assumes q: "quote_ok q" and "obj_ok ps" "\<forall>(k, v) \<in> set ps. wf16 k \<and> wf16 v" "ps \<noteq> []"
  shows "\<exists>t. serializeSearch ps = Inr t \<and> parseSearch (63 # quote_as q t) = Inr ps"
proof -
  obtain parts where parts: "list_all2 (\<lambda>kv p. serialize_part kv = Inr p) ps parts"
    using serialize_defined [OF assms(3)] by blast
  then have "parts \<noteq> []" using assms(4) by auto
  then show ?thesis
    using parse_serialized_parts [OF q parts, of "[]"] assms(2) parts
    by (auto simp: serializeSearch_def mapM_js_Inr parseSearch_def split_at_join quote_as_join)
qed

subsection \<open>Decoding keeps well-formed strings well-formed\<close>

lemma utf8_value_scalar: "utf8_value bs = Some v \<Longrightarrow> scalar v"
  by (cases bs rule: utf8_value.cases)
    (auto simp: Let_def scalar_def [of "_ :: nat"] split: if_splits)

lemma wf16_utf16: "scalar v \<Longrightarrow> wf16 (utf16 v @ t) \<longleftrightarrow> wf16 t"
proof -
  assume v: "scalar v"
  show ?thesis
  proof (cases "v < 65536")
    case True
    then have "unat (of_nat v :: unit16) = v" by (simp add: unat_of_nat)
    then have "\<not> is_lead (of_nat v)" "\<not> is_trail (of_nat v)"
      using v by (auto simp: surrogate_nat scalar_def)
    then show ?thesis using True by (simp add: utf16_def)
  next
    case False
    have "v - 65536 < 1048576" using v unfolding scalar_def by linarith
    then have "(v - 65536) div 1024 < 1024" "(v - 65536) mod 1024 < 1024"
      by (simp_all add: div_less_iff_less_mult)
    then have "is_lead (of_nat (55296 + (v - 65536) div 1024))"
        "is_trail (of_nat (56320 + (v - 65536) mod 1024))"
      unfolding surrogate_nat unat_of_nat by simp_all
    then show ?thesis using False by (simp add: utf16_def lead_not_trail)
  qed
qed

lemma wf16_append_single:
  "\<not> is_lead x \<Longrightarrow> \<not> is_trail x \<Longrightarrow> wf16 (a @ x # b) \<longleftrightarrow> wf16 a \<and> wf16 b"
  by (induction a rule: wf16.induct) (auto split: list.splits)

lemma hex_val_single: "hex_val c = Some n \<Longrightarrow> \<not> is_lead c \<and> \<not> is_trail c"
  by (auto simp: hex_val_def surrogate_nat word_le_nat_alt split: if_splits)

lemma pct_single: "\<not> is_lead 37" "\<not> is_trail 37"
  by (simp_all add: surrogate_nat)

lemma read_octet_wf: "read_octet s = Some (b, r) \<Longrightarrow> wf16 s \<Longrightarrow> wf16 r"
  by (cases s rule: read_octet.cases)
    (auto simp: pct_single split: if_splits option.splits dest!: hex_val_single)

lemma read_octets_wf: "read_octets n s = Some (bs, r) \<Longrightarrow> wf16 s \<Longrightarrow> wf16 r"
proof (induction n arbitrary: s bs)
  case (Suc n)
  then show ?case using read_octet_wf by (fastforce split: option.splits)
qed simp

lemma read_escape_wf: "read_escape s = Some (v, r) \<Longrightarrow> wf16 s \<Longrightarrow> wf16 r \<and> scalar v"
  unfolding read_escape_def
  using read_octet_wf read_octets_wf utf8_value_scalar
  by (fastforce split: option.splits if_splits)

lemma decode_wf16: "wf16 s \<Longrightarrow> decodeURIComponent s = Inr t \<Longrightarrow> wf16 t"
proof (induction "length s" arbitrary: s t rule: less_induct)
  case less
  show ?case
  proof (cases s)
    case Nil
    then show ?thesis using less.prems by simp
  next
    case (Cons c cs)
    show ?thesis
    proof (cases "c = 37")
      case True
      then obtain v r u where e: "read_escape s = Some (v, r)" and u: "decodeURIComponent r = Inr u"
          and t: "t = utf16 v @ u"
        using less.prems(2) Cons by (auto split: option.splits)
      have "wf16 r" "scalar v" using read_escape_wf [OF e] less.prems(1) by auto
      then show ?thesis
        using less.hyps [of r u] read_escape_length [OF e] u by (simp add: t wf16_utf16)
    next
      case c: False
      show ?thesis
      proof (cases "is_lead c")
        case False
        then show ?thesis
          using less.hyps [of cs] less.prems c Cons by auto
      next
        case True
        then obtain d ds where d: "cs = d # ds" "is_trail d" "wf16 ds"
          using less.prems(1) Cons by (auto split: list.splits if_splits)
        then have "d \<noteq> 37" using pct_single by auto
        then show ?thesis
          using less.hyps [of ds] less.prems c Cons d True lead_not_trail by auto
      qed
    qed
  qed
qed


lemma split_at_wf:
  "\<not> is_lead c \<Longrightarrow> \<not> is_trail c \<Longrightarrow> wf16 s \<Longrightarrow> list_all wf16 (split_at c s)"
proof (induction "length s" arbitrary: s rule: less_induct)
  case less
  show ?case
  proof (cases "c \<in> set s")
    case True
    then obtain p r where s: "s = p @ c # r" "c \<notin> set p" by (meson split_list_first)
    then show ?thesis
      using less.hyps [of r] less.prems by (simp add: split_at_sep wf16_append_single)
  qed (simp add: split_at_absent less.prems)
qed

lemma sep_single: "\<not> is_lead 38" "\<not> is_trail 38" "\<not> is_lead 61" "\<not> is_trail 61"
    "\<not> is_lead 63" "\<not> is_trail 63"
  by (simp_all add: surrogate_nat)

definition obj_wf :: "jstr jobj \<Rightarrow> bool" where
  "obj_wf ob \<longleftrightarrow> obj_ok ob \<and> (\<forall>(k, v) \<in> set ob. wf16 k \<and> wf16 v)"

lemma update_set: "set (AList.update k v al) \<subseteq> insert (k, v) (set al)"
  by (induction al) auto

lemma obj_wf_set: "obj_wf ob \<Longrightarrow> wf16 k \<Longrightarrow> wf16 v \<Longrightarrow> obj_wf (set_prop k v ob)"
  using update_set [of k v ob] obj_ok_set [of ob k v]
  by (fastforce simp: obj_wf_def set_prop_def)

lemma parse_part_wf:
  assumes "wf16 p" "obj_wf ob" "parse_part p ob = Inr ob'"
  shows "obj_wf ob'"
proof -
  have w: "list_all wf16 (split_at 61 p)" using assms(1) by (simp add: split_at_wf sep_single)
  obtain k v where k: "decodeURIComponent (hd (split_at 61 p)) = Inr k"
      and v: "(if length (split_at 61 p) < 2 \<or> split_at 61 p ! 1 = [] then Inr []
        else decodeURIComponent (split_at 61 p ! 1)) = Inr v"
      and ob': "ob' = set_prop k v ob"
    using assms(3) by (auto simp: parse_part_def Let_def bind_js_Inr)
  have "wf16 k" using w k decode_wf16 by (cases "split_at 61 p") auto
  moreover have "wf16 v"
    using v w decode_wf16 [of "split_at 61 p ! 1" v] by (auto simp: list_all_length split: if_splits)
  ultimately show ?thesis using assms(2) by (simp add: ob' obj_wf_set)
qed

lemma parse_parts_wf:
  "list_all wf16 ps \<Longrightarrow> obj_wf ob \<Longrightarrow> parse_parts ps ob = Inr ob' \<Longrightarrow> obj_wf ob'"
  by (induction ps arbitrary: ob) (auto simp: bind_js_Inr dest: parse_part_wf)

text \<open>What a browser hands out as \<open>location.search\<close>: empty, or a question mark and a query.\<close>

definition search_ok :: "jstr \<Rightarrow> bool" where
  "search_ok s \<longleftrightarrow> wf16 s \<and> (s = [] \<or> hd s = 63)"

lemma parseSearch_wf: "search_ok s \<Longrightarrow> parseSearch s = Inr ob \<Longrightarrow> obj_wf ob"
proof -
  assume s: "search_ok s" "parseSearch s = Inr ob"
  have "obj_wf []" by (simp add: obj_wf_def)
  moreover have "s \<noteq> [] \<Longrightarrow> wf16 (drop 1 s)"
    using s(1) sep_single by (cases s) (auto simp: search_ok_def)
  ultimately show ?thesis
    using s(2) parse_parts_wf [of "split_at 38 (drop 1 s)" "[]" ob] split_at_wf [of 38 "drop 1 s"]
    by (auto simp: parseSearch_def sep_single split: if_splits)
qed

lemma encoded_wf:
  assumes "encodeURIComponent s = Inr t" shows "wf16 t"
proof -
  have "\<forall>c \<in> set t. \<not> is_lead c \<and> \<not> is_trail c"
    using encode_alphabet [OF assms] unescaped_single pct_single by blast
  then show ?thesis by (induction t) auto
qed

text \<open>\<open>encodeURIComponent\<close> fails exactly on a lone surrogate; what it returns has only
  unreserved characters and \<open>%\<close>, and \<open>decodeURIComponent\<close> reads the string back.\<close>

theorem encode_decode:
  "if wf16 s
   then \<exists>t. encodeURIComponent s = Inr t \<and> list_all (\<lambda>c. uri_unescaped c \<or> c = 37) t \<and>
     decodeURIComponent t = Inr s
   else encodeURIComponent s = Inl URIError"
proof (cases "wf16 s")
  case True
  then obtain t where t: "encodeURIComponent s = Inr t" using encode_outcome [of s] by auto
  moreover have "decodeURIComponent t = Inr s"
    using decode_encode [OF _ t, of "[39]"] by (simp add: quote_ok_def)
  ultimately show ?thesis using True encode_alphabet [OF t] by (auto simp: list_all_iff)
qed (use encode_outcome [of s] in auto)

text \<open>\<open>parseSearch\<close> reads back the parameters \<open>serializeSearch\<close> wrote, in order, for any
  object of well-formed strings with a property, also after the browser has escaped apostrophes.\<close>

theorem search_round_trip:
  assumes "quote_ok q" "obj_wf params" "params \<noteq> []"
  shows "\<exists>t. serializeSearch params = Inr t \<and> parseSearch (63 # quote_as q t) = Inr params"
  using search_round_trip_aux [of q params] assms by (simp add: obj_wf_def)

lemma search_round_trip_witness:
  "\<exists>t. serializeSearch [(us ''url'', us ''a&b=c'')] = Inr t \<and>
    parseSearch (63 # quote_as (us ''%27'') t) = Inr [(us ''url'', us ''a&b=c'')]"
proof (rule search_round_trip)
  show "quote_ok (us ''%27'')" by (simp add: quote_ok_def)
  show "obj_wf [(us ''url'', us ''a&b=c'')]" by code_simp
qed simp


subsection \<open>Form data\<close>

text \<open>How the receiver of a form reads it: plus signs are spaces, then percent-decoding.\<close>

definition form_value :: "jstr \<Rightarrow> jstr js" where
  "form_value s = decodeURIComponent (replace_unit (\<lambda>c. c = 43) [32] s)"

definition form_field :: "jstr \<Rightarrow> (jstr \<times> jstr) js" where
  "form_field p =
     (let r = split_at 61 p in
      bind_js (form_value (hd r)) (\<lambda>n. map_js (Pair n) (form_value (join_with [61] (tl r)))))"

definition form_fields :: "jstr \<Rightarrow> (jstr \<times> jstr) list js" where
  "form_fields s = (if s = [] then Inr [] else mapM_js form_field (split_at 38 s))"

definition sent_fields :: "jstr option jobj \<Rightarrow> (jstr \<times> jstr) list" where
  "sent_fields data = [(n, x). (n, Some x) \<leftarrow> data, x \<noteq> []]"

definition plus :: "jstr \<Rightarrow> jstr" where
  "plus s = replace_str (us ''%20'') [43] s"

lemma hex_digit_eq: "n < 16 \<Longrightarrow> hex_digit n = 50 \<longleftrightarrow> n = 2" "n < 16 \<Longrightarrow> hex_digit n = 48 \<longleftrightarrow> n = 0"
  using hex_val_digit [of n] by (auto simp: hex_digit_def hex_val_def)

lemma plus_other: "c \<noteq> 37 \<Longrightarrow> plus (c # s) = c # plus s"
  by (auto simp: plus_def)

lemma plus_hex: "n < 16 \<Longrightarrow> plus (hex_digit n # s) = hex_digit n # plus s"
  using hex_val_digit [of n] by (intro plus_other) (auto simp: hex_val_def)

lemma plus_pct:
  assumes "b < 256" shows "plus (pct b @ s) = (if b = 32 then 43 # plus s else pct b @ plus s)"
proof -
  have n: "b div 16 < 16" "b mod 16 < 16" using assms by (simp_all add: less_mult_imp_div_less)
  have "b = 16 * (b div 16) + b mod 16" by simp
  then have "b = 32 \<longleftrightarrow> b div 16 = 2 \<and> b mod 16 = 0" by auto
  then have s: "starts_with (us ''%20'') (37 # hex_digit (b div 16) # hex_digit (b mod 16) # s) \<longleftrightarrow> b = 32"
    using hex_digit_eq(1) [OF n(1)] hex_digit_eq(2) [OF n(2)] by auto
  show ?thesis
  proof (cases "b = 32")
    case True
    then show ?thesis by (simp add: plus_def pct_def hex_digit_def)
  next
    case False
    then have "plus (pct b @ s) = 37 # plus (hex_digit (b div 16) # hex_digit (b mod 16) # s)"
      using s by (simp add: plus_def pct_def)
    then show ?thesis using False by (simp add: plus_hex n pct_def)
  qed
qed

lemma plus_pcts: "\<forall>b \<in> set bs. b < 256 \<and> b \<noteq> 32 \<Longrightarrow>
    plus (concat (map pct bs) @ s) = concat (map pct bs) @ plus s"
  by (induction bs) (simp_all add: plus_pct)

lemma utf8_no_space: "v \<noteq> 32 \<Longrightarrow> 32 \<notin> set (utf8 v)"
  by (auto simp: utf8_def)

lemma plus_escape:
  "scalar v \<Longrightarrow> plus (escape_point v @ s) = (if v = 32 then 43 # plus s else escape_point v @ plus s)"
proof (cases "v = 32")
  case True
  then show ?thesis by (simp add: escape_point_def utf8_def plus_pct)
next
  case False
  assume "scalar v"
  then have "\<forall>b \<in> set (utf8 v). b < 256 \<and> b \<noteq> 32"
    using utf8_octets utf8_no_space [OF False] by auto
  then show ?thesis using False by (simp add: escape_point_def plus_pcts)
qed

definition spaces :: "jstr \<Rightarrow> jstr" where
  "spaces s = replace_unit (\<lambda>c. c = 43) [32] s"

lemma unescaped_no_plus: "uri_unescaped c \<Longrightarrow> c \<noteq> 43 \<and> c \<noteq> 61 \<and> c \<noteq> 38"
  by (auto simp: uri_unescaped_def alnum16_def)

lemma spaces_escape: "scalar v \<Longrightarrow> spaces (escape_point v) = escape_point v"
  unfolding spaces_def
  by (rule replace_unit_id) (use escape_alphabet unescaped_no_plus in fastforce)

lemma spaces_simps [simp]:
  "spaces [] = []" "spaces (c # s) = (if c = 43 then 32 else c) # spaces s"
  "spaces (a @ b) = spaces a @ spaces b"
  by (simp_all add: spaces_def)

lemma form_point:
  assumes "scalar v"
  shows "decodeURIComponent (spaces (plus (escape_point v @ s))) =
    map_js ((@) (utf16 v)) (decodeURIComponent (spaces (plus s)))"
proof -
  have "(@) [32 :: unit16] = (#) 32" by (simp add: fun_eq_iff)
  then show ?thesis
    using assms by (simp add: plus_escape spaces_escape decode_escape utf16_def)
qed

lemma form_value_encoded_append:
  "encodeURIComponent s = Inr t \<Longrightarrow> decodeURIComponent (spaces (plus t)) = Inr s"
proof (induction s arbitrary: t rule: encodeURIComponent.induct)
  case 1
  then show ?case by (simp add: plus_def)
next
  case (2 c cs)
  show ?case
  proof (cases "uri_unescaped c")
    case True
    then obtain t' where "t = c # t'" "encodeURIComponent cs = Inr t'" using "2.prems" by auto
    then show ?thesis
      using "2.IH"(1) [OF True] unescaped_small [OF True] unescaped_no_plus [OF True]
      by (simp add: plus_other)
  next
    case u: False
    then have nt: "\<not> is_trail c" using "2.prems" by auto
    show ?thesis
    proof (cases "is_lead c")
      case False
      then obtain t' where "t = escape_point (unat c) @ t'" "encodeURIComponent cs = Inr t'"
        using "2.prems" u nt by auto
      then show ?thesis
        using "2.IH"(2) [OF u nt False] single_unit [OF False nt] by (simp add: form_point)
    next
      case True
      then obtain d ds where cs: "cs = d # ds" "is_trail d"
        using "2.prems" u nt by (auto split: list.splits if_splits)
      then obtain t' where "t = escape_point (code_point c d) @ t'" "encodeURIComponent ds = Inr t'"
        using "2.prems" u nt True by auto
      then show ?thesis
        using "2.IH"(3) [OF u nt _ cs(1)] cs(2) True unit_pair [OF True cs(2)]
        by (simp add: cs(1) form_point)
    qed
  qed
qed


text \<open>So is the encoding of form values.\<close>

interpretation form: codec "\<lambda>s. map_js plus (encodeURIComponent s)" form_value
  using form_value_encoded_append by unfold_locales (auto simp: form_value_def spaces_def)

lemma plus_set: "set (plus s) \<subseteq> insert 43 (set s)"
  unfolding plus_def
  by (induction "us ''%20''" "[43 :: unit16]" s rule: replace_str.induct)
    (auto dest: in_set_dropD)

lemma plus_no_sep:
  assumes "encodeURIComponent s = Inr t" shows "38 \<notin> set (plus t) \<and> 61 \<notin> set (plus t)"
  using plus_set [of t] encoded_no_sep [OF assms] by auto

lemma unescaped_form_value: "list_all uri_unescaped n \<Longrightarrow> form_value n = Inr n"
  unfolding form_value_def spaces_def [symmetric]
  by (induction n) (auto dest: unescaped_no_plus unescaped_small)

lemma form_part_read:
  assumes "list_all uri_unescaped n" "encodeURIComponent x = Inr e"
  shows "form_field (n @ 61 # plus e) = Inr (n, x) \<and> 38 \<notin> set (n @ 61 # plus e)"
proof -
  have n: "61 \<notin> set n" "38 \<notin> set n"
    using assms(1) unescaped_no_plus by (auto simp: list_all_iff)
  have "form_value (plus e) = Inr x" by (rule form.dec_enc) (simp add: assms(2))
  then show ?thesis
    using n plus_no_sep [OF assms(2)] unescaped_form_value [OF assms(1)]
    by (simp add: form_field_def split_part)
qed

definition form_ok :: "jstr option jobj \<Rightarrow> bool" where
  "form_ok data \<longleftrightarrow> list_all (\<lambda>(n, v). list_all uri_unescaped n \<and> (v \<noteq> None \<longrightarrow> wf16 (the v))) data"

lemma form_parts_read:
  "form_ok data \<Longrightarrow> \<exists>parts. form_parts data = Inr parts \<and>
     list_all2 (\<lambda>p f. form_field p = Inr f) parts (sent_fields data) \<and> (\<forall>p \<in> set parts. 38 \<notin> set p \<and> p \<noteq> [])"
proof (induction data rule: form_parts.induct)
  case (2 n v ps)
  have IH: "\<exists>parts. form_parts ps = Inr parts \<and>
      list_all2 (\<lambda>p f. form_field p = Inr f) parts (sent_fields ps) \<and>
      (\<forall>p \<in> set parts. 38 \<notin> set p \<and> p \<noteq> [])"
    using 2 by (cases v; cases "the v = []"; cases "encodeURIComponent (the v)")
      (auto simp: form_ok_def)
  show ?case
  proof (cases "\<exists>x. v = Some x \<and> x \<noteq> []")
    case True
    then obtain x where x: "v = Some x" "x \<noteq> []" by blast
    moreover obtain e where "encodeURIComponent x = Inr e"
      using "2.prems" encode_outcome [of x] by (auto simp: form_ok_def x)
    moreover have "list_all uri_unescaped n" using "2.prems" by (simp add: form_ok_def)
    ultimately show ?thesis
      using IH form_part_read [of n x e] by (auto simp: sent_fields_def plus_def)
  qed (use IH in \<open>auto simp: sent_fields_def split: option.splits\<close>)
qed (simp add: sent_fields_def)

text \<open>A form body with unreserved field names reads back as the fields that have a value,
  in order: \<open>undefined\<close> and empty values are not sent, spaces travel as plus signs.\<close>

theorem form_round_trip:
  assumes "form_ok data" "sent_fields data \<noteq> []"
  shows "\<exists>t. buildFormData data = Inr t \<and> form_fields t = Inr (sent_fields data)"
proof -
  obtain parts where p: "form_parts data = Inr parts"
      "list_all2 (\<lambda>p f. form_field p = Inr f) parts (sent_fields data)"
      "\<forall>p \<in> set parts. 38 \<notin> set p \<and> p \<noteq> []"
    using form_parts_read [OF assms(1)] by blast
  then have ne: "parts \<noteq> []" using assms(2) by auto
  then have "join_with [38] parts \<noteq> []" using p(3) by (cases parts rule: list.exhaust; cases "tl parts") auto
  moreover have "mapM_js form_field parts = Inr (sent_fields data)" using p(2) by (simp add: mapM_js_Inr)
  ultimately show ?thesis using p ne by (simp add: buildFormData_def form_fields_def split_at_join)
qed

lemma form_round_trip_witness:
  "\<exists>t. buildFormData [(us ''grant_type'', Some (us ''password'')), (us ''scope'', None),
      (us ''username'', Some (us ''a b+&''))] = Inr t \<and>
    form_fields t = Inr [(us ''grant_type'', us ''password''), (us ''username'', us ''a b+&'')]"
proof -
  let ?d = "[(us ''grant_type'', Some (us ''password'')), (us ''scope'', None),
      (us ''username'', Some (us ''a b+&''))]"
  have "form_ok ?d" by code_simp
  moreover have "sent_fields ?d = [(us ''grant_type'', us ''password''), (us ''username'', us ''a b+&'')]"
    by (simp add: sent_fields_def)
  ultimately show ?thesis using form_round_trip [of ?d] by simp
qed

end
