(* ===== verification/Js_Topbar.thy ===== *)
theory Js_Topbar
  imports Js_Uri
begin

text \<open>
  The top bar of the API browser (class \<open>Topbar\<close>, minified to \<open>A\<close> near the end of
  \<open>swagger-ui-standalone-preset.js\<close>): the choice between several definitions and its trace in the
  address. The record holds the component's state, the query of the page's address, which the
  component reads and replaces, and the actions it has dispatched. The configuration's \<open>urls\<close> are
  a list of entries or absent. The browser writes the apostrophe of a query as \<open>%27\<close>.

  React applies the calls of \<open>setState\<close> of one handler after the handler; no handler reads its
  state after such a call, so they are applied at once here. A handler that throws keeps the
  calls it has made.
\<close>

record entry =
  e_url :: jstr
  e_name :: jstr

datatype spec_call = UpdateUrl jstr | Download jstr

record topbar =
  tb_url :: jstr
  selectedIndex :: nat
  search :: jstr
  calls :: "spec_call list"

definition new_topbar :: "jstr \<Rightarrow> jstr \<Rightarrow> topbar" where
  "new_topbar u s = \<lparr>tb_url = u, selectedIndex = 0, search = s, calls = []\<rparr>"

definition loadSpec :: "jstr \<Rightarrow> topbar \<Rightarrow> topbar" where
  "loadSpec u st = st\<lparr>calls := calls st @ [UpdateUrl u, Download u]\<rparr>"

definition onUrlChange :: "jstr \<Rightarrow> topbar \<Rightarrow> topbar" where
  "onUrlChange u st = st\<lparr>tb_url := u\<rparr>"

definition downloadUrl :: "topbar \<Rightarrow> topbar" where
  "downloadUrl st = loadSpec (tb_url st) st"

definition componentWillReceiveProps :: "jstr \<Rightarrow> topbar \<Rightarrow> topbar" where
  "componentWillReceiveProps u st = st\<lparr>tb_url := u\<rparr>"

definition primary_key :: jstr where
  "primary_key = us ''urls.primaryName''"

text \<open>\<open>history.replaceState\<close> and the \<open>search\<close> it leaves: nothing for an empty query.\<close>

definition location_search :: "jstr \<Rightarrow> jstr" where
  "location_search q = (if q = [] then [] else 63 # quote_as (us ''%27'') q)"

definition setSearch :: "jstr \<Rightarrow> topbar \<Rightarrow> topbar \<times> js_error option" where
  "setSearch name st =
     (case bind_js (parseSearch (search st)) (\<lambda>r. serializeSearch (set_prop primary_key name r)) of
        Inl x \<Rightarrow> (st, Some x)
      | Inr q \<Rightarrow> (st\<lparr>search := location_search q\<rparr>, None))"

fun select_urls :: "jstr \<Rightarrow> entry list \<Rightarrow> nat \<Rightarrow> topbar \<Rightarrow> topbar \<times> js_error option" where
  "select_urls u [] n st = (st, None)"
| "select_urls u (e # es) n st =
     (if e_url e = u
      then case setSearch (e_name e) (st\<lparr>selectedIndex := n\<rparr>) of
          (st', Some x) \<Rightarrow> (st', Some x)
        | (st', None) \<Rightarrow> select_urls u es (Suc n) st'
      else select_urls u es (Suc n) st)"

definition setSelectedUrl :: "entry list option \<Rightarrow> jstr \<Rightarrow> topbar \<Rightarrow> topbar \<times> js_error option" where
  "setSelectedUrl cfg u st =
     (case cfg of
        None \<Rightarrow> (st, None)
      | Some es \<Rightarrow> if es \<noteq> [] \<and> u \<noteq> [] then select_urls u es 0 st else (st, None))"

definition onUrlSelect :: "entry list option \<Rightarrow> jstr \<Rightarrow> topbar \<Rightarrow> topbar \<times> js_error option" where
  "onUrlSelect cfg u st = setSelectedUrl cfg u (loadSpec u st)"

text \<open>\<open>componentDidMount\<close>: the last entry with the configured name wins.\<close>

fun select_name :: "jstr \<Rightarrow> entry list \<Rightarrow> nat \<Rightarrow> nat \<Rightarrow> nat" where
  "select_name i [] n r = r"
| "select_name i (e # es) n r = select_name i es (Suc n) (if e_name e = i then n else r)"

definition componentDidMount :: "entry list option \<Rightarrow> jstr option \<Rightarrow> topbar \<Rightarrow> topbar" where
  "componentDidMount cfg primary st =
     (case cfg of
        None \<Rightarrow> st
      | Some es \<Rightarrow>
          if es = [] then st
          else
            let r = (case primary of
                None \<Rightarrow> selectedIndex st
              | Some i \<Rightarrow> if i = [] then selectedIndex st else select_name i es 0 (selectedIndex st))
            in loadSpec (e_url (es ! r)) (st\<lparr>selectedIndex := r\<rparr>))"

text \<open>The value \<open>render\<close> gives the select box; reading \<open>url\<close> of a missing entry throws.\<close>

definition render_value :: "entry list option \<Rightarrow> topbar \<Rightarrow> jstr js" where
  "render_value cfg st =
     (case cfg of
        None \<Rightarrow> Inr (tb_url st)
      | Some es \<Rightarrow>
          if selectedIndex st < length es then Inr (e_url (es ! selectedIndex st)) else Inl TypeError)"

text \<open>
  What the page makes of the address when it starts: the query's parameters override the
  configuration, so they carry the name the bar starts from.
\<close>

definition reload :: "entry list option \<Rightarrow> jstr \<Rightarrow> topbar \<Rightarrow> topbar js" where
  "reload cfg u st =
     map_js (\<lambda>r. componentDidMount cfg (map_of r primary_key) (new_topbar u (search st)))
       (parseSearch (search st))"

datatype bar_event = Change jstr | Select jstr | Explore | Receive jstr | Mount "jstr option"

definition bar_step :: "entry list option \<Rightarrow> bar_event \<Rightarrow> topbar \<Rightarrow> topbar" where
  "bar_step cfg ev st =
     (case ev of
        Change u \<Rightarrow> onUrlChange u st
      | Select u \<Rightarrow> fst (onUrlSelect cfg u st)
      | Explore \<Rightarrow> downloadUrl st
      | Receive u \<Rightarrow> componentWillReceiveProps u st
      | Mount i \<Rightarrow> componentDidMount cfg i st)"

subsection \<open>The selection stays within the list\<close>

lemmas bar_simps = loadSpec_def onUrlChange_def downloadUrl_def componentWillReceiveProps_def
  setSearch_def

lemma setSearch_index [simp]:
  "selectedIndex (fst (setSearch nm st)) = selectedIndex st"
  "calls (fst (setSearch nm st)) = calls st"
  by (auto simp: setSearch_def split: sum.split)

lemma setSearch_pair:
  "setSearch nm st = (st', x) \<Longrightarrow> selectedIndex st' = selectedIndex st \<and> calls st' = calls st"
  using setSearch_index [of nm st] by simp

lemma select_urls_index:
  "selectedIndex st < n + length es \<Longrightarrow> selectedIndex (fst (select_urls u es n st)) < n + length es"
proof (induction es arbitrary: n st)
  case (Cons e es)
  obtain st' x where ss: "setSearch (e_name e) (st\<lparr>selectedIndex := n\<rparr>) = (st', x)" by fastforce
  then have "selectedIndex st' = n" using setSearch_pair by fastforce
  then show ?case
    using Cons.IH [of st' "Suc n"] Cons.IH [of st "Suc n"] Cons.prems ss
    by (simp split: option.split)
qed simp

lemma select_name_bound: "r < n + length es \<Longrightarrow> select_name i es n r < n + length es"
proof (induction es arbitrary: n r)
  case (Cons e es)
  then show ?case using Cons.IH [of "if e_name e = i then n else r" "Suc n"] by simp
qed simp

definition bar_inv :: "entry list option \<Rightarrow> topbar \<Rightarrow> bool" where
  "bar_inv cfg st \<longleftrightarrow> (case cfg of None \<Rightarrow> True | Some es \<Rightarrow> selectedIndex st < length es)"

lemma bar_step_inv: "bar_inv cfg st \<Longrightarrow> bar_inv cfg (bar_step cfg ev st)"
proof (cases ev)
  case (Select u)
  assume "bar_inv cfg st"
  then show ?thesis
    using select_urls_index [of "loadSpec u st" 0 "the cfg" u]
    by (auto simp: Select bar_inv_def bar_step_def onUrlSelect_def setSelectedUrl_def loadSpec_def
        split: option.splits)
next
  case (Mount i)
  assume "bar_inv cfg st"
  then show ?thesis
    using select_name_bound [of "selectedIndex st" 0 "the cfg" "the i"]
    by (auto simp: Mount bar_inv_def bar_step_def componentDidMount_def loadSpec_def Let_def
        split: option.splits)
qed (auto simp: bar_inv_def bar_step_def bar_simps split: option.splits)

lemma bar_run_inv: "bar_inv cfg st \<Longrightarrow> bar_inv cfg (fold (bar_step cfg) evs st)"
  by (induction evs arbitrary: st) (simp_all add: bar_step_inv)

text \<open>C39. Whatever happens to the bar, its rendering never reads an entry that does not exist,
  unless the configured list is empty: then every rendering throws.\<close>

theorem topbar_renders:
  "isl (render_value cfg (fold (bar_step cfg) evs (new_topbar u s))) \<longleftrightarrow> cfg = Some []"
proof (cases "cfg = Some []")
  case False
  then have "bar_inv cfg (new_topbar u s)"
    by (auto simp: bar_inv_def new_topbar_def split: option.split)
  then have "bar_inv cfg (fold (bar_step cfg) evs (new_topbar u s))" by (rule bar_run_inv)
  then show ?thesis
    using False by (auto simp: bar_inv_def render_value_def split: option.splits)
qed (simp add: render_value_def)

subsection \<open>A selection survives a reload\<close>

lemma select_name_absent: "i \<notin> e_name ` set es \<Longrightarrow> select_name i es n r = r"
  by (induction es arbitrary: n r) auto

lemma select_name_distinct:
  "distinct (map e_name es) \<Longrightarrow> i < length es \<Longrightarrow> select_name (e_name (es ! i)) es n r = n + i"
proof (induction es arbitrary: n r i)
  case (Cons e es)
  then show ?case
  proof (cases i)
    case 0
    then show ?thesis using Cons.prems by (simp add: select_name_absent)
  next
    case (Suc j)
    then show ?thesis using Cons.IH [of j "Suc n"] Cons.prems by simp
  qed
qed simp

lemma quote_as_set: "set (quote_as q s) \<subseteq> set q \<union> set s"
  by (induction s) auto

definition single :: "unit16 \<Rightarrow> bool" where
  "single c \<longleftrightarrow> \<not> is_lead c \<and> \<not> is_trail c"

lemma single_wf: "\<forall>c \<in> set s. single c \<Longrightarrow> wf16 s"
  by (induction s) (auto simp: single_def)

lemma serialize_part_single: "serialize_part kv = Inr p \<Longrightarrow> c \<in> set p \<Longrightarrow> single c"
  using encode_alphabet unescaped_single pct_single sep_single
  by (fastforce simp: serialize_part_def bind_js_Inr single_def)

lemma serialize_single: "serializeSearch ps = Inr t \<Longrightarrow> c \<in> set t \<Longrightarrow> single c"
proof -
  assume "serializeSearch ps = Inr t" and c: "c \<in> set t"
  then obtain parts where p: "list_all2 (\<lambda>kv p. serialize_part kv = Inr p) ps parts"
      and t: "t = join_with [38] parts"
    by (auto simp: serializeSearch_def mapM_js_Inr)
  have "\<forall>p \<in> set parts. \<exists>kv. serialize_part kv = Inr p"
    using p by (induction rule: list_all2_induct) (simp, metis set_ConsD)
  then show "single c"
    using c join_set [of "[38]" parts] serialize_part_single sep_single(1,2)
    by (fastforce simp: t single_def)
qed

lemma location_search_ok: "serializeSearch ps = Inr t \<Longrightarrow> search_ok (location_search t)"
proof -
  assume s: "serializeSearch ps = Inr t"
  have "\<forall>c \<in> set (us ''%27''). single c" by (simp add: single_def surrogate_nat)
  then have "\<forall>c \<in> set (63 # quote_as (us ''%27'') t). single c"
    using quote_as_set [of "us ''%27''" t] serialize_single [OF s] sep_single(5,6)
    by (auto simp: single_def)
  then show ?thesis by (simp add: search_ok_def location_search_def single_wf del: us_simps)
qed

lemma primary_key_facts: "primary_key \<noteq> proto_key" "wf16 primary_key" "primary_key \<noteq> []"
  by code_simp+

lemma setSearch_reads:
  assumes "search_ok (search st)" "parseSearch (search st) = Inr m" "wf16 nm"
  shows "\<exists>s'. setSearch nm st = (st\<lparr>search := s'\<rparr>, None) \<and> search_ok s' \<and>
    parseSearch s' = Inr (set_prop primary_key nm m)"
proof -
  let ?m = "set_prop primary_key nm m"
  have wf: "obj_wf ?m"
    using parseSearch_wf [OF assms(1,2)] assms(3) primary_key_facts by (simp add: obj_wf_set)
  have k: "map_of ?m primary_key = Some nm" by (simp add: map_of_set_prop primary_key_facts)
  then have "?m \<noteq> []" by auto
  moreover have "quote_ok (us ''%27'')" by (simp add: quote_ok_def)
  ultimately obtain t where t: "serializeSearch ?m = Inr t"
      "parseSearch (63 # quote_as (us ''%27'') t) = Inr ?m"
    using search_round_trip_aux wf unfolding obj_wf_def by blast
  have "t \<noteq> []"
  proof
    assume "t = []"
    then have "?m = [([], [])]"
      using t(2) by (simp add: parseSearch_def parse_part_def set_prop_def proto_key_def)
    then show False using k primary_key_facts(3) by simp
  qed
  then show ?thesis
    using t location_search_ok [OF t(1)] assms(2)
    by (intro exI [of _ "location_search t"]) (simp add: setSearch_def location_search_def)
qed

lemma set_prop_twice: "set_prop k v (set_prop k w m) = set_prop k v m"
  by (simp add: set_prop_def)

lemma select_urls_reads:
  assumes "search_ok (search st)" "parseSearch (search st) = Inr m"
    "list_all (\<lambda>e. wf16 (e_name e)) es"
  shows "\<exists>st'. select_urls u es n st = (st', None) \<and> search_ok (search st') \<and>
    (if u \<in> e_url ` set es
     then \<exists>i < length es. e_url (es ! i) = u \<and> selectedIndex st' = n + i \<and>
       parseSearch (search st') = Inr (set_prop primary_key (e_name (es ! i)) m)
     else st' = st)"
  using assms
proof (induction es arbitrary: n st m)
  case (Cons e es)
  show ?case
  proof (cases "e_url e = u")
    case False
    obtain st' where "select_urls u es (Suc n) st = (st', None)" "search_ok (search st')"
      "if u \<in> e_url ` set es
       then \<exists>i < length es. e_url (es ! i) = u \<and> selectedIndex st' = Suc n + i \<and>
         parseSearch (search st') = Inr (set_prop primary_key (e_name (es ! i)) m)
       else st' = st"
      using Cons.IH [of st m "Suc n"] Cons.prems by auto
    then show ?thesis using False by (cases "u \<in> e_url ` set es") force+
  next
    case True
    let ?m = "set_prop primary_key (e_name e) m"
    obtain s' where s': "setSearch (e_name e) (st\<lparr>selectedIndex := n\<rparr>) =
          (st\<lparr>selectedIndex := n, search := s'\<rparr>, None)"
        "search_ok s'" "parseSearch s' = Inr ?m"
      using setSearch_reads [of "st\<lparr>selectedIndex := n\<rparr>" m "e_name e"] Cons.prems by auto
    obtain st' where "select_urls u es (Suc n) (st\<lparr>selectedIndex := n, search := s'\<rparr>) = (st', None)"
      "search_ok (search st')"
      "if u \<in> e_url ` set es
       then \<exists>i < length es. e_url (es ! i) = u \<and> selectedIndex st' = Suc n + i \<and>
         parseSearch (search st') = Inr (set_prop primary_key (e_name (es ! i)) ?m)
       else st' = st\<lparr>selectedIndex := n, search := s'\<rparr>"
      using Cons.IH [of "st\<lparr>selectedIndex := n, search := s'\<rparr>" ?m "Suc n"] Cons.prems s' by auto
    then show ?thesis using True s' by (cases "u \<in> e_url ` set es") (force simp: set_prop_twice)+
  qed
qed simp

lemma onUrlSelect_reads:
  assumes "search_ok (search st)" "parseSearch (search st) = Inr m"
    "list_all (\<lambda>e. wf16 (e_name e)) es" "u \<in> e_url ` set es" "u \<noteq> []"
  shows "\<exists>st' i. onUrlSelect (Some es) u st = (st', None) \<and> i < length es \<and>
    e_url (es ! i) = u \<and> selectedIndex st' = i \<and>
    parseSearch (search st') = Inr (set_prop primary_key (e_name (es ! i)) m)"
proof -
  have "es \<noteq> []" using assms(4) by auto
  then show ?thesis
    using select_urls_reads [of "loadSpec u st" m es u 0] assms
    by (auto simp: onUrlSelect_def setSelectedUrl_def loadSpec_def)
qed

definition entries_ok :: "entry list \<Rightarrow> bool" where
  "entries_ok es \<longleftrightarrow>
     distinct (map e_name es) \<and> list_all (\<lambda>e. wf16 (e_name e) \<and> e_name e \<noteq> []) es"

text \<open>C32. A definition picked in the bar is the one a reload of the page shows: the name is in the
  query, next to the other parameters, which keep their values, and the bar that starts from that
  query selects the same entry and loads the same address. The entries need distinct names.\<close>

theorem topbar_reload:
  assumes "entries_ok es" "u \<in> e_url ` set es" "u \<noteq> []"
    "search_ok (search st)" "parseSearch (search st) = Inr m"
  shows "\<exists>st' st'' m'. onUrlSelect (Some es) u st = (st', None) \<and>
    parseSearch (search st') = Inr m' \<and>
    map_of m' = (map_of m)(primary_key \<mapsto> e_name (es ! selectedIndex st')) \<and>
    reload (Some es) v st' = Inr st'' \<and> selectedIndex st'' = selectedIndex st' \<and>
    calls st'' = [UpdateUrl u, Download u]"
proof -
  have "list_all (\<lambda>e. wf16 (e_name e)) es" using assms(1) by (auto simp: entries_ok_def list_all_iff)
  from onUrlSelect_reads [OF assms(4,5) this assms(2,3)] obtain st' i where
    st': "onUrlSelect (Some es) u st = (st', None)" "i < length es" "e_url (es ! i) = u"
      "selectedIndex st' = i" "parseSearch (search st') = Inr (set_prop primary_key (e_name (es ! i)) m)"
    by blast
  have "e_name (es ! i) \<noteq> []" using assms(1) st'(2) by (simp add: entries_ok_def list_all_length)
  moreover have "select_name (e_name (es ! i)) es 0 0 = i"
    using select_name_distinct [of es i 0 0] assms(1) st'(2) by (simp add: entries_ok_def)
  moreover have "es \<noteq> []" using st'(2) by auto
  ultimately show ?thesis
    using st' by (simp add: reload_def map_of_set_prop primary_key_facts componentDidMount_def
        new_topbar_def loadSpec_def)
qed

lemma topbar_reload_witness:
  "\<exists>st' st'' m'. onUrlSelect (Some [\<lparr>e_url = us ''/v1'', e_name = us ''one''\<rparr>,
        \<lparr>e_url = us ''/v2'', e_name = us ''it's two''\<rparr>]) (us ''/v2'') (new_topbar [] (us ''?lang=de'')) = (st', None) \<and>
    parseSearch (search st') = Inr m' \<and>
    map_of m' = (map_of [(us ''lang'', us ''de'')])(primary_key \<mapsto> e_name ([\<lparr>e_url = us ''/v1'', e_name = us ''one''\<rparr>,
        \<lparr>e_url = us ''/v2'', e_name = us ''it's two''\<rparr>] ! selectedIndex st')) \<and>
    reload (Some [\<lparr>e_url = us ''/v1'', e_name = us ''one''\<rparr>,
        \<lparr>e_url = us ''/v2'', e_name = us ''it's two''\<rparr>]) [] st' = Inr st'' \<and>
    selectedIndex st'' = selectedIndex st' \<and>
    calls st'' = [UpdateUrl (us ''/v2''), Download (us ''/v2'')]"
proof (rule topbar_reload)
  show "parseSearch (search (new_topbar [] (us ''?lang=de''))) = Inr [(us ''lang'', us ''de'')]"
    by code_simp
qed code_simp+

end
