(* ===== verification/Js_Start.thy ===== *)
theory Js_Start
  imports Js_Topbar
begin

text \<open>
  The start of the API browser: the constructor \<open>SwaggerUI\<close> of \<open>core/index.js\<close> (\<open>Xr\<close> in
  \<open>swagger-ui.js\<close>, \<open>Ao\<close> in \<open>swagger-ui-bundle.js\<close>), as \<open>doc/index.html\<close> calls it: with the
  presets of the bundle, so that the plugins \<open>spec\<close> and \<open>configs\<close> are there. The configuration is put together from the defaults, the caller's
  options, a fetched configuration and the query of the page's address, in rising order of
  precedence, by \<open>deep-extend\<close>. Values are told apart as far as the constructor and
  \<open>deep-extend\<close> do: strings, arrays by their length, objects by whether they have a property,
  and values the constructor only passes on.

  The actions are dispatched in order; fetching a configuration ends the synchronous part. What
  an action does once it is called, rendering among them, is not part of this theory, nor is the
  plugin system: the model is one of pages whose query leaves alone the names that reach it
  (\<open>plugin_keys\<close>).
\<close>

datatype cval = CUndefined | CNull | CStr jstr | CArr nat | CObj bool | CPass bool

type_synonym cfg = "jstr \<Rightarrow> cval option"

definition truthy_val :: "cval option \<Rightarrow> bool" where
  "truthy_val v = (case v of
       None \<Rightarrow> False | Some CUndefined \<Rightarrow> False | Some CNull \<Rightarrow> False
     | Some (CStr s) \<Rightarrow> s \<noteq> [] | Some (CArr n) \<Rightarrow> True | Some (CObj b) \<Rightarrow> True
     | Some (CPass b) \<Rightarrow> b)"

text \<open>\<open>deep-extend\<close> of two objects: only an object over an object is merged.\<close>

definition merge_val :: "cval option \<Rightarrow> cval option \<Rightarrow> cval option" where
  "merge_val a b = (case b of
       None \<Rightarrow> a
     | Some v \<Rightarrow> (case (a, v) of (Some (CObj x), CObj y) \<Rightarrow> Some (CObj (x \<or> y)) | _ \<Rightarrow> Some v))"

definition extend :: "cfg \<Rightarrow> cfg \<Rightarrow> cfg" where
  "extend a b = (\<lambda>k. merge_val (a k) (b k))"

definition query_cfg :: "jstr jobj \<Rightarrow> cfg" where
  "query_cfg r = (\<lambda>k. map_option CStr (map_of r k))"

text \<open>The defaults of the constructor that it looks at itself.\<close>

definition defaults :: cfg where
  "defaults = map_of
     [(us ''dom_id'', CNull), (us ''domNode'', CNull), (us ''spec'', CObj False), (us ''url'', CStr []), (us ''urls'', CNull)]"

text \<open>\<open>getLocalConfig\<close> of the standalone preset.\<close>

definition local_config :: cfg where
  "local_config = map_of
     [(us ''url'', CStr (us ''https://petstore.swagger.io/v2/swagger.json'')),
      (us ''dom_id'', CStr (us ''#swagger-ui'')),
      (us ''validatorUrl'', CStr (us ''https://validator.swagger.io/validator''))]"

text \<open>What the constructor does, in order, and the error it ends with, if any.\<close>

datatype start_action =
    SetConfigs
  | Loaded
  | SpecUrl "cval option"
  | StatusSuccess
  | SpecGiven
  | DownloadSpec "cval option"
  | RenderNode "cval option"
  | RenderAt "cval option"
  | NotRendered
  | FetchConfig "cval option"

type_synonym start = "start_action list \<times> js_error option"

text \<open>
  The inner function, called with nothing (\<open>None\<close>), with a fetched configuration or, when the
  fetch has failed, with \<open>null\<close> (\<open>Some None\<close>). \<open>Object.keys\<close> throws for \<open>null\<close>, whose type is
  \<open>object\<close> too.
\<close>

definition configured :: "cval option \<Rightarrow> cfg \<Rightarrow> cfg option option \<Rightarrow> cfg \<Rightarrow> cfg" where
  "configured node opts fetched r =
     (let n = extend (extend (extend local_config opts)
       (case fetched of Some (Some c) \<Rightarrow> c | _ \<Rightarrow> Map.empty)) r
      in if truthy_val node then n(us ''domNode'' := node) else n)"

definition spec_given :: "cval option \<Rightarrow> bool js" where
  "spec_given v = (case v of
       Some CNull \<Rightarrow> Inl TypeError
     | Some (CObj b) \<Rightarrow> Inr b
     | Some (CArr n) \<Rightarrow> Inr (0 < n)
     | _ \<Rightarrow> Inr False)"

definition load_actions :: "cfg option option \<Rightarrow> cfg \<Rightarrow> cfg \<Rightarrow> start_action list js" where
  "load_actions fetched r c =
     (if fetched = Some None then Inr []
      else map_js (\<lambda>given.
        if given then [SpecUrl (Some (CStr [])), StatusSuccess, SpecGiven]
        else if truthy_val (c (us ''url'')) \<and> \<not> truthy_val (c (us ''urls''))
        then [SpecUrl (c (us ''url'')), DownloadSpec (c (us ''url''))]
        else [])
      (if truthy_val (r (us ''url'')) then Inr False else spec_given (c (us ''spec''))))"

definition render_actions :: "cfg \<Rightarrow> start_action list" where
  "render_actions c =
     (if truthy_val (c (us ''domNode'')) then [RenderNode (c (us ''domNode''))]
      else if truthy_val (c (us ''dom_id'')) then [RenderAt (c (us ''dom_id''))]
      else if c (us ''dom_id'') = Some CNull \<or> c (us ''domNode'') = Some CNull then []
      else [NotRendered])"

definition start_with :: "cval option \<Rightarrow> cfg \<Rightarrow> cfg option option \<Rightarrow> cfg \<Rightarrow> start" where
  "start_with node opts fetched r =
     (let c = configured node opts fetched r in
      case load_actions fetched r c of
        Inl x \<Rightarrow> ([SetConfigs, Loaded], Some x)
      | Inr as \<Rightarrow> ([SetConfigs, Loaded] @ as @ render_actions c, None))"

definition SwaggerUI :: "cfg \<Rightarrow> jstr \<Rightarrow> start" where
  "SwaggerUI e srch =
     (case parseSearch srch of
        Inl x \<Rightarrow> ([], Some x)
      | Inr params \<Rightarrow>
          let r = query_cfg params;
              node = e (us ''domNode'');
              opts = extend (extend defaults (e(us ''domNode'' := None))) r;
              g = (if truthy_val (r (us ''config'')) then r (us ''config'') else opts (us ''configUrl''))
          in if truthy_val g then ([FetchConfig g], None) else start_with node opts None r)"

text \<open>The options of \<open>doc/index.html\<close>.\<close>

definition index_options :: cfg where
  "index_options = map_of
     [(us ''url'', CStr (us ''/api/swagger.yaml'')), (us ''dom_id'', CStr (us ''#swagger-ui'')),
      (us ''deepLinking'', CPass True), (us ''presets'', CArr 2), (us ''plugins'', CArr 1),
      (us ''layout'', CStr (us ''StandaloneLayout''))]"

lemma truthy_simps [simp]:
  "\<not> truthy_val None" "\<not> truthy_val (Some CNull)" "truthy_val (Some (CStr s)) \<longleftrightarrow> s \<noteq> []"
  by (simp_all add: truthy_val_def)

lemma merge_simps [simp]:
  "merge_val a None = a" "merge_val None b = b" "merge_val a (Some (CStr s)) = Some (CStr s)"
  "merge_val a (Some CNull) = Some CNull"
  by (simp_all add: merge_val_def split: option.split cval.split)

text \<open>The query decides over every other source, for every name.\<close>

lemma query_wins:
  "map_of params k = Some x \<Longrightarrow> \<not> truthy_val node \<Longrightarrow>
    configured node opts fetched (query_cfg params) k = Some (CStr x)"
  by (simp add: configured_def extend_def query_cfg_def)

lemma query_cfg_apply: "query_cfg r k = map_option CStr (map_of r k)"
  by (simp add: query_cfg_def)

lemma index_values:
  "defaults (us ''url'') = Some (CStr [])" "index_options (us ''url'') = Some (CStr (us ''/api/swagger.yaml''))"
  "defaults (us ''urls'') = Some CNull" "index_options (us ''urls'') = None"
  "defaults (us ''dom_id'') = Some CNull" "index_options (us ''dom_id'') = Some (CStr (us ''#swagger-ui''))"
  "defaults (us ''domNode'') = Some CNull" "index_options (us ''domNode'') = None"
  "local_config (us ''domNode'') = None"
  "defaults (us ''spec'') = Some (CObj False)" "index_options (us ''spec'') = None"
  "defaults (us ''configUrl'') = None" "index_options (us ''configUrl'') = None"
  "local_config (us ''urls'') = None" "local_config (us ''spec'') = None"
  "us ''/api/swagger.yaml'' \<noteq> []" "us ''#swagger-ui'' \<noteq> []"
  by code_simp+

text \<open>The names that reach the plugin system, and with them all that change more than the address
  of the description.\<close>

definition plugin_keys :: "jstr list" where
  "plugin_keys = [us ''presets'', us ''plugins'', us ''initialState'', us ''state'', us ''fn'',
     us ''components'', us ''configs'']"

definition start_keys :: "jstr list" where
  "start_keys = plugin_keys @ [us ''dom_id'', us ''domNode'']"

text \<open>What the link names: a parameter of the query, empty when it is missing; the description, which is
  the service's own without a parameter; and a configuration to be fetched first.\<close>

definition named :: "jstr jobj \<Rightarrow> jstr \<Rightarrow> jstr" where
  "named params k = (case map_of params k of None \<Rightarrow> [] | Some u \<Rightarrow> u)"

definition chosen_url :: "jstr jobj \<Rightarrow> jstr" where
  "chosen_url params =
     (case map_of params (us ''url'') of None \<Rightarrow> us ''/api/swagger.yaml'' | Some u \<Rightarrow> u)"

definition chosen_config :: "jstr jobj \<Rightarrow> jstr" where
  "chosen_config params =
     (if named params (us ''config'') \<noteq> [] then named params (us ''config'') else named params (us ''configUrl''))"

lemma named_truthy: "truthy_val (query_cfg params k) \<longleftrightarrow> named params k \<noteq> []"
  by (simp add: query_cfg_def named_def split: option.split)

lemma named_query: "named params k \<noteq> [] \<Longrightarrow> query_cfg params k = Some (CStr (named params k))"
  by (simp add: query_cfg_def named_def split: option.splits)

text \<open>C33. What the constructor, as the page of this service calls it, loads for a query that names neither a part of the plugin system
  nor a place of rendering. Whoever writes the link decides: with a parameter \<open>config\<close> or \<open>configUrl\<close>
  the page first fetches the configuration found there; else, with a parameter \<open>urls\<close>, it loads
  nothing; else with a parameter \<open>url\<close> the description found there, not the service's own, and with
  an empty one nothing. A query that cannot be decoded stops the page before it renders anything.\<close>

theorem start_loads:
  assumes "\<And>params. parseSearch srch = Inr params \<Longrightarrow> \<forall>k \<in> set start_keys. map_of params k = None"
  shows "SwaggerUI index_options srch =
    (case parseSearch srch of
       Inl x \<Rightarrow> ([], Some x)
     | Inr params \<Rightarrow>
         if chosen_config params \<noteq> [] then ([FetchConfig (Some (CStr (chosen_config params)))], None)
         else ([SetConfigs, Loaded] @
          (if chosen_url params = [] \<or> named params (us ''urls'') \<noteq> [] then []
           else [SpecUrl (Some (CStr (chosen_url params))), DownloadSpec (Some (CStr (chosen_url params)))]) @
          [RenderAt (Some (CStr (us ''#swagger-ui'')))], None))"
proof (cases "parseSearch srch")
  case (Inr params)
  let ?r = "query_cfg params" and ?o = "extend (extend defaults index_options) (query_cfg params)"
  have n: "index_options(us ''domNode'' := None) = index_options"
    using index_values(8) by (simp add: fun_upd_idem del: us_simps)
  have k: "?r (us ''dom_id'') = None" "?r (us ''domNode'') = None"
    using assms [OF Inr] by (simp_all add: start_keys_def query_cfg_def del: us_simps)
  have o: "?o (us ''configUrl'') = ?r (us ''configUrl'')" by (simp add: extend_def index_values del: us_simps)
  let ?g = "if truthy_val (?r (us ''config'')) then ?r (us ''config'') else ?o (us ''configUrl'')"
  have ui: "SwaggerUI index_options srch = (if truthy_val ?g then ([FetchConfig ?g], None) else start_with None ?o None ?r)"
    unfolding SwaggerUI_def Inr Let_def sum.case n index_values(8) ..
  show ?thesis
  proof (cases "chosen_config params = []")
    case False
    then have "?g = Some (CStr (chosen_config params))"
      unfolding o named_truthy by (auto simp: chosen_config_def named_query simp del: us_simps split: if_splits)
    then show ?thesis using False unfolding ui by (simp add: Inr del: us_simps)
  next
    case True
    then have g: "\<not> truthy_val ?g"
      unfolding o named_truthy by (auto simp: chosen_config_def named_truthy simp del: us_simps split: if_splits)
    let ?c = "configured None ?o None ?r"
    have c: "?c (us ''domNode'') = Some CNull" "?c (us ''dom_id'') = Some (CStr (us ''#swagger-ui''))"
        "?c (us ''url'') = Some (CStr (chosen_url params))"
      by (simp_all add: configured_def extend_def k index_values query_cfg_apply [of params "us ''url''"]
          chosen_url_def del: us_simps split: option.split)
    have u: "truthy_val (?c (us ''urls'')) \<longleftrightarrow> named params (us ''urls'') \<noteq> []"
      by (simp add: configured_def extend_def index_values query_cfg_apply [of params "us ''urls''"] named_def
          del: us_simps split: option.split)
    have sp: "spec_given (?c (us ''spec'')) = Inr False"
      by (cases "map_of params (us ''spec'')")
        (simp_all add: configured_def extend_def index_values query_cfg_apply spec_given_def merge_val_def
          del: us_simps)
    have "load_actions None ?r ?c =
        Inr (if chosen_url params = [] \<or> named params (us ''urls'') \<noteq> [] then []
          else [SpecUrl (Some (CStr (chosen_url params))), DownloadSpec (Some (CStr (chosen_url params)))])"
      unfolding load_actions_def c sp u by (simp del: us_simps)
    moreover have "render_actions ?c = [RenderAt (Some (CStr (us ''#swagger-ui'')))]"
      unfolding render_actions_def c using index_values(17) by (simp del: us_simps)
    ultimately show ?thesis using True g unfolding ui by (simp add: Inr start_with_def Let_def del: us_simps)
  qed
qed (simp add: SwaggerUI_def)

lemma start_loads_witness:
  "SwaggerUI index_options (us ''?url=x'') =
    ([SetConfigs, Loaded] @
      (if us ''x'' = [] then []
       else [SpecUrl (Some (CStr (us ''x''))), DownloadSpec (Some (CStr (us ''x'')))]) @
      [RenderAt (Some (CStr (us ''#swagger-ui'')))], None) \<and>
   SwaggerUI index_options (us ''?configUrl=x'') = ([FetchConfig (Some (CStr (us ''x'')))], None)"
proof
  let ?m = "[(us ''url'', us ''x'')]"
  have p: "parseSearch (us ''?url=x'') = Inr ?m" by code_simp
  have "list_all (\<lambda>k. k \<noteq> us ''url'') start_keys" by code_simp
  then have k: "\<forall>k \<in> set start_keys. map_of ?m k = None"
    by (auto simp: list_all_iff simp del: us_simps)
  have u: "chosen_url ?m = us ''x''" "chosen_config ?m = []" "named ?m (us ''urls'') = []" by code_simp+
  have q: "parseSearch (us ''?url=x'') = Inr params \<Longrightarrow>
      \<forall>k \<in> set start_keys. map_of params k = None" for params
    unfolding p sum.inject by (erule subst) (rule k)
  show "SwaggerUI index_options (us ''?url=x'') =
    ([SetConfigs, Loaded] @
      (if us ''x'' = [] then []
       else [SpecUrl (Some (CStr (us ''x''))), DownloadSpec (Some (CStr (us ''x'')))]) @
      [RenderAt (Some (CStr (us ''#swagger-ui'')))], None)"
    using start_loads [of "us ''?url=x''", OF q] unfolding p sum.case u by (simp del: us_simps)
next
  let ?m = "[(us ''configUrl'', us ''x'')]"
  have p: "parseSearch (us ''?configUrl=x'') = Inr ?m" by code_simp
  have "list_all (\<lambda>k. k \<noteq> us ''configUrl'') start_keys" by code_simp
  then have k: "\<forall>k \<in> set start_keys. map_of ?m k = None"
    by (auto simp: list_all_iff simp del: us_simps)
  have u: "chosen_config ?m = us ''x''" "us ''x'' \<noteq> []" by code_simp+
  have q: "parseSearch (us ''?configUrl=x'') = Inr params \<Longrightarrow>
      \<forall>k \<in> set start_keys. map_of params k = None" for params
    unfolding p sum.inject by (erule subst) (rule k)
  show "SwaggerUI index_options (us ''?configUrl=x'') = ([FetchConfig (Some (CStr (us ''x'')))], None)"
    using start_loads [of "us ''?configUrl=x''", OF q] u(2) unfolding p sum.case u(1) by (simp del: us_simps)
qed

end
