(* ===== verification/Js_Sanitize.thy ===== *)
theory Js_Sanitize
  imports Js_Strings
begin

text \<open>
  \<open>sanitizeUrl\<close> of \<open>@braintree/sanitize-url\<close>, which every link the API browser renders goes
  through, and \<open>sanitizeUrl\<close> of \<open>core/utils.js\<close> (\<open>Ye\<close> in \<open>swagger-ui.js\<close>), which wraps it. The
  first step leaves printable ASCII and the letters U+00C0 to U+017E, so no line break is left and
  the patterns' multi-line flag has no effect; the case-insensitive class of that step contains
  the other case of each of its letters, and no character beyond ASCII matches a keyword's letter.
\<close>

definition printable :: "unit16 \<Rightarrow> bool" where
  "printable c \<longleftrightarrow> 32 \<le> c \<and> c \<le> 126 \<or> 192 \<le> c \<and> c \<le> 382"

definition lower_unit :: "unit16 \<Rightarrow> unit16" where
  "lower_unit c = (if 65 \<le> c \<and> c \<le> 90 then c + 32 else c)"

definition lower :: "jstr \<Rightarrow> jstr" where
  "lower s = map lower_unit s"

definition about_blank :: jstr where
  "about_blank = us ''about:blank''"

text \<open>\<open>/^([^:]+):/\<close>: the text up to the first colon, which is not the first character.\<close>

definition url_scheme_part :: "jstr \<Rightarrow> jstr option" where
  "url_scheme_part t =
     (let s = takeWhile (\<lambda>c. c \<noteq> 58) t in
      if s = [] \<or> length s = length t then None else Some (s @ [58]))"

text \<open>\<open>/^(%20|\s)*(javascript|data|vbscript)/i\<close>.\<close>

fun skip_blank :: "jstr \<Rightarrow> jstr" where
  "skip_blank (c # cs) =
     (if js_space c then skip_blank cs
      else case cs of
          d # e # r \<Rightarrow> if c = 37 \<and> d = 50 \<and> e = 48 then skip_blank r else c # cs
        | _ \<Rightarrow> c # cs)"
| "skip_blank [] = []"

definition script_words :: "jstr list" where
  "script_words = [us ''javascript'', us ''data'', us ''vbscript'']"

definition script_like :: "jstr \<Rightarrow> bool" where
  "script_like s \<longleftrightarrow> list_ex (\<lambda>w. starts_with w (lower (skip_blank s))) script_words"

definition sanitizeUrl :: "jstr \<Rightarrow> jstr" where
  "sanitizeUrl e =
     (if e = [] then about_blank
      else
        let t = trim_js (filter printable e) in
        if t \<noteq> [] \<and> (hd t = 46 \<or> hd t = 47) then t
        else case url_scheme_part t of
            None \<Rightarrow> t
          | Some s \<Rightarrow> if script_like s then about_blank else t)"

text \<open>The wrapper: \<open>None\<close> stands for a value that is not a string.\<close>

definition sanitizeUrl_util :: "jstr option \<Rightarrow> jstr" where
  "sanitizeUrl_util v = (case v of None \<Rightarrow> [] | Some e \<Rightarrow> if e = [] then [] else sanitizeUrl e)"

subsection \<open>How a browser reads the scheme of an address\<close>

text \<open>
  The URL standard: control characters and spaces at the front are dropped, tabs and line breaks
  anywhere; a scheme is a letter followed by letters, digits, plus, minus and dots, up to a colon.
\<close>

definition ascii_alpha :: "unit16 \<Rightarrow> bool" where
  "ascii_alpha c \<longleftrightarrow> 65 \<le> c \<and> c \<le> 90 \<or> 97 \<le> c \<and> c \<le> 122"

definition scheme_unit :: "unit16 \<Rightarrow> bool" where
  "scheme_unit c \<longleftrightarrow> ascii_alpha c \<or> 48 \<le> c \<and> c \<le> 57 \<or> c = 43 \<or> c = 45 \<or> c = 46"

definition browser_scheme :: "jstr \<Rightarrow> jstr option" where
  "browser_scheme u =
     (let v = filter (\<lambda>c. c \<noteq> 9 \<and> c \<noteq> 10 \<and> c \<noteq> 13) (dropWhile (\<lambda>c. c \<le> 32) u);
          s = takeWhile scheme_unit v;
          r = dropWhile scheme_unit v in
      if s \<noteq> [] \<and> ascii_alpha (hd s) \<and> r \<noteq> [] \<and> hd r = 58 then Some (lower s) else None)"

subsection \<open>The cleaned string\<close>

lemma trim_set: "set (trim_js s) \<subseteq> set s"
  by (auto simp: trim_js_def dest!: set_dropWhileD)

lemma trim_hd: "trim_js s \<noteq> [] \<Longrightarrow> \<not> js_space (hd (trim_js s))"
proof -
  assume n: "trim_js s \<noteq> []"
  let ?d = "dropWhile js_space s"
  obtain w where w: "?d = trim_js s @ w"
    unfolding trim_js_def
    by (metis dropWhile_eq_drop rev_rev_ident rev_append append_take_drop_id rev_drop takeWhile_dropWhile_id)
  then have "?d \<noteq> []" "hd ?d = hd (trim_js s)" using n by auto
  then show ?thesis by (metis hd_dropWhile)
qed

definition cleaned :: "jstr \<Rightarrow> bool" where
  "cleaned t \<longleftrightarrow> (\<forall>c \<in> set t. printable c) \<and> (t \<noteq> [] \<longrightarrow> \<not> js_space (hd t))"

lemma cleaned_trim: "cleaned (trim_js (filter printable e))"
  using trim_set [of "filter printable e"] trim_hd by (auto simp: cleaned_def)

lemma printable_facts: "printable c \<Longrightarrow> 32 \<le> c" "\<not> js_space c \<Longrightarrow> c \<noteq> 32"
  by (auto simp: printable_def js_space_def word_le_nat_alt)

lemma scheme_unit_colon: "\<not> scheme_unit 58"
  by (simp add: scheme_unit_def ascii_alpha_def)


lemma cleaned_plain:
  assumes "cleaned t"
  shows "dropWhile (\<lambda>c. c \<le> 32) t = t" "filter (\<lambda>c. c \<noteq> 9 \<and> c \<noteq> 10 \<and> c \<noteq> 13) t = t"
proof -
  have "\<forall>c \<in> set t. 32 \<le> c" using assms printable_facts(1) by (auto simp: cleaned_def)
  then have "\<forall>c \<in> set t. c \<noteq> 9 \<and> c \<noteq> 10 \<and> c \<noteq> 13" by (auto simp: word_le_nat_alt)
  then show "filter (\<lambda>c. c \<noteq> 9 \<and> c \<noteq> 10 \<and> c \<noteq> 13) t = t" by (simp add: filter_id_conv)
  show "dropWhile (\<lambda>c. c \<le> 32) t = t"
  proof (cases t)
    case (Cons c cs)
    then have "32 \<le> c" "c \<noteq> 32" using assms printable_facts by (auto simp: cleaned_def)
    then show ?thesis by (simp add: Cons)
  qed simp
qed

lemma cleaned_scheme:
  assumes "cleaned t" "browser_scheme t = Some w"
  obtains s r where "t = s @ 58 # r" "s \<noteq> []" "ascii_alpha (hd s)" "w = lower s" "58 \<notin> set s"
proof -
  let ?s = "takeWhile scheme_unit t" and ?r = "dropWhile scheme_unit t"
  have s: "?s \<noteq> []" "ascii_alpha (hd ?s)" "?r \<noteq> []" "hd ?r = 58" "w = lower ?s"
    using assms(2) by (auto simp: browser_scheme_def cleaned_plain [OF assms(1)] Let_def
        split: if_splits)
  have "t = ?s @ 58 # tl ?r" using s(3,4) by (metis list.collapse takeWhile_dropWhile_id)
  moreover have "58 \<notin> set ?s" using scheme_unit_colon by (auto dest: set_takeWhileD)
  ultimately show thesis using that s by blast
qed

lemma space_range: "js_space c \<Longrightarrow> unat c \<le> 32 \<or> 160 \<le> unat c"
  unfolding js_space_def word_le_nat_alt by (elim disjE conjE) simp_all

lemma alpha_range: "ascii_alpha c \<Longrightarrow> 65 \<le> unat c \<and> unat c \<le> 122"
  unfolding ascii_alpha_def word_le_nat_alt by (elim disjE conjE) simp_all

lemma alpha_start:
  assumes "ascii_alpha c" shows "\<not> js_space c \<and> c \<noteq> 37 \<and> c \<noteq> 46 \<and> c \<noteq> 47"
  using alpha_range [OF assms] space_range [of c] by auto

lemma skip_blank_alpha: "ascii_alpha c \<Longrightarrow> skip_blank (c # cs) = c # cs"
  using alpha_start [of c] by (subst skip_blank.simps) (auto simp del: skip_blank.simps split: list.split)

lemma scheme_part_colon: "s \<noteq> [] \<Longrightarrow> 58 \<notin> set s \<Longrightarrow> url_scheme_part (s @ 58 # r) = Some (s @ [58])"
proof -
  assume "s \<noteq> []" "58 \<notin> set s"
  moreover from this have "takeWhile (\<lambda>c. c \<noteq> 58) (s @ 58 # r) = s"
    by (subst takeWhile_append2) auto
  ultimately show ?thesis by (simp add: url_scheme_part_def)
qed

lemma sanitizeUrl_safe: "browser_scheme (sanitizeUrl e) \<notin> Some ` set script_words"
proof
  assume bad: "browser_scheme (sanitizeUrl e) \<in> Some ` set script_words"
  let ?t = "trim_js (filter printable e)"
  have blank: "browser_scheme about_blank \<notin> Some ` set script_words" by code_simp
  then have t: "sanitizeUrl e = ?t" using bad by (auto simp: sanitizeUrl_def Let_def split: option.splits if_splits)
  obtain w where w: "w \<in> set script_words" "browser_scheme ?t = Some w" using bad t by auto
  obtain s r where sr: "?t = s @ 58 # r" "s \<noteq> []" "ascii_alpha (hd s)" "w = lower s" "58 \<notin> set s"
    using cleaned_scheme [OF cleaned_trim w(2)] .
  obtain c cs where c: "s = c # cs" using sr(2) by (cases s) auto
  have "script_like (s @ [58])"
    using w(1) sr(3,4) skip_blank_alpha [of c "cs @ [58]"]
    by (auto simp: script_like_def list_ex_iff c starts_with_iff lower_def intro!: bexI [OF _ w(1)])
  then have "sanitizeUrl e = about_blank"
    using sr alpha_start [OF sr(3)] scheme_part_colon [OF sr(2,5), of r] c
    by (auto simp: sanitizeUrl_def Let_def)
  then show False using bad blank by simp
qed

text \<open>C18. No sanitized address is a script: a browser never reads the scheme \<open>javascript\<close>,
  \<open>data\<close> or \<open>vbscript\<close> from what \<open>sanitizeUrl\<close> returns, whatever it was given.\<close>

theorem sanitized_no_script: "browser_scheme (sanitizeUrl e) \<notin> Some ` set script_words"
  by (rule sanitizeUrl_safe)

lemma trim_id: "t = [] \<or> \<not> js_space (hd t) \<and> \<not> js_space (last t) \<Longrightarrow> trim_js t = t"
proof (cases t rule: rev_cases)
  case (snoc cs c)
  assume "t = [] \<or> \<not> js_space (hd t) \<and> \<not> js_space (last t)"
  then have "\<not> js_space (hd t)" "\<not> js_space c" using snoc by auto
  then have "dropWhile js_space t = t" using snoc by (cases cs) auto
  then show ?thesis using \<open>\<not> js_space c\<close> by (simp add: trim_js_def snoc)
qed (simp add: trim_js_def)

lemma trim_last: "trim_js s \<noteq> [] \<Longrightarrow> \<not> js_space (last (trim_js s))"
  unfolding trim_js_def using hd_dropWhile [of js_space] by (simp add: last_rev)

lemma trim_trim: "trim_js (trim_js s) = trim_js s"
  using trim_id [of "trim_js s"] trim_hd [of s] trim_last [of s] by blast

lemma sanitized_cases:
  "sanitizeUrl e = about_blank \<or>
   sanitizeUrl e = trim_js (filter printable e) \<and>
     (sanitizeUrl e \<noteq> [] \<longrightarrow> sanitizeUrl (sanitizeUrl e) = sanitizeUrl e)"
proof (cases "sanitizeUrl e = about_blank")
  case False
  let ?t = "trim_js (filter printable e)"
  have t: "sanitizeUrl e = ?t"
    using False by (auto simp: sanitizeUrl_def Let_def split: option.splits if_splits)
  have "filter printable ?t = ?t" using cleaned_trim [of e] by (simp add: cleaned_def filter_id_conv)
  then have "trim_js (filter printable ?t) = ?t" by (simp add: trim_trim)
  moreover have "e \<noteq> []" using False by (auto simp: sanitizeUrl_def)
  ultimately have "?t \<noteq> [] \<Longrightarrow> sanitizeUrl ?t = sanitizeUrl e"
    by (simp add: sanitizeUrl_def Let_def)
  then show ?thesis using t by simp
qed simp

text \<open>A second pass changes nothing, except that the empty string, the image of a string with
  nothing printable in it, becomes \<open>about:blank\<close>.\<close>

theorem sanitize_twice:
  "sanitizeUrl (sanitizeUrl e) = (if sanitizeUrl e = [] then about_blank else sanitizeUrl e)"
proof -
  have "sanitizeUrl about_blank = about_blank" "about_blank \<noteq> []" by code_simp+
  then show ?thesis using sanitized_cases [of e] by (auto simp: sanitizeUrl_def [of "[]"])
qed

end
