(* ===== verification/Js_Base64.thy ===== *)
theory Js_Base64
  imports Js_Strings
begin

text \<open>
  The base64 coder that the API browser under \<open>doc/\<close> carries, in the module that exports
  \<open>byteLength\<close>, \<open>toByteArray\<close> and \<open>fromByteArray\<close>; it is the same code in
  \<open>swagger-ui-bundle.js\<close>, \<open>swagger-ui-es-bundle.js\<close> and \<open>swagger-ui-standalone-preset.js\<close>
  (the minifier chose other local names in the last). \<open>Buffer.toString("base64")\<close>, which the
  page uses for HTTP basic authentication and for PKCE, ends in it.

  The strings of this module are lists of characters, so their code units are below 256; the
  code treats every larger one like any other unit outside the alphabet. The bitwise operators of
  JavaScript work on 32 bits. \<open>new Uint8Array(n)\<close> throws a \<open>RangeError\<close> for a negative \<open>n\<close>, and
  a store outside such an array is ignored.
\<close>

type_synonym i32 = "32 word"

subsection \<open>The alphabet\<close>

definition b64_chars :: string where
  "b64_chars = ''ABCDEFGHIJKLMNOPQRSTUVWXYZabcdefghijklmnopqrstuvwxyz0123456789+/''"

text \<open>\<open>lookup\<close>, and \<open>revLookup\<close>, whose missing elements count as 0 in a bitwise operation.\<close>

definition lookup64 :: "i32 \<Rightarrow> char" where
  "lookup64 i = b64_chars ! unat i"

definition rev_lookup64 :: "char \<Rightarrow> i32" where
  "rev_lookup64 c =
     (if c = CHR ''-'' then 62
      else if c = CHR ''_'' then 63
      else let i = length (takeWhile (\<lambda>x. x \<noteq> c) b64_chars) in
        if i < 64 then of_nat i else 0)"

subsection \<open>Lengths\<close>

text \<open>\<open>getLens\<close>: the length before the padding and the length of the padding.\<close>

definition index_of :: "char \<Rightarrow> string \<Rightarrow> nat option" where
  "index_of c s =
     (let i = length (takeWhile (\<lambda>x. x \<noteq> c) s) in if i < length s then Some i else None)"

definition getLens :: "string \<Rightarrow> (nat \<times> nat) js" where
  "getLens b64 =
     (let len = length b64 in
      if 0 < len mod 4 then Inl (Error ''Invalid string. Length must be a multiple of 4'')
      else
        let validLen = (case index_of (CHR ''='') b64 of None \<Rightarrow> len | Some i \<Rightarrow> i) in
        Inr (validLen, if validLen = len then 0 else 4 - validLen mod 4))"

definition byte_length :: "nat \<Rightarrow> nat \<Rightarrow> int" where
  "byte_length validLen placeHoldersLen =
     3 * (int validLen + int placeHoldersLen) div 4 - int placeHoldersLen"

definition byteLength :: "string \<Rightarrow> int js" where
  "byteLength b64 =
     (case getLens b64 of
        Inl e \<Rightarrow> Inl e
      | Inr (validLen, placeHoldersLen) \<Rightarrow> Inr (byte_length validLen placeHoldersLen))"

subsection \<open>Encoding\<close>

text \<open>\<open>tripletToBase64\<close>, and the loop of \<open>encodeChunk\<close> from \<open>s\<close> to \<open>n\<close>.\<close>

definition tripletToBase64 :: "i32 \<Rightarrow> string" where
  "tripletToBase64 a =
     [lookup64 (drop_bit 18 a AND 63), lookup64 (drop_bit 12 a AND 63),
      lookup64 (drop_bit 6 a AND 63), lookup64 (63 AND a)]"

function encodeChunk :: "bytes \<Rightarrow> nat \<Rightarrow> nat \<Rightarrow> string" where
  "encodeChunk e s n =
     (if s < n
      then tripletToBase64 ((push_bit 16 (ucast (e ! s)) AND 16711680)
             + (push_bit 8 (ucast (e ! (s + 1))) AND 65280) + (255 AND ucast (e ! (s + 2))))
           @ encodeChunk e (s + 3) n
      else [])"
  by auto
termination by (relation "measure (\<lambda>(e, s, n). n - s)") auto

text \<open>The loop over the chunks.\<close>

definition maxChunkLength :: nat where "maxChunkLength = 16383"

function encodeChunks :: "bytes \<Rightarrow> nat \<Rightarrow> nat \<Rightarrow> string" where
  "encodeChunks e s u =
     (if s < u
      then encodeChunk e s (if u < s + maxChunkLength then u else s + maxChunkLength)
           @ encodeChunks e (s + maxChunkLength) u
      else [])"
  by auto
termination by (relation "measure (\<lambda>(e, s, u). u - s)") (auto simp: maxChunkLength_def)

definition fromByteArray :: "bytes \<Rightarrow> string" where
  "fromByteArray e =
     (let n = length e; extraBytes = n mod 3 in
      encodeChunks e 0 (n - extraBytes) @
      (if extraBytes = 1 then
         let t = ucast (e ! (n - 1)) :: i32 in
         [lookup64 (drop_bit 2 t), lookup64 (push_bit 4 t AND 63)] @ ''==''
       else if extraBytes = 2 then
         let t = push_bit 8 (ucast (e ! (n - 2))) + ucast (e ! (n - 1)) :: i32 in
         [lookup64 (drop_bit 10 t), lookup64 (drop_bit 4 t AND 63), lookup64 (push_bit 2 t AND 63)]
           @ ''=''
       else []))"

subsection \<open>Decoding\<close>

definition byte_of :: "i32 \<Rightarrow> byte" where
  "byte_of t = ucast (t AND 255)"

text \<open>The loop over the full groups: the bytes it stores, from group \<open>n\<close> up to \<open>p\<close>.\<close>

definition decode_quad :: "char \<Rightarrow> char \<Rightarrow> char \<Rightarrow> char \<Rightarrow> bytes" where
  "decode_quad c0 c1 c2 c3 =
     (let t = push_bit 18 (rev_lookup64 c0) OR push_bit 12 (rev_lookup64 c1)
            OR push_bit 6 (rev_lookup64 c2) OR rev_lookup64 c3
      in [byte_of (drop_bit 16 t), byte_of (drop_bit 8 t), byte_of t])"

function decodeGroups :: "string \<Rightarrow> nat \<Rightarrow> nat \<Rightarrow> bytes" where
  "decodeGroups b64 n p =
     (if n < p
      then decode_quad (b64 ! n) (b64 ! (n + 1)) (b64 ! (n + 2)) (b64 ! (n + 3))
               @ decodeGroups b64 (n + 4) p
      else [])"
  by auto
termination by (relation "measure (\<lambda>(b, n, p). p - n)") auto

text \<open>The index at which the loop stops: the first multiple of 4 from \<open>p\<close> on.\<close>

definition loop_end :: "nat \<Rightarrow> nat" where
  "loop_end p = 4 * ((p + 3) div 4)"

text \<open>Writing bytes into a new \<open>Uint8Array\<close> of a given length.\<close>

definition fill :: "nat \<Rightarrow> bytes \<Rightarrow> bytes" where
  "fill n bs = take n bs @ replicate (n - length bs) 0"

definition char_at :: "string \<Rightarrow> nat \<Rightarrow> i32" where
  "char_at s i = (if i < length s then rev_lookup64 (s ! i) else 0)"

definition toByteArray :: "string \<Rightarrow> bytes js" where
  "toByteArray b64 =
     (case getLens b64 of
        Inl e \<Rightarrow> Inl e
      | Inr (validLen, placeHoldersLen) \<Rightarrow>
          let size = byte_length validLen placeHoldersLen in
          if size < 0 then Inl RangeError
          else
            let len = (if 0 < placeHoldersLen then validLen - 4 else validLen);
                n = loop_end len;
                rest = (if placeHoldersLen = 2 then
                     [byte_of (push_bit 2 (char_at b64 n) OR drop_bit 4 (char_at b64 (n + 1)))]
                   else if placeHoldersLen = 1 then
                     (let t = push_bit 10 (char_at b64 n) OR push_bit 4 (char_at b64 (n + 1))
                            OR drop_bit 2 (char_at b64 (n + 2))
                      in [byte_of (drop_bit 8 t), byte_of t])
                   else [])
            in Inr (fill (nat size) (decodeGroups b64 0 len @ rest)))"


declare encodeChunk.simps [simp del] encodeChunks.simps [simp del] decodeGroups.simps [simp del]

subsection \<open>Encoding as a function on lists\<close>

text \<open>An intermediate form: groups of three bytes, without indices and chunks.\<close>

definition triple :: "byte \<Rightarrow> byte \<Rightarrow> byte \<Rightarrow> i32" where
  "triple a b c = push_bit 16 (ucast a) OR push_bit 8 (ucast b) OR ucast c"

fun ref_encode :: "bytes \<Rightarrow> string" where
  "ref_encode [] = []"
| "ref_encode [a] =
     [lookup64 (drop_bit 2 (ucast a)), lookup64 (push_bit 4 (ucast a) AND 63), CHR ''='', CHR ''='']"
| "ref_encode [a, b] =
     (let t = push_bit 8 (ucast a) OR ucast b :: i32 in
      [lookup64 (drop_bit 10 t), lookup64 (drop_bit 4 t AND 63), lookup64 (push_bit 2 t AND 63), CHR ''=''])"
| "ref_encode (a # b # c # bs) = tripletToBase64 (triple a b c) @ ref_encode bs"

lemma mask_6: "(63 :: i32) = mask 6" and mask_8: "(255 :: i32) = mask 8"
  by (simp_all add: mask_eq_exp_minus_1)

lemma masks: "(16711680 :: i32) = push_bit 16 (mask 8)" "(65280 :: i32) = push_bit 8 (mask 8)"
  by (simp_all add: mask_eq_exp_minus_1 push_bit_eq_mult)

lemma byte_bit: "bit (a :: byte) n \<Longrightarrow> n < 8"
  using bit_imp_le_length [of a n] by simp

lemma or_plus: "(\<And>n. \<not> bit (a :: i32) n \<or> \<not> bit b n) \<Longrightarrow> a + b = a OR b"
  by (rule disjunctive_add) auto

lemma triple_eq:
  "(push_bit 16 (ucast a) AND 16711680) + (push_bit 8 (ucast b) AND 65280) + (255 AND ucast c) = triple a b c"
proof -
  have x: "push_bit 16 (ucast a) AND 16711680 = (push_bit 16 (ucast a) :: i32)"
    unfolding masks by (rule bit_word_eqI) (auto simp: bit_simps dest: byte_bit)
  have y: "push_bit 8 (ucast b) AND 65280 = (push_bit 8 (ucast b) :: i32)"
    unfolding masks by (rule bit_word_eqI) (auto simp: bit_simps dest: byte_bit)
  have z: "255 AND ucast c = (ucast c :: i32)"
    unfolding mask_8 by (rule bit_word_eqI) (auto simp: bit_simps dest: byte_bit)
  have 1: "push_bit 16 (ucast a) + push_bit 8 (ucast b) = (push_bit 16 (ucast a) OR push_bit 8 (ucast b) :: i32)"
    by (rule or_plus) (auto simp: bit_simps dest: byte_bit)
  have 2: "(push_bit 16 (ucast a) OR push_bit 8 (ucast b)) + ucast c =
      (push_bit 16 (ucast a) OR push_bit 8 (ucast b) OR ucast c :: i32)"
    by (subst or_plus) (auto simp: bit_simps or.assoc dest: byte_bit)
  show ?thesis unfolding x y z 1 2 triple_def ..
qed

lemma two_eq: "push_bit 8 (ucast (a :: byte)) + ucast (b :: byte) = (push_bit 8 (ucast a) OR ucast b :: i32)"
  by (rule or_plus) (auto simp: bit_simps dest: byte_bit)

lemma encodeChunk_split:
  assumes "s \<le> m" and "3 dvd m - s" and "m \<le> n"
  shows "encodeChunk e s n = encodeChunk e s m @ encodeChunk e m n"
  using assms
proof (induction e s m rule: encodeChunk.induct)
  case (1 e s m)
  show ?case
  proof (cases "s < m")
    case True
    obtain k where k: "m - s = 3 * k" using "1.prems"(2) by (rule dvdE)
    with True have "k \<noteq> 0" by auto
    then have "m - (s + 3) = 3 * (k - 1)" "s + 3 \<le> m" using k True by (auto simp: diff_mult_distrib2)
    then have "s + 3 \<le> m" "3 dvd m - (s + 3)" by simp_all
    then show ?thesis
      using "1.IH" [OF True] "1.prems" True encodeChunk.simps [of e s n] encodeChunk.simps [of e s m]
      by simp
  next
    case False
    then have "encodeChunk e s m = []" by (simp add: encodeChunk.simps [of e s m])
    then show ?thesis using False "1.prems" by simp
  qed
qed

text \<open>Chunks make no difference, since their length is a multiple of three.\<close>

lemma encodeChunks_eq: "encodeChunks e s u = encodeChunk e s u"
proof (induction e s u rule: encodeChunks.induct)
  case (1 e s u)
  show ?case
  proof (cases "s < u")
    case True
    note IH = "1.IH" [OF True]
    show ?thesis
    proof (cases "u < s + maxChunkLength")
      case t: True
      then have "encodeChunks e (s + maxChunkLength) u = []" by (simp add: encodeChunks.simps)
      then show ?thesis using True t by (simp add: encodeChunks.simps [of e s u])
    next
      case False
      have "encodeChunk e s u = encodeChunk e s (s + maxChunkLength) @ encodeChunk e (s + maxChunkLength) u"
        by (rule encodeChunk_split) (use False in \<open>simp_all add: maxChunkLength_def\<close>)
      then show ?thesis using True False IH by (simp add: encodeChunks.simps [of e s u])
    qed
  next
    case False
    then show ?thesis by (simp add: encodeChunks.simps [of e s u] encodeChunk.simps [of e s u])
  qed
qed

lemma encodeChunk_shift:
  "encodeChunk (x # y # z # e) (s + 3) (n + 3) = encodeChunk e s n"
proof (induction e s n rule: encodeChunk.induct)
  case (1 e s n)
  then show ?case
    by (simp add: encodeChunk.simps [of _ "s + 3"] encodeChunk.simps [of e s n])
qed

text \<open>What follows the full groups.\<close>

definition last_group :: "bytes \<Rightarrow> string" where
  "last_group e =
     (if length e mod 3 = 1 then
        [lookup64 (drop_bit 2 (ucast (e ! (length e - 1)))),
         lookup64 (push_bit 4 (ucast (e ! (length e - 1))) AND 63), CHR ''='', CHR ''='']
      else if length e mod 3 = 2 then
        (let t = push_bit 8 (ucast (e ! (length e - 2))) OR ucast (e ! (length e - 1)) :: i32 in
         [lookup64 (drop_bit 10 t), lookup64 (drop_bit 4 t AND 63), lookup64 (push_bit 2 t AND 63), CHR ''=''])
      else [])"

lemma fromByteArray_split:
  "fromByteArray e = encodeChunk e 0 (length e - length e mod 3) @ last_group e"
  by (simp add: fromByteArray_def last_group_def encodeChunks_eq two_eq Let_def)

lemma last_group_Cons: "last_group (a # b # c # e) = last_group e"
proof -
  have n: "(a # b # c # e) ! (k + 3) = e ! k" for k by (simp add: numeral_eq_Suc)
  have l: "length (a # b # c # e) = length e + 3" by simp
  have "(a # b # c # e) ! (length e + 3 - 1) = e ! (length e - 1)" if "length e \<noteq> 0"
  proof -
    have k: "length e + 3 - 1 = (length e - 1) + 3" using that by simp
    show ?thesis unfolding k n ..
  qed
  moreover have "(a # b # c # e) ! (length e + 3 - 2) = e ! (length e - 2)" if "1 < length e"
  proof -
    have k: "length e + 3 - 2 = (length e - 2) + 3" using that by simp
    show ?thesis unfolding k n ..
  qed
  moreover have "length e \<noteq> 0" if "length e mod 3 = 1 \<or> length e mod 3 = 2" using that by auto
  moreover have "1 < length e" if "length e mod 3 = 2"
    using that by presburger
  ultimately show ?thesis
    unfolding last_group_def l mod_add_self2 by (simp only: Let_def split: if_split) auto
qed

lemma encodeChunk_Cons:
  "encodeChunk (a # b # c # e) 0 (m + 3) = tripletToBase64 (triple a b c) @ encodeChunk e 0 m"
  using encodeChunk_shift [of a b c e 0 m] encodeChunk.simps [of "a # b # c # e" 0 "m + 3"]
  by (simp add: triple_eq)

lemma fromByteArray_Cons:
  "fromByteArray (a # b # c # e) = tripletToBase64 (triple a b c) @ fromByteArray e"
proof -
  let ?u = "length e - length e mod 3"
  have u: "length (a # b # c # e) - length (a # b # c # e) mod 3 = ?u + 3"
    by (simp add: mod_less_eq_dividend)
  show ?thesis
    unfolding fromByteArray_split u last_group_Cons encodeChunk_Cons by simp
qed

lemma fromByteArray_eq: "fromByteArray e = ref_encode e"
proof (induction e rule: ref_encode.induct)
  case (4 a b c bs)
  then show ?case by (simp add: fromByteArray_Cons)
qed (simp_all add: fromByteArray_split last_group_def encodeChunk.simps Let_def)

subsection \<open>Decoding what was encoded\<close>

lemma lookup64_inverse: "w < 64 \<Longrightarrow> rev_lookup64 (lookup64 w) = w \<and> lookup64 w \<noteq> CHR ''=''"
proof -
  have "\<forall>i \<in> set [0..<64]. rev_lookup64 (b64_chars ! i) = of_nat i \<and> b64_chars ! i \<noteq> CHR ''=''"
    by code_simp
  moreover assume "w < 64"
  then have "unat w \<in> set [0..<64]" by (simp add: word_less_nat_alt)
  ultimately have "rev_lookup64 (b64_chars ! unat w) = of_nat (unat w) \<and> b64_chars ! unat w \<noteq> CHR ''=''"
    by blast
  then show ?thesis by (simp add: lookup64_def)
qed

lemma and63_less: "(w :: i32) AND 63 < 64" "63 AND (w :: i32) < 64"
proof -
  have "w AND mask 6 < 2 ^ 6" by (rule and_mask_less') simp
  then show "w AND 63 < 64" by (simp add: mask_6)
  then show "63 AND w < 64" by (simp add: and.commute)
qed

lemma lookup64_and [simp]:
  "rev_lookup64 (lookup64 (w AND 63)) = w AND 63" "rev_lookup64 (lookup64 (63 AND w)) = 63 AND w"
  "lookup64 (w AND 63) \<noteq> CHR ''=''" "lookup64 (63 AND w) \<noteq> CHR ''=''"
  "CHR ''='' \<noteq> lookup64 (w AND 63)" "CHR ''='' \<noteq> lookup64 (63 AND w)"
  using lookup64_inverse [OF and63_less(1)] lookup64_inverse [OF and63_less(2)] by metis+

lemma small_and63: "drop_bit 2 (ucast (a :: byte)) AND 63 = (drop_bit 2 (ucast a) :: i32)"
  unfolding mask_6 by (rule bit_word_eqI) (auto simp: bit_simps dest: byte_bit)

lemma small_and63': "drop_bit 10 (push_bit 8 (ucast (a :: byte)) OR ucast (b :: byte)) AND 63 =
    (drop_bit 10 (push_bit 8 (ucast a) OR ucast b) :: i32)"
  unfolding mask_6 by (rule bit_word_eqI) (auto simp: bit_simps dest: byte_bit)

lemma bit_triple:
  "bit (triple a b c) n \<longleftrightarrow>
     (if n < 8 then bit c n else if n < 16 then bit b (n - 8) else n < 24 \<and> bit a (n - 16))"
  unfolding triple_def by (auto simp: bit_simps dest: byte_bit)

lemma bit_group: "bit (push_bit k (drop_bit k t AND mask 6) :: i32) n \<longleftrightarrow>
    n < 32 \<and> k \<le> n \<and> n < k + 6 \<and> bit t n"
  by (auto simp: bit_simps)

lemma regroup:
  "push_bit 18 (drop_bit 18 (triple a b c) AND 63) OR push_bit 12 (drop_bit 12 (triple a b c) AND 63)
     OR push_bit 6 (drop_bit 6 (triple a b c) AND 63) OR (63 AND triple a b c) = triple a b c"
proof -
  have t: "bit (triple a b c) n \<Longrightarrow> n < 24" for n by (auto simp: bit_triple split: if_splits)
  have low: "bit (mask 6 AND triple a b c :: i32) n \<longleftrightarrow> n < 6 \<and> bit (triple a b c) n" for n
    by (auto simp: bit_simps)
  have "bit (push_bit 18 (drop_bit 18 (triple a b c) AND mask 6) OR push_bit 12 (drop_bit 12 (triple a b c) AND mask 6)
     OR push_bit 6 (drop_bit 6 (triple a b c) AND mask 6) OR (mask 6 AND triple a b c)) n \<longleftrightarrow> bit (triple a b c) n" for n
    using t [of n] unfolding bit_or_iff bit_group low by auto
  then show ?thesis unfolding mask_6 by (intro bit_word_eqI) blast
qed

lemma byte_of_triple:
  "byte_of (drop_bit 16 (triple a b c)) = a" "byte_of (drop_bit 8 (triple a b c)) = b"
  "byte_of (triple a b c) = c"
  unfolding mask_8 byte_of_def
  by (rule bit_word_eqI; auto simp: bit_simps bit_triple)+

lemma decode_quad_triple:
  "decode_quad (lookup64 (drop_bit 18 (triple a b c) AND 63)) (lookup64 (drop_bit 12 (triple a b c) AND 63))
     (lookup64 (drop_bit 6 (triple a b c) AND 63)) (lookup64 (63 AND triple a b c)) = [a, b, c]"
  by (simp only: decode_quad_def lookup64_and regroup byte_of_triple Let_def)

lemma suc2 [simp]: "2 \<le> n \<Longrightarrow> Suc (Suc (n - 2)) = n"
  by simp

lemma last_one:
  "byte_of (push_bit 2 (drop_bit 2 (ucast a)) OR drop_bit 4 (push_bit 4 (ucast a) AND 63)) = a"
  unfolding mask_8 mask_6 byte_of_def
  by (rule bit_word_eqI; auto simp: bit_simps dest: byte_bit)

lemma last_two:
  fixes a b :: byte
  defines "t \<equiv> push_bit 8 (ucast a) OR ucast b :: i32"
  shows "byte_of (drop_bit 8 (push_bit 10 (drop_bit 10 t) OR push_bit 4 (drop_bit 4 t AND 63)
           OR drop_bit 2 (push_bit 2 t AND 63))) = a"
    and "byte_of (push_bit 10 (drop_bit 10 t) OR push_bit 4 (drop_bit 4 t AND 63)
           OR drop_bit 2 (push_bit 2 t AND 63)) = b"
  unfolding mask_8 mask_6 byte_of_def t_def
  by (rule bit_word_eqI; auto simp: bit_simps dest: byte_bit)+

lemma decodeGroups_shift:
  "decodeGroups (w # x # y # z # s) (n + 4) (p + 4) = decodeGroups s n p"
proof (induction s n p rule: decodeGroups.induct)
  case (1 s n p)
  then show ?case
    by (simp add: decodeGroups.simps [of _ "Suc (Suc (Suc (Suc n)))"] decodeGroups.simps [of s n p] numeral_eq_Suc)
qed

lemma decodeGroups_Cons:
  "decodeGroups (w # x # y # z # s) 0 (Suc (Suc (Suc (Suc p)))) =
     decode_quad w x y z @ decodeGroups s 0 p"
  using decodeGroups_shift [of w x y z s 0 p]
  by (simp add: decodeGroups.simps [of "w # x # y # z # s" 0] numeral_eq_Suc)

lemma decodeGroups_end:
  "4 dvd n \<Longrightarrow> decodeGroups s n (loop_end p) = decodeGroups s n p"
proof (induction s n p rule: decodeGroups.induct)
  case (1 s n p)
  obtain k where k: "n = 4 * k" using "1.prems" by (rule dvdE)
  have "n < loop_end p \<longleftrightarrow> n < p" unfolding k loop_end_def by presburger
  moreover have "4 dvd n + 4" using "1.prems" by simp
  ultimately show ?case
    using "1.IH" by (simp add: decodeGroups.simps [of s n "loop_end p"] decodeGroups.simps [of s n p])
qed

lemma not_dvd: "\<not> 3 dvd Suc 0" "\<not> 3 dvd Suc (Suc 0)"
  by presburger+

text \<open>Full groups.\<close>

lemma full_groups:
  assumes "3 dvd length f"
  shows "ref_encode (f @ l) = ref_encode f @ ref_encode l"
    and "length (ref_encode f) = 4 * (length f div 3)"
    and "CHR ''='' \<notin> set (ref_encode f)"
    and "decodeGroups (ref_encode f @ r) 0 (length (ref_encode f)) = f"
  using assms
proof (induction f rule: ref_encode.induct)
  case (4 a b c bs)
  have d: "3 dvd length bs" if "3 dvd length (a # b # c # bs)" using that by simp presburger
  {
    case 1
    then show ?case using 4 d by simp
  next
    case 2
    then show ?case using 4 d by (simp add: tripletToBase64_def)
  next
    case 3
    then show ?case using 4 d by (simp add: tripletToBase64_def)
  next
    case prem: 4
    let ?t = "triple a b c"
    have "decodeGroups (ref_encode bs @ r) 0 (length (ref_encode bs)) = bs" using 4 d prem by simp
    then show ?case
      using decodeGroups_Cons [of "lookup64 (drop_bit 18 ?t AND 63)" "lookup64 (drop_bit 12 ?t AND 63)"
          "lookup64 (drop_bit 6 ?t AND 63)" "lookup64 (63 AND ?t)" "ref_encode bs @ r" "length (ref_encode bs)"]
      by (simp add: tripletToBase64_def decode_quad_triple)
  }
qed (simp_all add: decodeGroups.simps not_dvd)

lemma takeWhile_pad:
  "CHR ''='' \<notin> set s \<Longrightarrow> takeWhile (\<lambda>x. x \<noteq> CHR ''='') (s @ CHR ''='' # r) = s"
  by (induction s) auto

lemma takeWhile_none: "c \<notin> set s \<Longrightarrow> takeWhile (\<lambda>x. x \<noteq> c) s = s"
  by (induction s) auto

lemma getLens_full:
  assumes "length s mod 4 = 0" and "CHR ''='' \<notin> set s"
  shows "getLens s = Inr (length s, 0)"
  using assms by (simp add: getLens_def index_of_def Let_def takeWhile_none)

lemma getLens_pad:
  assumes "CHR ''='' \<notin> set s" and "length (s @ CHR ''='' # r) mod 4 = 0"
  shows "getLens (s @ CHR ''='' # r) = Inr (length s, 4 - length s mod 4)"
  using assms takeWhile_pad [OF assms(1), of r] by (simp add: getLens_def index_of_def Let_def)

lemma fill_exact: "length bs = n \<Longrightarrow> fill n bs = bs"
  by (simp add: fill_def)

lemma byte_length_pad:
  "byte_length (4 * k) 0 = int (3 * k)" "byte_length (4 * k + 2) 2 = int (3 * k + 1)"
  "byte_length (4 * k + 3) 1 = int (3 * k + 2)"
  by (simp_all add: byte_length_def)

lemma loop_end_mod: "loop_end (4 * k) = 4 * k" "loop_end (4 * k + 2 - 4) = 4 * k"
  "loop_end (4 * k + 3 - 4) = 4 * k" "loop_end (4 * k - 2) = 4 * k" "loop_end (4 * k - Suc 0) = 4 * k"
  by (simp_all add: loop_end_def)

lemma base64_inverse: "toByteArray (fromByteArray e) = Inr e"
proof -
  define k where "k = length e div 3"
  define f where "f = take (3 * k) e"
  define l where "l = drop (3 * k) e"
  have e: "e = f @ l" by (simp add: f_def l_def)
  have lf: "length f = 3 * k" and ll: "length l = length e mod 3"
    by (simp_all add: f_def l_def k_def modulo_nat_def)
  have d: "3 dvd length f" by (simp add: lf)
  note full = full_groups [OF d]
  let ?G = "ref_encode f"
  have G: "length ?G = 4 * k" using full(2) lf by simp
  have enc: "fromByteArray e = ?G @ ref_encode l"
    using full(1) by (simp add: fromByteArray_eq e)
  have dec: "decodeGroups (?G @ r) 0 p = f" if "loop_end p = 4 * k" for r p
    using decodeGroups_end [of 0 "?G @ r" p] full(4) [of r] that G by simp
  have "length l < 3" using ll by simp
  then consider "l = []" | a where "l = [a]" | a b where "l = [a, b]"
    by (cases l; cases "tl l"; cases "tl (tl l)") auto
  then show ?thesis
  proof cases
    case 1
    then have "getLens (fromByteArray e) = Inr (4 * k, 0)"
      using getLens_full [of ?G] full(3) G enc by simp
    moreover have "decodeGroups (fromByteArray e) 0 (4 * k) = f"
      using dec [of "4 * k" "[]"] 1 enc loop_end_mod by simp
    ultimately show ?thesis
      using e 1 lf by (simp add: toByteArray_def byte_length_pad fill_exact Let_def nat_mult_distrib)
  next
    case (2 a)
    let ?x = "lookup64 (drop_bit 2 (ucast a))" and ?y = "lookup64 (push_bit 4 (ucast a) AND 63)"
    have x: "?x \<noteq> CHR ''=''" "rev_lookup64 ?x = drop_bit 2 (ucast a)"
      using lookup64_and(1,3) [of "drop_bit 2 (ucast a)"] unfolding small_and63 by auto
    have E: "fromByteArray e = (?G @ [?x, ?y]) @ CHR ''='' # ''=''" using enc 2 by simp
    have lens: "getLens (fromByteArray e) = Inr (4 * k + 2, 2)"
      unfolding E
      by (subst getLens_pad) (use x full(3) G in \<open>simp_all add: mod_Suc\<close>)
    have "decodeGroups (fromByteArray e) 0 (4 * k + 2 - 4) = f"
      using dec [of "4 * k + 2 - 4" "[?x, ?y] @ CHR ''='' # ''=''"] loop_end_mod unfolding E by simp
    moreover have "char_at (fromByteArray e) (4 * k) = drop_bit 2 (ucast a)"
      "char_at (fromByteArray e) (4 * k + 1) = push_bit 4 (ucast a) AND 63"
      unfolding E char_at_def using G x by (simp_all add: nth_append)
    ultimately show ?thesis
      using lens e 2 lf last_one [of a]
      by (simp only: toByteArray_def byte_length_pad loop_end_mod Let_def sum.case prod.case)
        (simp add: fill_exact nat_add_distrib nat_mult_distrib loop_end_mod)
  next
    case (3 a b)
    let ?t = "push_bit 8 (ucast a) OR ucast b :: i32"
    let ?x = "lookup64 (drop_bit 10 ?t)" and ?y = "lookup64 (drop_bit 4 ?t AND 63)"
      and ?z = "lookup64 (push_bit 2 ?t AND 63)"
    have x: "?x \<noteq> CHR ''=''" "rev_lookup64 ?x = drop_bit 10 ?t"
      using lookup64_and(1,3) [of "drop_bit 10 ?t"] unfolding small_and63' by auto
    have E: "fromByteArray e = (?G @ [?x, ?y, ?z]) @ CHR ''='' # []" using enc 3 by (simp add: Let_def)
    have lens: "getLens (fromByteArray e) = Inr (4 * k + 3, 1)"
      unfolding E
      by (subst getLens_pad) (use x full(3) G in \<open>simp_all add: mod_Suc\<close>)
    have "decodeGroups (fromByteArray e) 0 (4 * k + 3 - 4) = f"
      using dec [of "4 * k + 3 - 4" "[?x, ?y, ?z] @ CHR ''='' # []"] loop_end_mod unfolding E by simp
    moreover have "char_at (fromByteArray e) (4 * k) = drop_bit 10 ?t"
      "char_at (fromByteArray e) (4 * k + 1) = drop_bit 4 ?t AND 63"
      "char_at (fromByteArray e) (4 * k + 2) = push_bit 2 ?t AND 63"
      unfolding E char_at_def using G x by (simp_all add: nth_append)
    ultimately show ?thesis
      using lens e 3 lf last_two [of a b]
      by (simp only: toByteArray_def byte_length_pad loop_end_mod Let_def sum.case prod.case)
        (simp add: fill_exact nat_add_distrib nat_mult_distrib loop_end_mod)
  qed
qed

interpretation b64: codec "\<lambda>e. Inr (fromByteArray e)" toByteArray
  by unfold_locales (auto simp: base64_inverse)

text \<open>
  C22. Decoding is the inverse of encoding: every byte sequence comes back from its base64 text.
\<close>

theorem base64_round_trip: "toByteArray (fromByteArray e) = Inr e"
  by (rule b64.dec_enc) simp

subsection \<open>RFC 4648\<close>

text \<open>
  The encoding as the standard describes it, with nothing of the code in it: the bytes are read as
  one string of bits, the most significant one first; it is cut into groups of six, the last one
  filled up with zeros; the value of a group is looked up in the standard's table (\<open>A\<close> to \<open>Z\<close>, \<open>a\<close>
  to \<open>z\<close>, \<open>0\<close> to \<open>9\<close>, \<open>+\<close> and \<open>/\<close>, written as arithmetic on character codes); and the text is
  padded with \<open>=\<close> to a multiple of four characters.
\<close>

definition rfc_char :: "nat \<Rightarrow> char" where
  "rfc_char v =
     (if v < 26 then char_of (65 + v) else if v < 52 then char_of (97 + (v - 26))
      else if v < 62 then char_of (48 + (v - 52)) else if v = 62 then CHR ''+'' else CHR ''/'')"

definition byte_bits :: "byte \<Rightarrow> bool list" where
  "byte_bits a = map (bit a) [7, 6, 5, 4, 3, 2, 1, 0]"

definition bits_value :: "bool list \<Rightarrow> nat" where
  "bits_value = foldl (\<lambda>v b. 2 * v + (if b then 1 else 0)) 0"

fun rfc_groups :: "bool list \<Rightarrow> string" where
  "rfc_groups (b5 # b4 # b3 # b2 # b1 # b0 # r) = rfc_char (bits_value [b5, b4, b3, b2, b1, b0]) # rfc_groups r"
| "rfc_groups [] = []"
| "rfc_groups r = [rfc_char (bits_value (r @ replicate (6 - length r) False))]"

definition rfc_encode :: "bytes \<Rightarrow> string" where
  "rfc_encode bs =
     (let s = rfc_groups (concat (map byte_bits bs)) in s @ replicate ((4 - length s mod 4) mod 4) (CHR ''=''))"

lemma rfc_encode_samples:
  "rfc_encode (map (of_nat \<circ> of_char) ''foobar'') = ''Zm9vYmFy''"
  "rfc_encode (map (of_nat \<circ> of_char) ''fooba'') = ''Zm9vYmE=''"
  "rfc_encode [251, 255] = ''+/8=''"
  by code_simp+

lemma lookup64_rfc: "w < 64 \<Longrightarrow> lookup64 w = rfc_char (unat w)"
proof -
  assume "w < 64"
  then have "unat w \<in> set [0..<64]" by (simp add: word_less_nat_alt)
  moreover have "list_all (\<lambda>i. b64_chars ! i = rfc_char i) [0..<64]" by code_simp
  ultimately show ?thesis by (simp add: lookup64_def list_all_iff)
qed

lemma bits_value_horner: "bits_value bs = horner_sum of_bool 2 (rev bs)"
  by (induction bs rule: rev_induct) (simp_all add: bits_value_def)

lemma bits_value_word:
  "unat (w AND 63 :: i32) = bits_value (map (bit w) [5, 4, 3, 2, 1, 0])"
proof -
  have i: "[0..<6] = rev [5, 4, 3, 2, 1, 0 :: nat]" by code_simp
  have "unat (w AND 63) = take_bit 6 (unat w)"
    by (simp add: mask_6 unsigned_take_bit_eq flip: take_bit_eq_mask)
  also have "\<dots> = horner_sum of_bool 2 (map (bit (unat w)) [0..<6])"
    by (simp add: horner_sum_bit_eq_take_bit)
  also have "map (bit (unat w)) [0..<6] = map (bit w) (rev [5, 4, 3, 2, 1, 0])"
    by (simp add: i bit_unsigned_iff)
  finally show ?thesis by (simp add: bits_value_horner)
qed

lemma lookup64_bits:
  "lookup64 (w AND 63) = rfc_char (bits_value (map (bit w) [5, 4, 3, 2, 1, 0]))"
  "lookup64 (63 AND w) = rfc_char (bits_value (map (bit w) [5, 4, 3, 2, 1, 0]))"
  using lookup64_rfc [OF and63_less(1)] lookup64_rfc [OF and63_less(2)]
  by (simp_all add: bits_value_word and.commute [of 63])

lemma rfc_triple:
  "rfc_groups (byte_bits a @ byte_bits b @ byte_bits c @ r) = tripletToBase64 (triple a b c) @ rfc_groups r"
  by (simp add: byte_bits_def tripletToBase64_def lookup64_bits bit_drop_bit_eq bit_triple)

lemma rfc_encode_Cons:
  "rfc_encode (a # b # c # bs) = tripletToBase64 (triple a b c) @ rfc_encode bs"
  by (simp add: rfc_encode_def rfc_triple Let_def tripletToBase64_def)

lemma rfc_rest:
  "rfc_groups [p, q] = [rfc_char (bits_value [p, q, False, False, False, False])]"
  "rfc_groups [p, q, r, s] = [rfc_char (bits_value [p, q, r, s, False, False])]"
  "replicate 2 x = [x, x]" "replicate 4 x = [x, x, x, x]"
  by (simp_all add: numeral_eq_Suc)

lemma bit_ucast_32: "n < 32 \<Longrightarrow> bit (ucast (a :: byte) :: i32) n \<longleftrightarrow> bit a n"
  by (simp add: bit_simps)

lemma byte_high: "8 \<le> n \<Longrightarrow> \<not> bit (a :: byte) n"
  using byte_bit [of a n] by auto

lemma rfc_one:
  "rfc_encode [a] = [lookup64 (drop_bit 2 (ucast a)), lookup64 (push_bit 4 (ucast a) AND 63), CHR ''='', CHR ''='']"
proof -
  have "lookup64 (drop_bit 2 (ucast a)) = rfc_char (bits_value (map (bit a) [7, 6, 5, 4, 3, 2]))"
    using lookup64_bits(1) [of "drop_bit 2 (ucast a)"] unfolding small_and63
    by (simp add: bit_drop_bit_eq bit_ucast_32)
  moreover have "lookup64 (push_bit 4 (ucast a) AND 63) =
      rfc_char (bits_value [bit a 1, bit a 0, False, False, False, False])"
    unfolding lookup64_bits by (simp add: bit_push_bit_iff bit_ucast_32)
  ultimately show ?thesis by (simp add: rfc_encode_def byte_bits_def rfc_rest Let_def)
qed

lemma rfc_two:
  "rfc_encode [a, b] = (let t = push_bit 8 (ucast a) OR ucast b :: i32 in
      [lookup64 (drop_bit 10 t), lookup64 (drop_bit 4 t AND 63), lookup64 (push_bit 2 t AND 63), CHR ''=''])"
proof -
  let ?t = "push_bit 8 (ucast a) OR ucast b :: i32"
  have "lookup64 (drop_bit 10 ?t) = rfc_char (bits_value (map (bit a) [7, 6, 5, 4, 3, 2]))"
    using lookup64_bits(1) [of "drop_bit 10 ?t"] unfolding small_and63'
    by (simp add: bit_drop_bit_eq bit_or_iff bit_push_bit_iff bit_ucast_32 byte_high)
  moreover have "lookup64 (drop_bit 4 ?t AND 63) =
      rfc_char (bits_value [bit a 1, bit a 0, bit b 7, bit b 6, bit b 5, bit b 4])"
    unfolding lookup64_bits by (simp add: bit_drop_bit_eq bit_or_iff bit_push_bit_iff bit_ucast_32 byte_high)
  moreover have "lookup64 (push_bit 2 ?t AND 63) =
      rfc_char (bits_value [bit b 3, bit b 2, bit b 1, bit b 0, False, False])"
    unfolding lookup64_bits by (simp add: bit_or_iff bit_push_bit_iff bit_ucast_32 byte_high)
  ultimately show ?thesis by (simp add: rfc_encode_def byte_bits_def rfc_rest Let_def)
qed

lemma ref_encode_rfc: "ref_encode e = rfc_encode e"
proof (induction e rule: ref_encode.induct)
  case 1
  show ?case by (simp add: rfc_encode_def)
qed (simp_all only: ref_encode.simps rfc_one rfc_two rfc_encode_Cons)

text \<open>
  C38. The chunked, index-driven encoder with its shifts, masks and table computes the base64
  encoding of RFC 4648, for byte sequences of every length: groups of six bits of the bytes read as
  one string of bits, looked up in the standard's alphabet, and padded.
\<close>

theorem fromByteArray_ref: "fromByteArray e = rfc_encode e"
  unfolding fromByteArray_eq by (rule ref_encode_rfc)

subsection \<open>Outcomes of the decoder\<close>

lemma length_fill [simp]: "length (fill n bs) = n"
  by (simp add: fill_def)

lemma takeWhile_eq_Nil: "takeWhile P s = [] \<longleftrightarrow> s = [] \<or> \<not> P (hd s)"
  by (cases s) auto

lemma getLens_size:
  assumes "getLens s = Inr (v, p)"
  shows "byte_length v p < 0 \<longleftrightarrow> s \<noteq> [] \<and> hd s = CHR ''=''"
proof -
  let ?i = "length (takeWhile (\<lambda>x. x \<noteq> CHR ''='') s)"
  have v: "v = (if ?i < length s then ?i else length s)" "p = (if v = length s then 0 else 4 - v mod 4)"
    using assms by (auto simp: getLens_def index_of_def Let_def split: if_splits)
  have i: "?i \<le> length s" by (rule length_takeWhile_le)
  then have vi: "v = ?i" using v(1) by auto
  show ?thesis
  proof (cases "v = length s")
    case True
    then have "\<not> byte_length v p < 0" using v(2) by (simp add: byte_length_def)
    moreover have "\<not> (s \<noteq> [] \<and> hd s = CHR ''='')"
      using True vi takeWhile_eq_Nil [of "\<lambda>x. x \<noteq> CHR ''=''" s] by auto
    ultimately show ?thesis by blast
  next
    case False
    then have p: "p = 4 - v mod 4" "s \<noteq> []" using v(2) i vi by auto
    define k where "k = v div 4"
    have k: "v = 4 * k + v mod 4" "v mod 4 < 4" by (simp_all add: k_def)
    then have pm: "p + v mod 4 = 4" using p(1) by simp
    define r where "r = v mod 4"
    have "v + p = 4 * (k + 1)" using k(1) pm unfolding r_def [symmetric] by simp
    then have "int (v + p) = int (4 * (k + 1))" by (rule arg_cong)
    then have "int v + int p = 4 * (int k + 1)" by simp
    then have "byte_length v p = 3 * (int k + 1) - int p" by (simp add: byte_length_def)
    then have "byte_length v p < 0 \<longleftrightarrow> v = 0"
      using k pm unfolding r_def [symmetric] by auto
    then show ?thesis using p(2) vi takeWhile_eq_Nil [of "\<lambda>x. x \<noteq> CHR ''=''" s] by auto
  qed
qed

text \<open>What the decoder does with any text: it throws an \<open>Error\<close> for a length that is no multiple
  of four, a \<open>RangeError\<close> for a text that starts with padding, and otherwise returns as many bytes
  as \<open>byteLength\<close> says, whatever the characters are.\<close>

theorem toByteArray_outcome:
  "map_js (\<lambda>bs. int (length bs)) (toByteArray s) =
    (if 4 dvd length s \<and> s \<noteq> [] \<and> hd s = CHR ''='' then Inl RangeError else byteLength s)"
proof (cases "getLens s")
  case (Inl e)
  then have "\<not> 4 dvd length s" by (auto simp: getLens_def Let_def split: if_splits)
  then show ?thesis using Inl by (simp add: toByteArray_def byteLength_def)
next
  case (Inr vp)
  obtain v p where vp: "vp = (v, p)" by fastforce
  have d: "4 dvd length s" using Inr by (auto simp: getLens_def Let_def split: if_splits)
  have z: "byte_length v p < 0 \<longleftrightarrow> s \<noteq> [] \<and> hd s = CHR ''=''"
    using getLens_size [of s v p] Inr vp by simp
  show ?thesis
  proof (cases "byte_length v p < 0")
    case True
    then show ?thesis using z d Inr by (simp add: vp toByteArray_def)
  next
    case False
    then have "\<not> (s \<noteq> [] \<and> hd s = CHR ''='')" using z by blast
    then show ?thesis using False Inr by (auto simp: vp toByteArray_def byteLength_def Let_def)
  qed
qed

end
