(* ===== verification/Js_OAuth.thy ===== *)
theory Js_OAuth
  imports Js_Uri Js_Sanitize Js_Base64
begin

text \<open>
  The OAuth2 flow of the API browser: the code verifier and challenge of PKCE (\<open>it\<close>, \<open>st\<close>, \<open>ct\<close>
  of \<open>core/utils.js\<close> in \<open>swagger-ui.js\<close>), the address the browser is sent to (\<open>oauth2-authorize.js\<close>,
  the function called in \<open>authorize\<close> of the class \<open>Oauth2\<close>) and the page it comes back to
  (\<open>oauth2-redirect.html\<close>).

  The bytes of \<open>randombytes\<close> and of the date, the hash function and the resolution of an address
  against the selected server (\<open>url-parse\<close>) are arguments, and so is what \<open>JSON.parse\<close> makes of the
  text the redirect page writes for a query with a quotation mark or a backslash. A missing value is \<open>None\<close>.
\<close>

subsection \<open>Proof keys\<close>

definition b64toB64UrlEncoded :: "string \<Rightarrow> string" where
  "b64toB64UrlEncoded s =
     filter (\<lambda>c. c \<noteq> CHR ''='')
       (map (\<lambda>c. if c = CHR ''/'' then CHR ''_'' else c)
         (map (\<lambda>c. if c = CHR ''+'' then CHR ''-'' else c) s))"

definition generateCodeVerifier :: "bytes \<Rightarrow> string" where
  "generateCodeVerifier random32 = b64toB64UrlEncoded (fromByteArray random32)"

definition createCodeChallenge :: "(string \<Rightarrow> bytes) \<Rightarrow> string \<Rightarrow> string" where
  "createCodeChallenge sha256 codeVerifier = b64toB64UrlEncoded (fromByteArray (sha256 codeVerifier))"

subsection \<open>The address of the authorization request\<close>

record auth =
  flow :: jstr
  authorizationUrl :: jstr
  clientId :: "jstr option"
  scopes :: "jstr list"

record auth_config =
  scopeSeparator :: "jstr option"
  realm :: "jstr option"
  usePkce :: bool
  useBasic :: bool
  extraParams :: "jstr option jobj"

datatype oauth_callback = PreAuthorizeImplicit | AccessCodeWithBasic | AccessCodeWithForm

datatype authorize_result =
    AuthorizePassword
  | AuthorizeApplication
  | NoRedirectUrl
  | Opened jstr jstr oauth_callback "string option"

definition code_flow :: "jstr \<Rightarrow> bool" where
  "code_flow f \<longleftrightarrow> f = us ''authorizationCode'' \<or> f = us ''authorization_code''"

text \<open>The part each flow starts the query with; a flow of another name adds none.\<close>

definition response_type :: "jstr \<Rightarrow> jstr list" where
  "response_type f =
     (if f = us ''accessCode'' \<or> code_flow f then [us ''response_type=code'']
      else if f = us ''implicit'' then [us ''response_type=token'']
      else [])"

definition enc_part :: "string \<Rightarrow> jstr \<Rightarrow> jstr js" where
  "enc_part k v = map_js ((@) (us k @ [61])) (encodeURIComponent v)"

definition opt_part :: "string \<Rightarrow> jstr option \<Rightarrow> jstr list js" where
  "opt_part k v = (case v of None \<Rightarrow> Inr [] | Some x \<Rightarrow> map_js (\<lambda>p. [p]) (enc_part k x))"

definition scope_value :: "auth_config \<Rightarrow> jstr list \<Rightarrow> jstr option" where
  "scope_value cfg scs =
     (if scs = [] then None
      else Some (join_with (case scopeSeparator cfg of
          None \<Rightarrow> [32] | Some sep \<Rightarrow> if sep = [] then [32] else sep) scs))"

fun extra_parts :: "jstr option jobj \<Rightarrow> jstr list js" where
  "extra_parts [] = Inr []"
| "extra_parts ((k, v) # ps) =
     (case v of
        None \<Rightarrow> extra_parts ps
      | Some x \<Rightarrow> bind_js (serialize_part (k, x)) (\<lambda>p. map_js ((#) p) (extra_parts ps)))"

definition uses_pkce :: "auth_config \<Rightarrow> jstr \<Rightarrow> bool" where
  "uses_pkce cfg f \<longleftrightarrow> (code_flow f \<or> f = us ''accessCode'') \<and> usePkce cfg"

definition query_parts ::
  "(string \<Rightarrow> bytes) \<Rightarrow> string \<Rightarrow> jstr \<Rightarrow> auth_config \<Rightarrow> auth \<Rightarrow> jstr \<Rightarrow> jstr list js" where
  "query_parts sha256 verifier state cfg t redirectUrl =
     bind_js (opt_part ''client_id'' (clientId t)) (\<lambda>cid.
     bind_js (enc_part ''redirect_uri'' redirectUrl) (\<lambda>ru.
     bind_js (opt_part ''scope'' (scope_value cfg (scopes t))) (\<lambda>sc.
     bind_js (enc_part ''state'' state) (\<lambda>st.
     bind_js (opt_part ''realm'' (realm cfg)) (\<lambda>rl.
     map_js (\<lambda>ex.
       response_type (flow t) @ cid @ [ru] @ sc @ [st] @ rl @
       (if uses_pkce cfg (flow t)
        then [us (''code_challenge='' @ createCodeChallenge sha256 verifier),
              us ''code_challenge_method=S256'']
        else []) @ ex) (extra_parts (extraParams cfg)))))))"

definition callback_of :: "auth_config \<Rightarrow> jstr \<Rightarrow> oauth_callback" where
  "callback_of cfg f =
     (if f = us ''implicit'' then PreAuthorizeImplicit
      else if useBasic cfg then AccessCodeWithBasic else AccessCodeWithForm)"

definition base_url :: "(jstr \<Rightarrow> jstr \<Rightarrow> jstr) \<Rightarrow> jstr option \<Rightarrow> auth \<Rightarrow> jstr" where
  "base_url resolve server t =
     (case server of
        None \<Rightarrow> sanitizeUrl_util (Some (authorizationUrl t))
      | Some s \<Rightarrow>
          if s = [] then sanitizeUrl_util (Some (authorizationUrl t))
          else resolve (sanitizeUrl_util (Some (authorizationUrl t))) s)"

definition oauth2_authorize ::
  "(jstr \<Rightarrow> jstr \<Rightarrow> jstr) \<Rightarrow> (string \<Rightarrow> bytes) \<Rightarrow> bytes \<Rightarrow> bytes \<Rightarrow> jstr option \<Rightarrow> jstr option \<Rightarrow>
     auth_config \<Rightarrow> auth \<Rightarrow> authorize_result js" where
  "oauth2_authorize resolve sha256 random32 date server redirectUrl cfg t =
     (if flow t = us ''password'' then Inr AuthorizePassword
      else if flow t \<in> {us ''application'', us ''clientCredentials'', us ''client_credentials''}
      then Inr AuthorizeApplication
      else case redirectUrl of
        None \<Rightarrow> map_js (\<lambda>p. NoRedirectUrl) (opt_part ''client_id'' (clientId t))
      | Some h \<Rightarrow>
          let state = us (fromByteArray date);
              verifier = generateCodeVerifier random32 in
          map_js (\<lambda>d.
            Opened
              (base_url resolve server t @
                (if 63 \<in> set (authorizationUrl t) then [38] else [63]) @ join_with [38] d)
              state (callback_of cfg (flow t))
              (if uses_pkce cfg (flow t) then Some verifier else None))
            (query_parts sha256 verifier state cfg t h))"

subsection \<open>The page the browser comes back to\<close>

text \<open>
  \<open>run\<close> of \<open>oauth2-redirect.html\<close>. The page turns the query into the text of a JSON object and
  parses it. For queries without quotation mark, backslash and control characters (\<open>plain_query\<close>)
  the model reads that text: each part becomes one member, or, without an equals sign, a syntax error,
  and the last member of a name counts. The member with the empty name keeps its value undecoded. What
  \<open>JSON.parse\<close> makes of any other query is an argument.
\<close>

definition plain_query :: "jstr \<Rightarrow> bool" where
  "plain_query q \<longleftrightarrow> (\<forall>c \<in> set q. c \<noteq> 34 \<and> c \<noteq> 92 \<and> 32 \<le> c)"

fun members :: "jstr list \<Rightarrow> (jstr \<times> jstr) list js" where
  "members [] = Inr []"
| "members (v # vs) =
     (if 61 \<notin> set v then Inl SyntaxError
      else map_js ((#) (takeWhile (\<lambda>c. c \<noteq> 61) v, tl (dropWhile (\<lambda>c. c \<noteq> 61) v))) (members vs))"

fun revive :: "(jstr \<times> jstr) list \<Rightarrow> (jstr \<times> jstr) list js" where
  "revive [] = Inr []"
| "revive ((k, v) # ms) =
     bind_js (if k = [] then Inr v else decodeURIComponent v) (\<lambda>x. map_js ((#) (k, x)) (revive ms))"

definition json_object :: "(jstr \<times> jstr) list \<Rightarrow> (jstr \<times> jstr) list" where
  "json_object ms = fold (\<lambda>(k, v) ob. AList.update k v ob) ms []"

definition redirect_params :: "jstr \<Rightarrow> (jstr \<times> jstr) list js" where
  "redirect_params qp =
     (if qp = [] then Inr []
      else bind_js (members (split_at 38 qp)) (\<lambda>ms. revive (json_object ms)))"

definition page_params :: "(jstr \<Rightarrow> (jstr \<times> jstr) list js) \<Rightarrow> jstr \<Rightarrow> (jstr \<times> jstr) list js" where
  "page_params parse qp = (if plain_query qp then redirect_params qp else parse qp)"

definition redirect_query :: "jstr \<Rightarrow> jstr \<Rightarrow> jstr" where
  "redirect_query hash search =
     (if has_sub (us ''code'') hash \<or> has_sub (us ''token'') hash \<or> has_sub (us ''error'') hash
      then drop 1 hash else drop 1 search)"

text \<open>What the page tells the window that opened it.\<close>

datatype notice =
    UnsafeWarning
  | AuthFailed jstr
  | CodeCallback jstr
  | TokenCallback "(jstr \<times> jstr) list" bool

definition truthy :: "jstr option \<Rightarrow> bool" where
  "truthy v \<longleftrightarrow> v \<noteq> None \<and> v \<noteq> Some []"

definition error_message :: "(jstr \<times> jstr) list \<Rightarrow> jstr" where
  "error_message qp =
     (if truthy (map_of qp (us ''error''))
      then us ''['' @ the (map_of qp (us ''error'')) @ us '']: '' @
        (if truthy (map_of qp (us ''error_description''))
         then the (map_of qp (us ''error_description'')) @ us ''. ''
         else us ''no accessCode received from the server. '') @
        (if truthy (map_of qp (us ''error_uri''))
         then us ''More info: '' @ the (map_of qp (us ''error_uri'')) else [])
      else us ''[Authorization failed]: no accessCode received from the server'')"

text \<open>\<open>code\<close> is what the shared object holds as its code, \<open>sentState\<close> the state that was sent, unless
  the page has deleted it on an earlier return.\<close>

definition redirect_run ::
  "(jstr \<Rightarrow> (jstr \<times> jstr) list js) \<Rightarrow> jstr \<Rightarrow> jstr option \<Rightarrow> jstr option \<Rightarrow> jstr \<Rightarrow> jstr \<Rightarrow> notice list js" where
  "redirect_run parse f code sentState hash search =
     map_js (\<lambda>qp.
       let isValid = (map_of qp (us ''state'') = sentState) in
       if (f = us ''accessCode'' \<or> code_flow f) \<and> \<not> truthy code
       then (if isValid then [] else [UnsafeWarning]) @
         [if truthy (map_of qp (us ''code''))
          then CodeCallback (the (map_of qp (us ''code'')))
          else AuthFailed (error_message qp)]
       else [TokenCallback qp isValid])
     (page_params parse (redirect_query hash search))"


subsection \<open>Proof keys are well formed\<close>

definition is_b64 :: "char \<Rightarrow> bool" where
  "is_b64 c \<longleftrightarrow> c \<in> set b64_chars"

definition url_char :: "char \<Rightarrow> char" where
  "url_char c = (if c = CHR ''+'' then CHR ''-'' else if c = CHR ''/'' then CHR ''_'' else c)"

definition std_char :: "char \<Rightarrow> char" where
  "std_char c = (if c = CHR ''-'' then CHR ''+'' else if c = CHR ''_'' then CHR ''/'' else c)"

text \<open>Back from the URL alphabet, with the padding the length asks for.\<close>

definition from_url :: "string \<Rightarrow> string" where
  "from_url s = map std_char s @ replicate ((4 - length s mod 4) mod 4) (CHR ''='')"

text \<open>The characters RFC 7636 allows in a code verifier.\<close>

definition pkce_char :: "char \<Rightarrow> bool" where
  "pkce_char c \<longleftrightarrow> c \<in> set ''ABCDEFGHIJKLMNOPQRSTUVWXYZabcdefghijklmnopqrstuvwxyz0123456789-._~''"

lemma lookup64_b64: "w < 64 \<Longrightarrow> is_b64 (lookup64 w)"
proof -
  assume "w < 64"
  then have "unat w < length b64_chars" by (simp add: b64_chars_def word_less_nat_alt)
  then show ?thesis unfolding is_b64_def lookup64_def by (rule nth_mem)
qed

lemma b64_facts: "is_b64 c \<Longrightarrow> std_char (url_char c) = c \<and> pkce_char (url_char c) \<and> url_char c \<noteq> CHR ''=''"
proof -
  have "\<forall>c \<in> set b64_chars. std_char (url_char c) = c \<and> pkce_char (url_char c) \<and> url_char c \<noteq> CHR ''=''"
    by code_simp
  then show "is_b64 c \<Longrightarrow> ?thesis" by (simp add: is_b64_def)
qed

definition pad_count :: "nat \<Rightarrow> nat" where
  "pad_count n = (3 - n mod 3) mod 3"

lemma small_lookup: "is_b64 (lookup64 (drop_bit 2 (ucast (a :: byte))))"
    "is_b64 (lookup64 (drop_bit 10 (push_bit 8 (ucast (a :: byte)) OR ucast (b :: byte))))"
  using lookup64_b64 [OF and63_less(1)] small_and63 [of a] small_and63' [of a b] by metis+

lemma small_lookup_or:
  "is_b64 (lookup64 (drop_bit 10 (push_bit 8 (ucast (a :: byte))) OR drop_bit 10 (ucast (b :: byte))))"
  using small_lookup(2) [of a b] by simp

lemma replicate_two: "replicate 2 x = [x, x]"
  by (simp add: numeral_2_eq_2)

lemma ref_encode_shape:
  "\<exists>body. ref_encode e = body @ replicate (pad_count (length e)) (CHR ''='') \<and> list_all is_b64 body \<and>
    length (ref_encode e) = 4 * ((length e + 2) div 3)"
proof (induction e rule: ref_encode.induct)
  case (2 a)
  show ?case
    by (intro exI [of _ "[lookup64 (drop_bit 2 (ucast a)), lookup64 (push_bit 4 (ucast a) AND 63)]"])
      (simp add: pad_count_def small_lookup lookup64_b64 and63_less replicate_two)
next
  case (3 a b)
  let ?t = "push_bit 8 (ucast a) OR ucast b :: i32"
  show ?case
    by (intro exI [of _ "[lookup64 (drop_bit 10 ?t), lookup64 (drop_bit 4 ?t AND 63),
        lookup64 (push_bit 2 ?t AND 63)]"])
      (simp add: pad_count_def small_lookup_or lookup64_b64 and63_less Let_def)
next
  case (4 a b c bs)
  then obtain body where body: "ref_encode bs = body @ replicate (pad_count (length bs)) (CHR ''='')"
      "list_all is_b64 body" "length (ref_encode bs) = 4 * ((length bs + 2) div 3)" by blast
  have "pad_count (length (a # b # c # bs)) = pad_count (length bs)"
    by (simp add: pad_count_def mod_Suc)
  moreover have "(5 + n) div 3 = Suc (Suc (Suc n) div 3)" for n :: nat by presburger
  ultimately show ?case
    using body by (intro exI [of _ "tripletToBase64 (triple a b c) @ body"])
      (simp add: tripletToBase64_def lookup64_b64 and63_less)
qed (simp add: pad_count_def)

lemma url_encoded_eq:
  assumes "list_all is_b64 body"
  shows "b64toB64UrlEncoded (body @ replicate k (CHR ''='')) = map url_char body"
proof -
  have "b64toB64UrlEncoded s = filter (\<lambda>c. c \<noteq> CHR ''='') (map url_char s)" for s
    unfolding b64toB64UrlEncoded_def by (simp add: comp_def) (rule arg_cong [where f = "filter _"], simp add: url_char_def)
  moreover have "filter (\<lambda>c. c \<noteq> CHR ''='') (map url_char body) = map url_char body"
    using assms b64_facts by (simp add: filter_id_conv list_all_iff)
  ultimately show ?thesis by (simp add: url_char_def)
qed

lemma url_encoded_facts:
  "from_url (b64toB64UrlEncoded (fromByteArray e)) = fromByteArray e"
  "list_all pkce_char (b64toB64UrlEncoded (fromByteArray e))"
  "length (b64toB64UrlEncoded (fromByteArray e)) + pad_count (length e) = 4 * ((length e + 2) div 3)"
proof -
  let ?k = "pad_count (length e)"
  obtain body where body: "fromByteArray e = body @ replicate ?k (CHR ''='')" "list_all is_b64 body"
      "length body + ?k = 4 * ((length e + 2) div 3)"
    using ref_encode_shape [of e] by (auto simp: fromByteArray_eq)
  have u: "b64toB64UrlEncoded (fromByteArray e) = map url_char body"
    unfolding body(1) by (rule url_encoded_eq [OF body(2)])
  have k: "?k < 4" by (simp add: pad_count_def)
  have "(4 - l mod 4) mod 4 = k" if l: "l + k = 4 * m" and "k < 4" for l k m :: nat
  proof -
    show ?thesis
    proof (cases m)
      case (Suc j)
      then have "l = (4 - k) + j * 4" using l \<open>k < 4\<close> by simp
      then have "l mod 4 = (4 - k) mod 4" by (simp only: mod_mult_self1)
      then show ?thesis using \<open>k < 4\<close> by (cases "k = 0") simp_all
    qed (use l in simp)
  qed
  then have "(4 - length body mod 4) mod 4 = ?k" using body(3) k by blast
  moreover have "map (\<lambda>c. std_char (url_char c)) body = body"
    using body(2) b64_facts by (simp add: list_all_iff map_idI)
  ultimately show "from_url (b64toB64UrlEncoded (fromByteArray e)) = fromByteArray e"
    unfolding u by (simp add: from_url_def body(1) comp_def)
  show "list_all pkce_char (b64toB64UrlEncoded (fromByteArray e))"
    unfolding u using body(2) b64_facts by (simp add: list_all_iff)
  show "length (b64toB64UrlEncoded (fromByteArray e)) + ?k = 4 * ((length e + 2) div 3)"
    unfolding u using body(3) by simp
qed

text \<open>C40. A code verifier made from 32 random bytes is one that RFC 7636 allows: 43 characters
  of its alphabet. It carries all of the randomness: the bytes can be read back from it.\<close>

theorem pkce_verifier:
  assumes "length random32 = 32"
  shows "length (generateCodeVerifier random32) = 43 \<and>
    list_all pkce_char (generateCodeVerifier random32) \<and>
    toByteArray (from_url (generateCodeVerifier random32)) = Inr random32"
  unfolding generateCodeVerifier_def
  using url_encoded_facts [of random32] assms by (simp add: base64_inverse pad_count_def)

lemma pkce_verifier_witness:
  "length (generateCodeVerifier (replicate 32 (255 :: byte))) = 43 \<and>
    list_all pkce_char (generateCodeVerifier (replicate 32 255)) \<and>
    toByteArray (from_url (generateCodeVerifier (replicate 32 255))) = Inr (replicate 32 255)"
  by (rule pkce_verifier) simp


subsection \<open>The address opened\<close>

lemma sanitized_plain:
  "dropWhile (\<lambda>c. c \<le> 32) (sanitizeUrl e @ r) = sanitizeUrl e @ dropWhile (\<lambda>c. c \<le> 32 \<and> sanitizeUrl e = []) r"
  "filter (\<lambda>c. c \<noteq> 9 \<and> c \<noteq> 10 \<and> c \<noteq> 13) (sanitizeUrl e) = sanitizeUrl e"
proof -
  let ?t = "sanitizeUrl e"
  have "cleaned ?t"
  proof (cases "?t = about_blank")
    case True
    moreover have "cleaned about_blank" unfolding cleaned_def by code_simp
    ultimately show ?thesis by simp
  qed (use sanitized_cases [of e] cleaned_trim [of e] in auto)
  from cleaned_plain [OF this] show "filter (\<lambda>c. c \<noteq> 9 \<and> c \<noteq> 10 \<and> c \<noteq> 13) ?t = ?t" by simp
  show "dropWhile (\<lambda>c. c \<le> 32) (?t @ r) = ?t @ dropWhile (\<lambda>c. c \<le> 32 \<and> ?t = []) r"
  proof (cases ?t)
    case (Cons c cs)
    have "\<not> c \<le> 32" using cleaned_plain(1) [OF \<open>cleaned ?t\<close>] by (auto simp: Cons split: if_splits dest: arg_cong [where f = length] simp: dropWhile_eq_drop)
    then show ?thesis by (simp add: Cons)
  qed simp
qed


lemma takeWhile_stop:
  assumes "\<not> P x"
  shows "takeWhile P (t @ x # r) = takeWhile P t"
    "dropWhile P (t @ x # r) = dropWhile P t @ x # r"
  using assms by (induction t) auto

lemma browser_scheme_append:
  assumes x: "\<not> x \<le> 32" "\<not> scheme_unit x" "x \<noteq> 58"
  shows "browser_scheme (sanitizeUrl e @ x # r) = browser_scheme (sanitizeUrl e)"
proof -
  let ?t = "sanitizeUrl e"
  define r' where "r' = filter (\<lambda>c. c \<noteq> 9 \<and> c \<noteq> 10 \<and> c \<noteq> 13) r"
  have x9: "x \<noteq> 9 \<and> x \<noteq> 10 \<and> x \<noteq> 13" using x(1) by (auto simp: word_le_nat_alt)
  have "dropWhile (\<lambda>c. c \<le> 32) (?t @ x # r) = ?t @ x # r"
    using sanitized_plain(1) [of e "x # r"] x(1) by simp
  then have "filter (\<lambda>c. c \<noteq> 9 \<and> c \<noteq> 10 \<and> c \<noteq> 13) (dropWhile (\<lambda>c. c \<le> 32) (?t @ x # r)) = ?t @ x # r'"
    using sanitized_plain(2) [of e] x9 by (simp add: r'_def)
  moreover have "dropWhile (\<lambda>c. c \<le> 32) ?t = ?t" using sanitized_plain(1) [of e "[]"] by simp
  ultimately show ?thesis
    unfolding browser_scheme_def Let_def
    using sanitized_plain(2) [of e] x(2,3)
    by (simp add: takeWhile_stop hd_append del: filter_append)
qed

lemma separator_ends_scheme: "\<not> (38 :: unit16) \<le> 32" "\<not> scheme_unit 38" "\<not> (63 :: unit16) \<le> 32" "\<not> scheme_unit 63"
  by code_simp+

text \<open>C19. The address of the authorization request is no script, whatever address the API's
  description gives, when it is not resolved against a server: a browser reads no scheme
  \<open>javascript\<close>, \<open>data\<close> or \<open>vbscript\<close> from it, also with the query appended.\<close>

theorem authorize_no_script:
  assumes "oauth2_authorize resolve sha256 random32 date None redirectUrl cfg t =
    Inr (Opened url state cb verifier)"
  shows "browser_scheme url \<notin> Some ` set script_words"
proof -
  obtain d x where url: "url = base_url resolve None t @ x # d" and x: "x = 38 \<or> x = 63"
    using assms by (auto simp: oauth2_authorize_def Let_def split: if_splits option.splits)
  show ?thesis
  proof (cases "authorizationUrl t = []")
    case True
    then have "browser_scheme url = None"
      using x separator_ends_scheme by (auto simp: url base_url_def sanitizeUrl_util_def browser_scheme_def Let_def)
    then show ?thesis by simp
  next
    case False
    then have "browser_scheme url = browser_scheme (sanitizeUrl (authorizationUrl t))"
      using x separator_ends_scheme browser_scheme_append [of x "authorizationUrl t" d]
      by (auto simp: url base_url_def sanitizeUrl_util_def)
    then show ?thesis using sanitizeUrl_safe by simp
  qed
qed

subsection \<open>The query the authorization server reads\<close>

definition reads :: "jstr \<Rightarrow> jstr \<times> jstr \<Rightarrow> bool" where
  "reads p kv \<longleftrightarrow> form_field p = Inr kv \<and> 38 \<notin> set p \<and> p \<noteq> []"

lemma reads_join:
  assumes "list_all2 reads d kvs" "d \<noteq> []"
  shows "form_fields (join_with [38] d) = Inr kvs"
proof -
  have "\<forall>p \<in> set d. 38 \<notin> set p \<and> p \<noteq> []"
    using assms(1) by (induction rule: list_all2_induct) (auto simp: reads_def)
  moreover have "mapM_js form_field d = Inr kvs"
    unfolding mapM_js_Inr using assms(1) by (rule list_all2_mono) (simp add: reads_def)
  moreover from calculation(1) have "join_with [38] d \<noteq> []"
    using assms(2) by (cases d; cases "tl d") auto
  ultimately show ?thesis using assms(2) by (simp add: form_fields_def split_at_join)
qed

lemma spaces_id: "43 \<notin> set s \<Longrightarrow> form_value s = decodeURIComponent s"
  unfolding form_value_def by (subst replace_unit_id) auto

lemma form_value_encoded: "encodeURIComponent s = Inr t \<Longrightarrow> form_value t = Inr s"
  using decode_encode [of "[39]" s t] encoded_no_sep [of s t] by (simp add: spaces_id quote_ok_def)

lemma reads_encoded:
  assumes "encodeURIComponent k = Inr k'" "encodeURIComponent v = Inr v'"
  shows "reads (k' @ 61 # v') (k, v)"
  using assms form_value_encoded encoded_no_sep [OF assms(1)] encoded_no_sep [OF assms(2)]
  by (simp add: reads_def form_field_def split_part)

lemma reads_plain:
  assumes "list_all uri_unescaped k" "list_all uri_unescaped v"
  shows "reads (k @ 61 # v) (k, v)"
proof -
  have "61 \<notin> set k" "38 \<notin> set k" "61 \<notin> set v" "38 \<notin> set v"
    using assms unescaped_no_plus by (auto simp: list_all_iff)
  then show ?thesis
    using assms by (simp add: reads_def form_field_def split_part unescaped_form_value)
qed

lemma reads_enc_part:
  assumes "list_all uri_unescaped (us k)" "enc_part k v = Inr p"
  shows "reads p (us k, v)"
proof -
  obtain v' where v': "encodeURIComponent v = Inr v'" "p = us k @ 61 # v'"
    using assms(2) by (auto simp: enc_part_def)
  have "61 \<notin> set (us k)" "38 \<notin> set (us k)"
    using assms(1) unescaped_no_plus by (auto simp: list_all_iff)
  then show ?thesis
    using v' assms(1) encoded_no_sep [OF v'(1)] form_value_encoded [OF v'(1)]
    by (simp add: reads_def form_field_def split_part unescaped_form_value)
qed


definition opt_param :: "string \<Rightarrow> jstr option \<Rightarrow> (jstr \<times> jstr) list" where
  "opt_param k v = (case v of None \<Rightarrow> [] | Some x \<Rightarrow> [(us k, x)])"

definition sent_params ::
  "(string \<Rightarrow> bytes) \<Rightarrow> string \<Rightarrow> jstr \<Rightarrow> auth_config \<Rightarrow> auth \<Rightarrow> jstr \<Rightarrow> (jstr \<times> jstr) list" where
  "sent_params sha256 verifier state cfg t h =
     (if flow t = us ''accessCode'' \<or> code_flow (flow t) then [(us ''response_type'', us ''code'')]
      else if flow t = us ''implicit'' then [(us ''response_type'', us ''token'')] else []) @
     opt_param ''client_id'' (clientId t) @
     [(us ''redirect_uri'', h)] @
     opt_param ''scope'' (scope_value cfg (scopes t)) @
     [(us ''state'', state)] @
     opt_param ''realm'' (realm cfg) @
     (if uses_pkce cfg (flow t)
      then [(us ''code_challenge'', us (createCodeChallenge sha256 verifier)),
            (us ''code_challenge_method'', us ''S256'')]
      else []) @
     [(k, x). (k, Some x) \<leftarrow> extraParams cfg]"

lemma opt_part_reads:
  "list_all uri_unescaped (us k) \<Longrightarrow> opt_part k v = Inr ps \<Longrightarrow> list_all2 reads ps (opt_param k v)"
  by (auto simp: opt_part_def opt_param_def reads_enc_part split: option.splits)

lemma extra_parts_read:
  "extra_parts ps = Inr ex \<Longrightarrow> list_all2 reads ex [(k, x). (k, Some x) \<leftarrow> ps]"
proof (induction ps arbitrary: ex rule: extra_parts.induct)
  case (2 k v ps)
  then show ?case
    by (cases v) (auto simp: bind_js_Inr serialize_part_def reads_encoded)
qed simp

lemma challenge_reads:
  "reads (us (''code_challenge='' @ createCodeChallenge sha256 w))
    (us ''code_challenge'', us (createCodeChallenge sha256 w))"
proof -
  have u: "us (a @ b) = us a @ us b" for a b by (simp add: us_def)
  have "\<forall>c \<in> set ''ABCDEFGHIJKLMNOPQRSTUVWXYZabcdefghijklmnopqrstuvwxyz0123456789-._~''.
      uri_unescaped (of_char c)" by code_simp
  then have "pkce_char c \<Longrightarrow> uri_unescaped (of_char c)" for c unfolding pkce_char_def by blast
  then have "list_all uri_unescaped (us (createCodeChallenge sha256 w))"
    using url_encoded_facts(2) [of "sha256 w"]
    by (auto simp: createCodeChallenge_def us_def list_all_iff)
  moreover have "list_all uri_unescaped (us ''code_challenge'')" by code_simp
  ultimately have "reads (us ''code_challenge'' @ 61 # us (createCodeChallenge sha256 w))
      (us ''code_challenge'', us (createCodeChallenge sha256 w))" by (rule reads_plain [rotated])
  then show ?thesis unfolding u [of "''code_challenge=''"] by (simp add: u)
qed

lemma literal_reads:
  "reads (us ''response_type=code'') (us ''response_type'', us ''code'')"
  "reads (us ''response_type=token'') (us ''response_type'', us ''token'')"
  "reads (us ''code_challenge_method=S256'') (us ''code_challenge_method'', us ''S256'')"
  unfolding reads_def by code_simp+

lemma literal_keys:
  "list_all uri_unescaped (us ''client_id'')" "list_all uri_unescaped (us ''redirect_uri'')"
  "list_all uri_unescaped (us ''scope'')" "list_all uri_unescaped (us ''state'')"
  "list_all uri_unescaped (us ''realm'')"
  by code_simp+

lemma query_parts_read:
  assumes "query_parts sha256 w state cfg t h = Inr d"
  shows "list_all2 reads d (sent_params sha256 w state cfg t h)"
proof -
  obtain cid ru sc st rl ex where p:
      "opt_part ''client_id'' (clientId t) = Inr cid" "enc_part ''redirect_uri'' h = Inr ru"
      "opt_part ''scope'' (scope_value cfg (scopes t)) = Inr sc" "enc_part ''state'' state = Inr st"
      "opt_part ''realm'' (realm cfg) = Inr rl" "extra_parts (extraParams cfg) = Inr ex"
    and d: "d = response_type (flow t) @ cid @ [ru] @ sc @ [st] @ rl @
       (if uses_pkce cfg (flow t)
        then [us (''code_challenge='' @ createCodeChallenge sha256 w),
              us ''code_challenge_method=S256'']
        else []) @ ex"
    using assms unfolding query_parts_def bind_js_Inr map_js_eq by metis
  note reads = opt_part_reads [OF literal_keys(1) p(1)] reads_enc_part [OF literal_keys(2) p(2)]
    opt_part_reads [OF literal_keys(3) p(3)] reads_enc_part [OF literal_keys(4) p(4)]
    opt_part_reads [OF literal_keys(5) p(5)] extra_parts_read [OF p(6)]
  have "list_all2 reads (response_type (flow t))
      (if flow t = us ''accessCode'' \<or> code_flow (flow t) then [(us ''response_type'', us ''code'')]
       else if flow t = us ''implicit'' then [(us ''response_type'', us ''token'')] else [])"
    unfolding response_type_def by (simp add: literal_reads del: us_simps)
  then show ?thesis
    unfolding d sent_params_def
    by (intro list_all2_appendI) (simp_all add: reads challenge_reads [unfolded append.simps] literal_reads del: us_simps)
qed

lemma authorize_opened:
  assumes "oauth2_authorize resolve sha256 random32 date server (Some h) cfg t =
    Inr (Opened url state cb verifier)"
  shows "\<exists>x q. url = base_url resolve server t @ x # q \<and> (x = 63 \<or> x = 38) \<and>
    form_fields q = Inr (sent_params sha256 (generateCodeVerifier random32) state cfg t h) \<and>
    verifier = (if uses_pkce cfg (flow t) then Some (generateCodeVerifier random32) else None)"
proof -
  let ?w = "generateCodeVerifier random32"
  obtain d where d: "query_parts sha256 ?w state cfg t h = Inr d"
      and url: "url = base_url resolve server t @
        (if 63 \<in> set (authorizationUrl t) then [38] else [63]) @ join_with [38] d"
      and v: "verifier = (if uses_pkce cfg (flow t) then Some ?w else None)"
    using assms by (auto simp: oauth2_authorize_def Let_def simp del: us_simps split: if_splits)
  note r = query_parts_read [OF d]
  have "d \<noteq> []" using r by (auto simp: sent_params_def)
  from reads_join [OF r this] show ?thesis
    using url v by (cases "63 \<in> set (authorizationUrl t)") auto
qed

text \<open>The authorization server reads from the query exactly the parameters of the request, in
  this order: response type, client, redirect address, scopes, state, realm, the challenge that
  belongs to the kept code verifier, and the configured extra parameters.\<close>

theorem authorize_query:
  assumes "oauth2_authorize resolve sha256 random32 date server (Some h) cfg t =
    Inr (Opened url state cb verifier)"
  shows "\<exists>x q. url = base_url resolve server t @ x # q \<and> (x = 63 \<or> x = 38) \<and>
    form_fields q = Inr (sent_params sha256 (generateCodeVerifier random32) state cfg t h) \<and>
    verifier = (if uses_pkce cfg (flow t) then Some (generateCodeVerifier random32) else None)"
  using assms by (rule authorize_opened)


definition sample_config :: auth_config where
  "sample_config = \<lparr>scopeSeparator = None, realm = None, usePkce = False, useBasic = False,
     extraParams = []\<rparr>"

definition script_auth :: auth where
  "script_auth = \<lparr>flow = us ''implicit'', authorizationUrl = us ''JavaScript:alert(1)//'',
     clientId = Some (us ''me''), scopes = [us ''a'', us ''b'']\<rparr>"

lemma script_opened:
  "oauth2_authorize (\<lambda>a b. a) (\<lambda>s. []) [] [65] None (Some (us ''/r'')) sample_config script_auth =
    Inr (Opened (us ''about:blank?response_type=token&client_id=me&redirect_uri=%2Fr&scope=a%20b&state=QQ%3D%3D'')
      (us ''QQ=='') PreAuthorizeImplicit None)"
  by code_simp

lemma authorize_no_script_witness:
  "browser_scheme (us ''about:blank?response_type=token&client_id=me&redirect_uri=%2Fr&scope=a%20b&state=QQ%3D%3D'')
    \<notin> Some ` set script_words"
  by (rule authorize_no_script [OF script_opened])

lemma authorize_query_witness:
  "\<exists>x q. us ''about:blank?response_type=token&client_id=me&redirect_uri=%2Fr&scope=a%20b&state=QQ%3D%3D'' =
      base_url (\<lambda>a b. a) None script_auth @ x # q \<and> (x = 63 \<or> x = 38) \<and>
    form_fields q = Inr (sent_params (\<lambda>s. []) (generateCodeVerifier []) (us ''QQ=='') sample_config script_auth (us ''/r'')) \<and>
    None = (if uses_pkce sample_config (flow script_auth) then Some (generateCodeVerifier []) else None)"
  by (rule authorize_query [OF script_opened])


subsection \<open>The redirect page\<close>

definition plain_keys :: "(jstr \<times> jstr) list \<Rightarrow> bool" where
  "plain_keys ps \<longleftrightarrow> distinct (map fst ps) \<and>
     list_all (\<lambda>(k, v). k \<noteq> [] \<and> list_all uri_unescaped k \<and> wf16 v) ps"

lemma encode_unescaped: "list_all uri_unescaped k \<Longrightarrow> encodeURIComponent k = Inr k"
  by (induction k) simp_all

lemma cut_at: "61 \<notin> set k \<Longrightarrow> takeWhile (\<lambda>c. c \<noteq> 61) (k @ 61 # v) = k \<and>
    dropWhile (\<lambda>c. c \<noteq> 61) (k @ 61 # v) = 61 # v"
  by (induction k) auto

lemma members_serialized:
  "plain_keys ps \<Longrightarrow> list_all2 (\<lambda>kv p. serialize_part kv = Inr p) ps parts \<Longrightarrow>
    \<exists>es. members parts = Inr (zip (map fst ps) es) \<and>
      list_all2 (\<lambda>kv e. encodeURIComponent (snd kv) = Inr e) ps es"
proof (induction parts arbitrary: ps)
  case (Cons p parts)
  then obtain k v ps' where ps: "ps = (k, v) # ps'" and p: "serialize_part (k, v) = Inr p"
      and r: "list_all2 (\<lambda>kv p. serialize_part kv = Inr p) ps' parts"
    by (auto simp: list_all2_Cons2)
  have k: "list_all uri_unescaped k" and pk: "plain_keys ps'"
    using Cons.prems(1) by (auto simp: ps plain_keys_def)
  obtain e where e: "encodeURIComponent v = Inr e" "p = k @ 61 # e"
    using p k by (auto simp: serialize_part_def encode_unescaped)
  have "61 \<notin> set k" using k unescaped_no_plus by (auto simp: list_all_iff)
  moreover obtain es where "members parts = Inr (zip (map fst ps') es)"
      "list_all2 (\<lambda>kv e. encodeURIComponent (snd kv) = Inr e) ps' es"
    using Cons.IH [OF pk r] by blast
  ultimately show ?case
    using e cut_at [of k e] by (intro exI [of _ "e # es"]) (simp add: ps)
qed simp

lemma json_object_distinct: "distinct (map fst (ob @ ms)) \<Longrightarrow>
    fold (\<lambda>(k, v) ob. AList.update k v ob) ms ob = ob @ ms"
proof (induction ms arbitrary: ob)
  case (Cons kv ms)
  obtain k v where kv: "kv = (k, v)" by (cases kv)
  have "k \<notin> fst ` set ob" using Cons.prems by (auto simp: kv)
  then have "AList.update k v ob = ob @ [(k, v)]" by (induction ob) auto
  then show ?case using Cons.IH [of "ob @ [(k, v)]"] Cons.prems by (simp add: kv)
qed simp

lemma revive_encoded:
  "plain_keys ps \<Longrightarrow> list_all2 (\<lambda>kv e. encodeURIComponent (snd kv) = Inr e) ps es \<Longrightarrow>
    revive (zip (map fst ps) es) = Inr ps"
proof (induction es arbitrary: ps)
  case (Cons e es)
  then obtain k v ps' where ps: "ps = (k, v) # ps'" and e: "encodeURIComponent v = Inr e"
      and r: "list_all2 (\<lambda>kv e. encodeURIComponent (snd kv) = Inr e) ps' es"
    by (auto simp: list_all2_Cons2)
  have "k \<noteq> []" "plain_keys ps'" using Cons.prems(1) by (auto simp: ps plain_keys_def)
  then show ?case
    using Cons.IH [OF _ r] decode_encode [of "[39]", OF _ e] by (simp add: ps quote_ok_def)
qed simp

lemma redirect_params_serialized:
  assumes "plain_keys ps" "ps \<noteq> []" "serializeSearch ps = Inr q"
  shows "redirect_params q = Inr ps"
proof -
  obtain parts where p: "list_all2 (\<lambda>kv p. serialize_part kv = Inr p) ps parts"
      and q: "q = join_with [38] parts"
    using assms(3) by (auto simp: serializeSearch_def mapM_js_Inr)
  have ne: "parts \<noteq> []" using p assms(2) by auto
  have sep: "\<forall>x \<in> set parts. 38 \<notin> set x \<and> x \<noteq> []"
    using p
  proof (induction rule: list_all2_induct)
    case (Cons kv ps x parts)
    have "38 \<notin> set x \<and> x \<noteq> []"
      using Cons.hyps(1) parse_serialized [of "[39]" "fst kv" "snd kv" x "[]"]
      by (auto simp: quote_ok_def serialize_part_def bind_js_Inr)
    then show ?case using Cons.IH by simp
  qed simp
  then have "q \<noteq> []" using ne unfolding q by (cases parts; cases "tl parts") auto
  obtain es where es: "members parts = Inr (zip (map fst ps) es)"
      "list_all2 (\<lambda>kv e. encodeURIComponent (snd kv) = Inr e) ps es"
    using members_serialized [OF assms(1) p] by blast
  have z: "map fst (zip (map fst ps) es) = map fst ps"
    using list_all2_lengthD [OF es(2)] by simp
  have "distinct (map fst ([] @ zip (map fst ps) es))"
    using assms(1) unfolding append_Nil z plain_keys_def by blast
  from json_object_distinct [OF this] have "json_object (zip (map fst ps) es) = zip (map fst ps) es"
    by (simp add: json_object_def)
  then show ?thesis
    using \<open>q \<noteq> []\<close> es(1) revive_encoded [OF assms(1) es(2)] sep ne
    by (simp add: redirect_params_def q split_at_join)
qed

lemma serialized_plain:
  assumes "serializeSearch ps = Inr q" shows "plain_query q"
proof -
  have a: "uri_unescaped c \<or> c = 37 \<Longrightarrow> c \<noteq> 34 \<and> c \<noteq> 92 \<and> 32 \<le> c" for c
    by (auto simp: uri_unescaped_def alnum16_def word_le_nat_alt)
  obtain parts where p: "list_all2 (\<lambda>kv p. serialize_part kv = Inr p) ps parts"
      and q: "q = join_with [38] parts"
    using assms by (auto simp: serializeSearch_def mapM_js_Inr)
  have "\<forall>x \<in> set parts. \<forall>c \<in> set x. c \<noteq> 34 \<and> c \<noteq> 92 \<and> 32 \<le> c"
    using p
  proof (induction rule: list_all2_induct)
    case (Cons kv ps x parts)
    then obtain k e where "encodeURIComponent (fst kv) = Inr k" "encodeURIComponent (snd kv) = Inr e"
        "x = k @ 61 # e"
      by (auto simp: serialize_part_def bind_js_Inr)
    then have "\<forall>c \<in> set x. c \<noteq> 34 \<and> c \<noteq> 92 \<and> 32 \<le> c"
      using encode_alphabet a by fastforce
    then show ?case using Cons.IH by simp
  qed simp
  then show ?thesis using join_set [of "[38]" parts] by (fastforce simp: plain_query_def q)
qed

text \<open>C30. The way back, in the code flows: the authorization server returns parameters with a code among
  them, written as a query with distinct names of unreserved characters, in the query of the page's
  address or, when the fragment names a code, token or error, in the fragment. If the form holds no
  code, the page hands over just the returned one; the state decides only about a warning: a code that
  comes with another state than the one sent, or with none, is handed over, and exchanged, all the
  same. If the form holds a code already, the page hands over no code: it makes the callback of the
  other flows, and the returned code is lost.\<close>

theorem redirect_code:
  assumes "f = us ''accessCode'' \<or> code_flow f" and "plain_keys ps" and "serializeSearch ps = Inr q"
    and "map_of ps (us ''code'') = Some c" and "c \<noteq> []" and "redirect_query hash srch = q"
  shows "redirect_run parse f held sentState hash srch = Inr
    (if held = None \<or> held = Some []
     then (if map_of ps (us ''state'') = sentState then [] else [UnsafeWarning]) @ [CodeCallback c]
     else [TokenCallback ps (map_of ps (us ''state'') = sentState)])"
proof -
  have "ps \<noteq> []" using assms(4) by auto
  then have "page_params parse q = Inr ps"
    using redirect_params_serialized [OF assms(2) _ assms(3)] serialized_plain [OF assms(3)]
    by (simp add: page_params_def)
  then show ?thesis
    using assms(1,4,5) by (auto simp: redirect_run_def assms(6) truthy_def Let_def simp del: us_simps)
qed

text \<open>A code with a forged state; in the query, and for a form with a code, in the fragment.\<close>

lemma redirect_code_witness:
  "redirect_run (\<lambda>q. Inl SyntaxError) (us ''accessCode'') None (Some (us ''QQ=='')) []
      (us ''?code=c0de&state=forged'') = Inr [UnsafeWarning, CodeCallback (us ''c0de'')] \<and>
   redirect_run (\<lambda>q. Inl SyntaxError) (us ''accessCode'') (Some (us ''old'')) (Some (us ''QQ==''))
      (us ''#code=c0de&state=forged'') [] =
    Inr [TokenCallback [(us ''code'', us ''c0de''), (us ''state'', us ''forged'')] False]"
proof -
  let ?ps = "[(us ''code'', us ''c0de''), (us ''state'', us ''forged'')]"
  have p: "plain_keys ?ps" "serializeSearch ?ps = Inr (us ''code=c0de&state=forged'')"
    "map_of ?ps (us ''code'') = Some (us ''c0de'')" "us ''c0de'' \<noteq> []"
    "redirect_query [] (us ''?code=c0de&state=forged'') = us ''code=c0de&state=forged''"
    "redirect_query (us ''#code=c0de&state=forged'') [] = us ''code=c0de&state=forged''"
    "map_of ?ps (us ''state'') = Some (us ''forged'')" "us ''forged'' \<noteq> us ''QQ==''" "us ''old'' \<noteq> []"
    by code_simp+
  have f: "us ''accessCode'' = us ''accessCode'' \<or> code_flow (us ''accessCode'')" by simp
  show ?thesis
    using redirect_code [OF f p(1-5), of "\<lambda>q. Inl SyntaxError" None "Some (us ''QQ=='')"]
      redirect_code [OF f p(1-4,6), of "\<lambda>q. Inl SyntaxError" "Some (us ''old'')" "Some (us ''QQ=='')"] p(7-9)
    by (simp del: us_simps)
qed

lemma members_error: "members vs = Inl e \<Longrightarrow> e = SyntaxError \<and> (\<exists>v \<in> set vs. 61 \<notin> set v)"
  by (induction vs) (auto split: if_splits)

lemma members_ok: "members vs = Inr ms \<Longrightarrow> \<forall>v \<in> set vs. 61 \<in> set v"
  by (induction vs arbitrary: ms) (auto split: if_splits)

lemma decode_error: "decodeURIComponent s = Inl e \<Longrightarrow> e = URIError"
  by (induction s rule: decodeURIComponent.induct) (auto split: if_splits option.splits)

lemma revive_error: "revive ms = Inl e \<Longrightarrow> e = URIError"
  by (induction ms rule: revive.induct) (auto simp: bind_js_Inl decode_error split: if_splits)

text \<open>A parameter without an equals sign stops the page: parsing the text it builds throws a
  syntax error, so nothing is handed over and the window stays open. No other plain query has
  that effect.\<close>

theorem redirect_syntax_error:
  assumes "plain_query (redirect_query hash srch)"
  shows "redirect_run parse f code sentState hash srch = Inl SyntaxError \<longleftrightarrow>
    redirect_query hash srch \<noteq> [] \<and>
    (\<exists>p \<in> set (split_at 38 (redirect_query hash srch)). 61 \<notin> set p)"
proof -
  let ?q = "redirect_query hash srch"
  have "redirect_params ?q = Inl SyntaxError \<longleftrightarrow> ?q \<noteq> [] \<and> (\<exists>p \<in> set (split_at 38 ?q). 61 \<notin> set p)"
  proof (cases "members (split_at 38 ?q)")
    case (Inl e)
    then show ?thesis using members_error [OF Inl] by (simp add: redirect_params_def)
  next
    case (Inr ms)
    have "revive (json_object ms) \<noteq> Inl SyntaxError" using revive_error by blast
    then show ?thesis using members_ok [OF Inr] Inr by (simp add: redirect_params_def)
  qed
  then show ?thesis using assms by (simp add: redirect_run_def page_params_def)
qed

lemma redirect_syntax_error_witness:
  "redirect_run (\<lambda>q. Inl SyntaxError) (us ''accessCode'') None (Some (us ''s'')) [] (us ''?code=1&debug'') = Inl SyntaxError"
proof -
  have q: "redirect_query [] (us ''?code=1&debug'') = us ''code=1&debug''" by code_simp
  have "plain_query (redirect_query [] (us ''?code=1&debug''))" unfolding q plain_query_def by code_simp
  moreover have "split_at 38 (us ''code=1&debug'') = [us ''code=1'', us ''debug'']" by code_simp
  moreover have "61 \<notin> set (us ''debug'')" by code_simp
  ultimately show ?thesis by (subst redirect_syntax_error) (auto simp: q simp del: us_simps)
qed

end
