(* ===== verification/Js_Curl.thy ===== *)
theory Js_Curl
  imports Js_Uri Js_Sanitize
begin

text \<open>
  The command line the API browser shows for a request, to be pasted into a shell: the function of
  the component \<open>Curl\<close> (\<open>curlify\<close> of swagger-ui), against the words a POSIX shell reads from it.
  Header values and the entries of a form are strings or files; a file stands for its name and
  type. \<open>JSON.stringify\<close> of a string is written out.
\<close>

subsection \<open>JSON text of a string\<close>

definition hex_lower :: "nat \<Rightarrow> unit16" where
  "hex_lower n = (if n < 10 then of_nat (48 + n) else of_nat (87 + n))"

definition u_escape :: "unit16 \<Rightarrow> jstr" where
  "u_escape c = us [CHR 0x5C, CHR ''u''] @
     map (\<lambda>k. hex_lower (unat c div 16 ^ k mod 16)) [3, 2, 1, 0]"

definition json_unit :: "unit16 \<Rightarrow> jstr" where
  "json_unit c =
     (if c = 34 \<or> c = 92 then [92, c]
      else if c = 8 then [92, 98] else if c = 9 then [92, 116] else if c = 10 then [92, 110]
      else if c = 12 then [92, 102] else if c = 13 then [92, 114]
      else if c < 32 then u_escape c else [c])"

fun json_units :: "jstr \<Rightarrow> jstr" where
  "json_units [] = []"
| "json_units [c] = (if is_lead c \<or> is_trail c then u_escape c else json_unit c)"
| "json_units (c # d # s) =
     (if is_lead c \<and> is_trail d then c # d # json_units s
      else if is_lead c \<or> is_trail c then u_escape c @ json_units (d # s)
      else json_unit c @ json_units (d # s))"

definition json_string :: "jstr \<Rightarrow> jstr" where
  "json_string s = 34 # json_units s @ [34]"

subsection \<open>The command line\<close>

datatype form_value = FormText jstr | FormFile jstr jstr

datatype curl_body = NoBody | TextBody jstr | FormBody "(jstr \<times> form_value) list"

record curl_request =
  curl_options :: "jstr list"
  req_method :: jstr
  req_url :: jstr
  req_headers :: "(jstr \<times> jstr) list"
  req_body :: curl_body

definition quoted :: "jstr \<Rightarrow> jstr" where
  "quoted s = 34 # s @ [34]"

text \<open>\<open>replace(/\$/g, "\\$")\<close>, \<open>replace("$", "\\$")\<close> and \<open>replace(/\\n/g, "")\<close>.\<close>

definition escape_dollars :: "jstr \<Rightarrow> jstr" where
  "escape_dollars s = replace_unit (\<lambda>c. c = 36) [92, 36] s"

fun escape_first_dollar :: "jstr \<Rightarrow> jstr" where
  "escape_first_dollar [] = []"
| "escape_first_dollar (c # s) = (if c = 36 then 92 # c # s else c # escape_first_dollar s)"

definition drop_newlines :: "jstr \<Rightarrow> jstr" where
  "drop_newlines s = replace_str [92, 110] [] s"

text \<open>\<open>extractKey\<close>: the name of an entry without the mark that keeps equal names apart.\<close>

definition key_mark :: jstr where
  "key_mark = us ''_**[]''"

fun before_sub :: "jstr \<Rightarrow> jstr \<Rightarrow> jstr" where
  "before_sub t [] = []"
| "before_sub t (c # s) = (if starts_with t (c # s) then [] else c # before_sub t s)"

definition extractKey :: "jstr \<Rightarrow> jstr" where
  "extractKey k = (if has_sub key_mark k then trim_js (before_sub key_mark k) else k)"

definition is_multipart :: "jstr \<times> jstr \<Rightarrow> bool" where
  "is_multipart h \<longleftrightarrow> lower (fst h) = us ''content-type'' \<and> lower (snd h) = us ''multipart/form-data''"

definition header_parts :: "jstr \<times> jstr \<Rightarrow> jstr list" where
  "header_parts h = [us ''-H '', quoted (fst h @ us '': '' @ escape_dollars (snd h))]"

definition multipart_parts :: "jstr \<times> form_value \<Rightarrow> jstr list" where
  "multipart_parts e = [us ''-F'', quoted (extractKey (fst e) @ (case snd e of
       FormText v \<Rightarrow> us ''='' @ v
     | FormFile name type \<Rightarrow> us ''=@'' @ name @ (if type \<noteq> [] then us '';type='' @ type else [])))]"

definition form_entry :: "jstr \<times> form_value \<Rightarrow> jstr" where
  "form_entry e = quoted (extractKey (fst e)) @ (case snd e of
       FormText v \<Rightarrow> us '':'' @ escape_first_dollar (drop_newlines (json_string v))
     | FormFile name type \<Rightarrow> us '':{'' @ quoted (us ''name'') @ us '':'' @ quoted name @
         (if type \<noteq> [] then us '','' @ quoted (us ''type'') @ us '':'' @ quoted type else []) @ us ''}'')"

definition has_body :: "curl_body \<Rightarrow> bool" where
  "has_body b = (case b of NoBody \<Rightarrow> False | TextBody s \<Rightarrow> s \<noteq> [] | FormBody es \<Rightarrow> True)"

definition body_parts :: "curl_request \<Rightarrow> jstr list js" where
  "body_parts r =
     (if has_body (req_body r) then
        (if list_ex is_multipart (req_headers r) \<and> req_method r \<in> {us ''POST'', us ''PUT'', us ''PATCH''} then
           (case req_body r of FormBody es \<Rightarrow> Inr (concat (map multipart_parts es)) | _ \<Rightarrow> Inl TypeError)
         else Inr (case req_body r of
             FormBody es \<Rightarrow> [us ''-d'', us ''{'' @ join_with (us '','') (map form_entry es) @ us ''}'']
           | TextBody s \<Rightarrow> [us ''-d'', escape_dollars (drop_newlines (json_string s))]
           | NoBody \<Rightarrow> []))
      else Inr (if req_method r = us ''POST'' then [us ''-d'', quoted []] else []))"

definition curlify :: "curl_request \<Rightarrow> jstr js" where
  "curlify r = map_js (\<lambda>body. join_with (us '' '')
       ([us ''curl''] @ curl_options r @ [us ''-X'', req_method r, quoted (req_url r)] @
        concat (map header_parts (req_headers r)) @ body))
     (body_parts r)"

subsection \<open>What a shell reads\<close>

text \<open>
  The words of a simple command, after quote removal. \<open>Expands\<close>: the shell comes upon a parameter
  or a command to substitute; \<open>Incomplete\<close>: a quotation does not end; \<open>Special\<close>: any other syntax.
\<close>

datatype shell = Words "jstr list" | Expands | Incomplete | Special

definition add_words :: "jstr list \<Rightarrow> shell \<Rightarrow> shell" where
  "add_words ws r = (case r of Words vs \<Rightarrow> Words (ws @ vs) | _ \<Rightarrow> r)"

definition opens_expansion :: "jstr \<Rightarrow> bool" where
  "opens_expansion s = (case s of
       [] \<Rightarrow> False
     | c # s' \<Rightarrow> c = 96 \<or> c = 36 \<and> (case s' of
           [] \<Rightarrow> False
         | d # _ \<Rightarrow> alnum16 d \<or> d \<in> set (us ''_({@*#?-$!'')))"

definition shell_syntax :: "jstr" where
  "shell_syntax = us ''|&;<>()$*?[]#~='' @ [39, 92, 9, 10, 13]"

fun read_shell :: "bool \<Rightarrow> jstr option \<Rightarrow> jstr \<Rightarrow> shell" where
  "read_shell False w [] = Words (case w of None \<Rightarrow> [] | Some v \<Rightarrow> [v])"
| "read_shell True w [] = Incomplete"
| "read_shell False w (c # s) =
     (if c = 32 then add_words (case w of None \<Rightarrow> [] | Some v \<Rightarrow> [v]) (read_shell False None s)
      else if c = 34 then read_shell True (Some (case w of None \<Rightarrow> [] | Some v \<Rightarrow> v)) s
      else if opens_expansion (c # s) then Expands
      else if c \<in> set shell_syntax then Special
      else read_shell False (Some ((case w of None \<Rightarrow> [] | Some v \<Rightarrow> v) @ [c])) s)"
| "read_shell True w (c # s) =
     (let v = (case w of None \<Rightarrow> [] | Some v \<Rightarrow> v) in
      if c = 34 then read_shell False (Some v) s
      else if opens_expansion (c # s) then Expands
      else if c = 92 then
        (case s of
           [] \<Rightarrow> Incomplete
         | d # s' \<Rightarrow>
             if d \<in> {34, 36, 92, 96} then read_shell True (Some (v @ [d])) s'
             else if d = 10 then read_shell True (Some v) s'
             else read_shell True (Some (v @ [c])) s)
      else read_shell True (Some (v @ [c])) s)"


subsection \<open>Reading token by token\<close>

definition reads :: "jstr \<Rightarrow> jstr list \<Rightarrow> bool" where
  "reads t ws \<longleftrightarrow> read_shell False None t = Words ws \<and>
     (\<forall>s. read_shell False None (t @ 32 # s) = add_words ws (read_shell False None s))"

lemma add_words_simps [simp]:
  "add_words ws (Words vs) = Words (ws @ vs)" "add_words ws Expands = Expands"
  "add_words ws Incomplete = Incomplete" "add_words ws Special = Special"
  "add_words [] r = r" "add_words us1 (add_words us2 r) = add_words (us1 @ us2) r"
  by (simp_all add: add_words_def split: shell.split)

lemma tokens_join:
  "list_all2 reads ts wss \<Longrightarrow> ts \<noteq> [] \<Longrightarrow> read_shell False None (join_with [32] ts) = Words (concat wss)"
proof (induction ts arbitrary: wss)
  case (Cons t ts)
  then obtain ws wss' where w: "wss = ws # wss'" "reads t ws" "list_all2 reads ts wss'"
    by (auto simp: list_all2_Cons1)
  show ?case
  proof (cases ts)
    case Nil
    then show ?thesis using w by (simp add: reads_def)
  next
    case (Cons t' ts')
    then have "read_shell False None (join_with [32] ts) = Words (concat wss')"
      using w(3) Cons.IH by simp
    then show ?thesis using w Cons by (simp add: reads_def)
  qed
qed simp

definition word_unit :: "unit16 \<Rightarrow> bool" where
  "word_unit c \<longleftrightarrow> c \<notin> {32, 34, 36, 96} \<and> c \<notin> set shell_syntax"

definition quote_unit :: "unit16 \<Rightarrow> bool" where
  "quote_unit c \<longleftrightarrow> c \<notin> {34, 36, 92, 96}"

lemma no_expansion [simp]: "c \<noteq> 36 \<Longrightarrow> c \<noteq> 96 \<Longrightarrow> \<not> opens_expansion (c # s)"
  by (simp add: opens_expansion_def)

lemma read_word:
  "list_all word_unit w \<Longrightarrow> read_shell False (Some v) (w @ s) = read_shell False (Some (v @ w)) s"
  by (induction w arbitrary: v) (auto simp: word_unit_def)

lemma reads_word:
  assumes "w \<noteq> []" and "list_all word_unit w"
  shows "reads w [w]"
proof -
  obtain c w' where w: "w = c # w'" using assms(1) by (cases w) auto
  have "read_shell False None (w @ s) = read_shell False (Some w) s" for s
    using read_word [of w' "[c]" s] assms(2) by (simp add: w word_unit_def)
  from this [of "[]"] this show ?thesis by (simp add: reads_def)
qed

lemma read_quote:
  "list_all quote_unit w \<Longrightarrow> read_shell True (Some v) (w @ s) = read_shell True (Some (v @ w)) s"
  by (induction w arbitrary: v) (auto simp: quote_unit_def)

lemma read_escape_quote:
  "d \<in> {34, 36, 92, 96} \<Longrightarrow> read_shell True (Some v) (92 # d # s) = read_shell True (Some (v @ [d])) s"
  by auto

lemma reads_quote:
  assumes "\<And>s. read_shell True (Some []) (e @ s) = read_shell True (Some w) s"
  shows "reads (34 # e @ [34]) [w]"
  by (simp add: reads_def assms)

lemma reads_quoted: "list_all quote_unit w \<Longrightarrow> reads (quoted w) [w]"
  using reads_quote [of w w] read_quote [of w "[]"] by (simp add: quoted_def)

text \<open>The separate text \<open>-H\<close> and its blank.\<close>

lemma reads_H: "reads (us ''-H '') [us ''-H'']"
proof -
  have "reads (us ''-H'') [us ''-H'']"
    by (rule reads_word) (simp_all add: word_unit_def shell_syntax_def)
  then show ?thesis by (simp add: reads_def)
qed

subsection \<open>Headers and texts\<close>

definition header_unit :: "unit16 \<Rightarrow> bool" where
  "header_unit c \<longleftrightarrow> c \<notin> {34, 92, 96}"

lemma read_dollars:
  "list_all header_unit d \<Longrightarrow> read_shell True (Some v) (escape_dollars d @ s) = read_shell True (Some (v @ d)) s"
proof (induction d arbitrary: v)
  case (Cons c d)
  show ?case
  proof (cases "c = 36")
    case True
    then show ?thesis using Cons read_escape_quote [of 36 v] by (simp add: escape_dollars_def)
  next
    case False
    then show ?thesis using Cons by (simp add: escape_dollars_def header_unit_def)
  qed
qed (simp add: escape_dollars_def)

lemma reads_header:
  assumes "list_all quote_unit (fst h)" and "list_all header_unit (snd h)"
  shows "list_all2 reads (header_parts h) [[us ''-H''], [fst h @ us '': '' @ snd h]]"
proof -
  have "read_shell True (Some []) ((fst h @ us '': '' @ escape_dollars (snd h)) @ s) =
      read_shell True (Some (fst h @ us '': '' @ snd h)) s" for s
    using read_quote [of "fst h @ us '': ''" "[]"] read_dollars [OF assms(2)] assms(1)
    by (simp add: quote_unit_def)
  from reads_quote [OF this] reads_H show ?thesis by (simp add: header_parts_def quoted_def)
qed

text \<open>
  A text that JSON writes with no other escapes than those the shell undoes: well-formed, without
  control characters but line feeds, and without a backslash before the letter n.
\<close>

definition text_unit :: "unit16 \<Rightarrow> bool" where
  "text_unit c \<longleftrightarrow> (32 \<le> c \<or> c = 10) \<and> c \<noteq> 96"

definition text_ok :: "jstr \<Rightarrow> bool" where
  "text_ok s \<longleftrightarrow> wf16 s \<and> list_all text_unit s \<and> \<not> has_sub [92, 110] s"

definition text_chunk :: "unit16 \<Rightarrow> jstr" where
  "text_chunk c = (if c = 10 then [] else if c = 34 \<or> c = 92 then [92, c] else [c])"

lemma drop_other: "c \<noteq> 92 \<Longrightarrow> drop_newlines (c # s) = c # drop_newlines s"
  by (simp add: drop_newlines_def)

lemma drop_backslash: "\<not> starts_with [110] s \<Longrightarrow> drop_newlines (92 # s) = 92 # drop_newlines s"
  by (simp add: drop_newlines_def)

lemma drop_newline: "drop_newlines (92 # 110 # s) = drop_newlines s"
  by (simp add: drop_newlines_def)

lemma json_unit_text:
  "text_unit c \<Longrightarrow> json_unit c = (if c = 10 then [92, 110] else text_chunk c)"
  by (auto simp: json_unit_def text_chunk_def text_unit_def word_less_nat_alt word_le_nat_alt)

lemma surrogate_text:
  "is_lead c \<or> is_trail c \<Longrightarrow> text_chunk c = [c] \<and> c \<noteq> 92"
  by (auto simp: surrogate_nat text_chunk_def)


lemma json_unit_head: "d \<noteq> 110 \<Longrightarrow> \<not> starts_with [110] (json_unit d @ x)"
  by (simp add: json_unit_def u_escape_def)

lemma json_units_head: "d \<noteq> 110 \<Longrightarrow> \<not> starts_with [110] (json_units (d # s) @ x)"
  using json_unit_head [of d] by (cases s) (simp_all add: u_escape_def)

lemma drop_unit:
  assumes "text_unit c" and "c = 92 \<Longrightarrow> \<not> starts_with [110] x"
  shows "drop_newlines (json_unit c @ x) = text_chunk c @ drop_newlines x"
proof -
  consider "c = 10" | "c = 34" | "c = 92" | "c \<notin> {10, 34, 92}" by blast
  then show ?thesis
  proof cases
    case 3
    then show ?thesis
      using assms drop_backslash [of "92 # x"] drop_backslash [of x] by (simp add: json_unit_def text_chunk_def)
  qed (use assms drop_newline [of x] drop_backslash [of "34 # x"] drop_other in
      \<open>simp_all add: json_unit_text text_chunk_def\<close>)
qed

lemma text_ok_pair: "is_lead c \<Longrightarrow> is_trail d \<Longrightarrow> text_ok (c # d # s) \<Longrightarrow> text_ok s"
  using lead_not_trail [of c] by (simp add: text_ok_def)

lemma drop_json:
  "text_ok s \<Longrightarrow> drop_newlines (json_units s @ [34]) = concat (map text_chunk s) @ [34]"
proof (induction s rule: json_units.induct)
  case 1
  show ?case by (simp add: drop_newlines_def)
next
  case (2 c)
  then have "\<not> (is_lead c \<or> is_trail c)" "text_unit c" by (auto simp: text_ok_def split: if_splits)
  then show ?case using drop_unit [of c "[34]"] by (simp add: drop_newlines_def)
next
  case (3 c d s)
  show ?case
  proof (cases "is_lead c \<and> is_trail d")
    case True
    then have "text_ok s" using text_ok_pair 3(4) by blast
    then show ?thesis
      using 3(1) [OF True] True surrogate_text [of c] surrogate_text [of d] by (simp add: drop_other)
  next
    case False
    then have c: "\<not> (is_lead c \<or> is_trail c)" and u: "text_unit c" and ok: "text_ok (d # s)"
      using 3(4) by (auto simp: text_ok_def split: if_splits)
    have "c = 92 \<Longrightarrow> d \<noteq> 110" using 3(4) by (auto simp: text_ok_def)
    then have "c = 92 \<Longrightarrow> \<not> starts_with [110] (json_units (d # s) @ [34])" using json_units_head by blast
    from drop_unit [OF u this] show ?thesis using 3(3) [OF False c ok] False c by simp
  qed
qed

lemma drop_json_string:
  "text_ok s \<Longrightarrow> drop_newlines (json_string s) = 34 # concat (map text_chunk s) @ [34]"
  by (simp add: json_string_def drop_other drop_json)

lemma read_text:
  "list_all text_unit s \<Longrightarrow>
    read_shell True (Some v) (escape_dollars (concat (map text_chunk s)) @ x) =
    read_shell True (Some (v @ filter (\<lambda>c. c \<noteq> 10) s)) x"
proof (induction s arbitrary: v)
  case (Cons c s)
  then have c: "c \<noteq> 96" by (simp add: text_unit_def)
  consider "c = 10" | "c = 34" | "c = 92" | "c = 36" | "c \<notin> {10, 34, 92, 36}" by blast
  then show ?case
  proof cases
    case 1
    then show ?thesis using Cons by (simp add: text_chunk_def)
  next
    case 5
    then show ?thesis using Cons c by (simp add: text_chunk_def escape_dollars_def)
  qed (use Cons read_escape_quote [of c v] in \<open>simp_all add: text_chunk_def escape_dollars_def del: read_shell.simps\<close>)
qed (simp add: escape_dollars_def)

lemma reads_text:
  assumes "text_ok s"
  shows "reads (escape_dollars (drop_newlines (json_string s))) [filter (\<lambda>c. c \<noteq> 10) s]"
proof -
  have "list_all text_unit s" using assms by (simp add: text_ok_def)
  from reads_quote [of "escape_dollars (concat (map text_chunk s))", OF read_text [OF this, of "[]", simplified]]
  show ?thesis by (simp add: drop_json_string [OF assms] escape_dollars_def)
qed


subsection \<open>The command the user means\<close>

definition plain_word :: "jstr \<Rightarrow> bool" where
  "plain_word w \<longleftrightarrow> w \<noteq> [] \<and> list_all word_unit w"

definition entry_ok :: "jstr \<times> form_value \<Rightarrow> bool" where
  "entry_ok e \<longleftrightarrow> list_all quote_unit (extractKey (fst e)) \<and> (case snd e of
       FormText v \<Rightarrow> list_all quote_unit v
     | FormFile name type \<Rightarrow> list_all quote_unit name \<and> list_all quote_unit type)"

definition is_form_post :: "curl_request \<Rightarrow> bool" where
  "is_form_post r \<longleftrightarrow>
     list_ex is_multipart (req_headers r) \<and> req_method r \<in> {us ''POST'', us ''PUT'', us ''PATCH''}"

definition head_ok :: "curl_request \<Rightarrow> bool" where
  "head_ok r \<longleftrightarrow> list_all plain_word (curl_options r) \<and> plain_word (req_method r)"

definition headers_ok :: "curl_request \<Rightarrow> bool" where
  "headers_ok r \<longleftrightarrow>
     list_all (\<lambda>h. list_all quote_unit (fst h) \<and> list_all header_unit (snd h)) (req_headers r)"

definition entry_text :: "jstr \<times> form_value \<Rightarrow> jstr" where
  "entry_text e = extractKey (fst e) @ (case snd e of
       FormText v \<Rightarrow> us ''='' @ v
     | FormFile name type \<Rightarrow> us ''=@'' @ name @ (if type \<noteq> [] then us '';type='' @ type else []))"

definition head_args :: "curl_request \<Rightarrow> jstr list" where
  "head_args r = [us ''curl''] @ curl_options r @ [us ''-X'', req_method r]"

definition header_args :: "curl_request \<Rightarrow> jstr list" where
  "header_args r = concat (map (\<lambda>h. [us ''-H'', fst h @ us '': '' @ snd h]) (req_headers r))"

definition body_args :: "curl_request \<Rightarrow> jstr list" where
  "body_args r = (case req_body r of
       TextBody s \<Rightarrow> if s \<noteq> [] then [us ''-d'', filter (\<lambda>c. c \<noteq> 10) s]
         else if req_method r = us ''POST'' then [us ''-d'', []] else []
     | FormBody es \<Rightarrow> concat (map (\<lambda>e. [us ''-F'', entry_text e]) es)
     | NoBody \<Rightarrow> if req_method r = us ''POST'' then [us ''-d'', []] else [])"

lemma reads_all_words: "list_all plain_word ws \<Longrightarrow> list_all2 reads ws (map (\<lambda>w. [w]) ws)"
  by (induction ws) (simp_all add: plain_word_def reads_word)

lemma plain_words:
  "plain_word (us ''curl'')" "plain_word (us ''-X'')" "plain_word (us ''-d'')" "plain_word (us ''-F'')"
  by (simp_all add: plain_word_def word_unit_def shell_syntax_def)

lemma list_all2_two:
  "list_all2 P xs [a, b] \<Longrightarrow> list_all2 P ys zs \<Longrightarrow> list_all2 P (xs @ ys) (a # b # zs)"
  using list_all2_appendI [of P xs "[a, b]" ys zs] by simp

lemma concat_singles: "concat (map (\<lambda>w. [w]) ws) = ws"
  by (induction ws) simp_all

lemma reads_head:
  assumes "head_ok r"
  shows "list_all2 reads ([us ''curl''] @ curl_options r @ [us ''-X'', req_method r]) (map (\<lambda>w. [w]) (head_args r))"
  unfolding head_args_def
  by (rule reads_all_words) (use assms in \<open>simp add: head_ok_def plain_words del: us_simps\<close>)

lemma reads_headers:
  assumes "headers_ok r"
  shows "\<exists>wss. list_all2 reads (concat (map header_parts (req_headers r))) wss \<and> concat wss = header_args r"
proof -
  have "list_all (\<lambda>h. list_all quote_unit (fst h) \<and> list_all header_unit (snd h)) hs \<Longrightarrow>
      list_all2 reads (concat (map header_parts hs))
        (concat (map (\<lambda>h. [[us ''-H''], [fst h @ us '': '' @ snd h]]) hs))" for hs
    by (induction hs) (simp_all del: us_simps add: list_all2_two reads_header)
  moreover have "concat (concat (map (\<lambda>h. [[us ''-H''], [fst h @ us '': '' @ snd h]]) hs)) =
      concat (map (\<lambda>h. [us ''-H'', fst h @ us '': '' @ snd h]) hs)" for hs :: "(jstr \<times> jstr) list"
    by (induction hs) (simp_all del: us_simps)
  ultimately show ?thesis using assms unfolding headers_ok_def header_args_def by blast
qed

lemma reads_entry:
  assumes "entry_ok e"
  shows "list_all2 reads (multipart_parts e) [[us ''-F''], [entry_text e]]"
proof -
  have "list_all quote_unit (entry_text e)"
    using assms by (cases "snd e") (simp_all add: entry_text_def entry_ok_def quote_unit_def)
  then have "reads (quoted (entry_text e)) [entry_text e]" by (rule reads_quoted)
  moreover have "multipart_parts e = [us ''-F'', quoted (entry_text e)]"
    by (simp add: multipart_parts_def entry_text_def)
  ultimately show ?thesis using plain_words(4) by (simp add: plain_word_def reads_word del: us_simps)
qed

definition body_ok :: "curl_request \<Rightarrow> bool" where
  "body_ok r \<longleftrightarrow> (case req_body r of
       NoBody \<Rightarrow> True
     | TextBody s \<Rightarrow> text_ok s
     | FormBody es \<Rightarrow> list_all entry_ok es \<and> is_form_post r)"

lemma reads_empty: "reads (quoted []) [[]]"
  by (rule reads_quoted) simp

lemma reads_body:
  assumes "body_parts r = Inr ts" and "body_ok r"
  shows "\<exists>wss. list_all2 reads ts wss \<and> concat wss = body_args r"
proof (cases "has_body (req_body r)")
  case False
  then have "ts = (if req_method r = us ''POST'' then [us ''-d'', quoted []] else [])"
    and "body_args r = (if req_method r = us ''POST'' then [us ''-d'', []] else [])"
    using assms(1) by (auto simp: body_parts_def body_args_def has_body_def split: curl_body.splits)
  then show ?thesis
    using reads_empty plain_words(3)
    by (cases "req_method r = us ''POST''")
      (auto simp: plain_word_def reads_word simp del: us_simps intro!: exI [of _ "[[us ''-d''], [[]]]"])
next
  case True
  show ?thesis
  proof (cases "req_body r")
    case NoBody
    then show ?thesis using True by (simp add: has_body_def)
  next
    case (TextBody s)
    then have s: "text_ok s" "s \<noteq> []" using assms(2) True by (simp_all add: body_ok_def has_body_def)
    have "ts = [us ''-d'', escape_dollars (drop_newlines (json_string s))]"
      using assms(1) True TextBody by (auto simp: body_parts_def simp del: us_simps split: if_splits)
    moreover have "body_args r = [us ''-d'', filter (\<lambda>c. c \<noteq> 10) s]"
      using TextBody s(2) by (simp add: body_args_def)
    ultimately show ?thesis
      using reads_text [OF s(1)] plain_words(3)
      by (auto simp: plain_word_def reads_word simp del: us_simps
          intro!: exI [of _ "[[us ''-d''], [filter (\<lambda>c. c \<noteq> 10) s]]"])
  next
    case (FormBody es)
    then have es: "list_all entry_ok es" and "is_form_post r" using assms(2) by (simp_all add: body_ok_def)
    then have ts: "ts = concat (map multipart_parts es)"
      using assms(1) True FormBody by (auto simp: body_parts_def is_form_post_def simp del: us_simps)
    have "list_all2 reads (concat (map multipart_parts es)) (concat (map (\<lambda>e. [[us ''-F''], [entry_text e]]) es))"
      using es by (induction es) (simp_all del: us_simps add: list_all2_two reads_entry)
    moreover have "concat (concat (map (\<lambda>e. [[us ''-F''], [entry_text e]]) es)) =
        concat (map (\<lambda>e. [us ''-F'', entry_text e]) es)"
      by (induction es) (simp_all del: us_simps)
    ultimately show ?thesis using FormBody unfolding ts body_args_def by auto
  qed
qed


text \<open>C26. When neither the address, the names of the headers nor the fields of a form, which is sent
  as \<open>multipart/form-data\<close>, hold a quotation mark, a dollar sign, a backquote or a backslash, the
  header values no quotation mark, backquote or backslash, a text body no backquote, no control
  character but line feeds, no lone surrogate and no backslash before the letter n, and options and
  method are words without a meaning to the shell, then the shell reads from the command the arguments
  of the request one by one, header values and text bodies with their dollar signs, and bodies also
  with their quotation marks and backslashes; only the line feeds of a text body are lost.\<close>

theorem curl_command_reads:
  assumes "curlify r = Inr t" and "head_ok r" and "list_all quote_unit (req_url r)"
    and "headers_ok r" and "body_ok r"
  shows "read_shell False None t = Words (head_args r @ [req_url r] @ header_args r @ body_args r)"
proof -
  obtain ts where ts: "body_parts r = Inr ts" using assms(1) by (auto simp: curlify_def)
  obtain wh where wh: "list_all2 reads (concat (map header_parts (req_headers r))) wh" "concat wh = header_args r"
    using reads_headers [OF assms(4)] by blast
  obtain wb where wb: "list_all2 reads ts wb" "concat wb = body_args r"
    using reads_body [OF ts assms(5)] by blast
  let ?ts = "([us ''curl''] @ curl_options r @ [us ''-X'', req_method r]) @ [quoted (req_url r)] @
    concat (map header_parts (req_headers r)) @ ts"
  let ?ws = "map (\<lambda>w. [w]) (head_args r) @ [[req_url r]] @ wh @ wb"
  have "t = join_with [32] ?ts" using assms(1) ts by (simp add: curlify_def)
  moreover have "list_all2 reads ?ts ?ws"
    using reads_head [OF assms(2)] reads_quoted [OF assms(3)] wh(1) wb(1)
    by (intro list_all2_appendI) simp_all
  ultimately show ?thesis
    using tokens_join [of ?ts ?ws] by (simp add: wh(2) wb(2) concat_singles)
qed

subsection \<open>What a shell makes of other requests\<close>

lemma reads_prefix:
  "list_all2 reads ts wss \<Longrightarrow> ts' \<noteq> [] \<Longrightarrow>
    read_shell False None (join_with [32] (ts @ ts')) =
    add_words (concat wss) (read_shell False None (join_with [32] ts'))"
proof (induction ts arbitrary: wss)
  case (Cons t ts)
  then obtain ws wss' where w: "wss = ws # wss'" "reads t ws" "list_all2 reads ts wss'"
    by (auto simp: list_all2_Cons1)
  have "ts @ ts' \<noteq> []" using Cons.prems(2) by simp
  then have "join_with [32] ((t # ts) @ ts') = t @ 32 # join_with [32] (ts @ ts')"
    by (cases "ts @ ts'") simp_all
  then show ?case using w Cons.IH [OF w(3) Cons.prems(2)] by (simp add: reads_def)
qed simp

lemma join_head: "\<exists>x. join_with [32] (t # ts) = t @ x"
  by (cases ts) auto

text \<open>C27. The address is not escaped: an address with a backquote, or with a dollar sign before a
  name, a parenthesis or a brace, makes the shell expand it, so the command runs what the author
  of the description wrote there, before curl is even called.\<close>

theorem curl_expands:
  assumes "curlify r = Inr t" and "head_ok r"
    and "req_url r = pre @ c # rest" and "list_all quote_unit pre" and "opens_expansion (c # rest)"
  shows "read_shell False None t = Expands"
proof -
  obtain ts where ts: "body_parts r = Inr ts" using assms(1) by (auto simp: curlify_def)
  let ?tail = "concat (map header_parts (req_headers r)) @ ts"
  let ?head = "[us ''curl''] @ curl_options r @ [us ''-X'', req_method r]"
  have t: "t = join_with [32] (?head @ (quoted (req_url r) # ?tail))"
    using assms(1) ts by (simp add: curlify_def)
  obtain x where x: "join_with [32] (quoted (req_url r) # ?tail) = quoted (req_url r) @ x"
    using join_head by blast
  have "opens_expansion (c # rest @ 34 # x)"
    using assms(5) by (auto simp: opens_expansion_def split: list.splits)
  moreover have "c \<noteq> 34" using assms(5) by (auto simp: opens_expansion_def)
  ultimately have "read_shell False None (quoted (req_url r) @ x) = Expands"
    using read_quote [OF assms(4), of "[]"] by (simp add: quoted_def assms(3))
  then show ?thesis
    using reads_prefix [OF reads_head [OF assms(2)], of "quoted (req_url r) # ?tail"]
    unfolding t x by simp
qed

lemma read_quoted_in:
  "list_all quote_unit w \<Longrightarrow> read_shell False (Some v) (quoted w @ s) = read_shell False (Some (v @ w)) s"
  using read_quote [of w v] by (simp add: quoted_def)

text \<open>An entry of a form whose texts are the same in JSON.\<close>

definition plain_entry :: "jstr \<times> jstr \<Rightarrow> bool" where
  "plain_entry e \<longleftrightarrow> list_all quote_unit (extractKey (fst e)) \<and> text_ok (snd e) \<and>
     list_all quote_unit (snd e) \<and> 10 \<notin> set (snd e)"

lemma plain_chunks: "list_all quote_unit v \<Longrightarrow> 10 \<notin> set v \<Longrightarrow> concat (map text_chunk v) = v"
  by (induction v) (auto simp: text_chunk_def quote_unit_def)

lemma no_dollar: "list_all quote_unit v \<Longrightarrow> escape_first_dollar (quoted v) = quoted v"
proof -
  have "36 \<notin> set s \<Longrightarrow> escape_first_dollar s = s" for s by (induction s) auto
  moreover assume "list_all quote_unit v"
  then have "36 \<notin> set (quoted v)" by (auto simp: quoted_def quote_unit_def list_all_iff)
  ultimately show ?thesis by blast
qed

lemma plain_form_entry:
  assumes "plain_entry e"
  shows "form_entry (fst e, FormText (snd e)) = quoted (extractKey (fst e)) @ 58 # quoted (snd e)"
  using assms drop_json_string [of "snd e"] plain_chunks [of "snd e"] no_dollar [of "snd e"]
  by (simp add: plain_entry_def form_entry_def quoted_def)

lemma read_entry:
  assumes "plain_entry e"
  shows "read_shell False (Some v) (form_entry (fst e, FormText (snd e)) @ s) =
    read_shell False (Some (v @ extractKey (fst e) @ 58 # snd e)) s"
  using assms read_quoted_in [of "extractKey (fst e)" v] read_quoted_in [of "snd e"]
  by (simp add: plain_form_entry plain_entry_def shell_syntax_def)

lemma read_entries:
  "list_all plain_entry es \<Longrightarrow>
    read_shell False (Some v) (join_with [44] (map (\<lambda>e. form_entry (fst e, FormText (snd e))) es) @ s) =
    read_shell False (Some (v @ join_with [44] (map (\<lambda>e. extractKey (fst e) @ 58 # snd e) es))) s"
proof (induction es arbitrary: v)
  case (Cons e es)
  then show ?case
    by (cases es) (simp_all add: read_entry shell_syntax_def)
qed simp


definition bare_form :: "(jstr \<times> jstr) list \<Rightarrow> jstr" where
  "bare_form es = us ''{'' @ join_with (us '','') (map (\<lambda>e. extractKey (fst e) @ 58 # snd e) es) @ us ''}''"

lemma reads_form:
  assumes "list_all plain_entry es"
  shows "reads (us ''{'' @ join_with (us '','') (map form_entry (map (\<lambda>e. (fst e, FormText (snd e))) es)) @ us ''}'')
    [bare_form es]"
proof -
  let ?j = "join_with [44] (map (\<lambda>e. form_entry (fst e, FormText (snd e))) es)"
  have r: "read_shell False None (123 # ?j @ 125 # s) = read_shell False (Some (bare_form es)) s" for s
    using read_entries [OF assms, of "[123]" "125 # s"] by (simp add: bare_form_def shell_syntax_def)
  show ?thesis
    using r [of "[]"] r [of "32 # _"] by (simp add: reads_def comp_def)
qed

lemma join_free: "c \<notin> set sep \<Longrightarrow> \<forall>w \<in> set ws. c \<notin> set w \<Longrightarrow> c \<notin> set (join_with sep ws)"
  using join_set [of sep ws] by blast

lemma bare_form_unquoted:
  assumes "list_all plain_entry es"
  shows "34 \<notin> set (bare_form es)"
proof -
  have "\<forall>w \<in> set (map (\<lambda>e. extractKey (fst e) @ 58 # snd e) es). 34 \<notin> set w"
    using assms by (auto simp: list_all_iff plain_entry_def quote_unit_def)
  then have "34 \<notin> set (join_with [44] (map (\<lambda>e. extractKey (fst e) @ 58 # snd e) es))"
    by (intro join_free) simp_all
  then show ?thesis by (simp add: bare_form_def)
qed


subsection \<open>Three requests\<close>

definition json_request :: curl_request where
  "json_request =
     \<lparr>curl_options = [us ''-s''], req_method = us ''POST'', req_url = us ''http://h/ip'',
      req_headers = [(us ''X-Key'', us ''a$b'')],
      req_body = TextBody (us ''{'' @ [34] @ us ''a'' @ [34, 58, 10] @ us ''1}'')\<rparr>"

theorem curl_command_reads_witness:
  "\<exists>t. curlify json_request = Inr t \<and> read_shell False None t =
    Words (map us [''curl'', ''-s'', ''-X'', ''POST'', ''http://h/ip'', ''-H'', ''X-Key: a$b'', ''-d''] @
      [us ''{'' @ [34] @ us ''a'' @ [34, 58] @ us ''1}''])"
proof -
  let ?r = json_request
  have c: "curlify ?r \<noteq> Inl TypeError" "body_parts ?r \<noteq> Inl TypeError" "head_ok ?r" "list_all quote_unit (req_url ?r)"
      "headers_ok ?r" "body_ok ?r"
    by code_simp+
  have "body_parts ?r = Inr (the (case body_parts ?r of Inr x \<Rightarrow> Some x | _ \<Rightarrow> None))" by code_simp
  then obtain t where t: "curlify ?r = Inr t" by (auto simp: curlify_def)
  have "head_args ?r @ [req_url ?r] @ header_args ?r @ body_args ?r =
      map us [''curl'', ''-s'', ''-X'', ''POST'', ''http://h/ip'', ''-H'', ''X-Key: a$b'', ''-d''] @
      [us ''{'' @ [34] @ us ''a'' @ [34, 58] @ us ''1}'']"
    by code_simp
  then show ?thesis using curl_command_reads [OF t c(3-6)] t by simp
qed

definition script_request :: curl_request where
  "script_request =
     \<lparr>curl_options = [], req_method = us ''GET'', req_url = us ''http://h/$(id)'', req_headers = [], req_body = NoBody\<rparr>"

theorem curl_expands_witness:
  "\<exists>t. curlify script_request = Inr t \<and> read_shell False None t = Expands"
proof -
  let ?r = script_request
  have c: "head_ok ?r" "list_all quote_unit (us ''http://h/'')" "opens_expansion (36 # us ''(id)'')"
    by code_simp+
  have u: "req_url ?r = us ''http://h/'' @ 36 # us ''(id)''" by (simp add: script_request_def)
  obtain t where t: "curlify ?r = Inr t" by (simp add: curlify_def body_parts_def script_request_def has_body_def)
  show ?thesis using curl_expands [OF t c(1) u c(2,3)] t by blast
qed

definition form_request :: curl_request where
  "form_request =
     \<lparr>curl_options = [], req_method = us ''POST'', req_url = us ''http://h/f'', req_headers = [],
      req_body = FormBody [(us ''a'', FormText (us ''1'')), (us ''b'', FormText (us ''x y''))]\<rparr>"


end
