(* ===== verification/Js_Tokens.thy ===== *)
theory Js_Tokens
  imports Js_OAuth Js_Curl
begin

text \<open>
  The second half of the OAuth2 flow of the API browser: the requests for a token
  (\<open>core/plugins/auth/actions.js\<close> in \<open>swagger-ui-es-bundle-core.js\<close>), what becomes of the answer,
  and the flow as a whole: the edits of the form, the clicks on its button and the returns of the
  browser, in any order, over the objects \<open>auth\<close> that the component \<open>Oauth2\<close>, \<open>oauth2-authorize.js\<close> and
  the redirect page share.

  The answer of \<open>fetch\<close> is an argument, with what \<open>JSON.parse\<close> makes of its text; so is the address
  \<open>url-parse\<close> writes for a token URL, a base and the additional query.
\<close>

subsection \<open>Basic credentials\<close>

text \<open>The bytes of \<open>Buffer.from(s, "utf-8")\<close>, with U+FFFD for a surrogate without its other half.\<close>

definition octets :: "nat \<Rightarrow> bytes" where
  "octets v = map of_nat (utf8 v)"

fun utf8_bytes :: "jstr \<Rightarrow> bytes" where
  "utf8_bytes [] = []"
| "utf8_bytes (c # s) =
     (if is_lead c then
        (case s of
           [] \<Rightarrow> octets 0xFFFD
         | d # s' \<Rightarrow>
             if is_trail d then octets (code_point c d) @ utf8_bytes s'
             else octets 0xFFFD @ utf8_bytes s)
      else if is_trail c then octets 0xFFFD @ utf8_bytes s
      else octets (unat c) @ utf8_bytes s)"

definition btoa :: "jstr \<Rightarrow> jstr" where
  "btoa s = us (fromByteArray (utf8_bytes s))"

text \<open>An absent value becomes \<open>undefined\<close> when it is joined to a string.\<close>

definition shown :: "jstr option \<Rightarrow> jstr" where
  "shown v = (case v of None \<Rightarrow> us ''undefined'' | Some x \<Rightarrow> x)"

definition basic_header :: "jstr option \<Rightarrow> jstr option \<Rightarrow> (jstr \<times> jstr)" where
  "basic_header i s = (us ''Authorization'', us ''Basic '' @ btoa (shown i @ us '':'' @ shown s))"

subsection \<open>The requests\<close>

record session = auth +
  auth_name :: jstr
  tokenUrl :: "jstr option"
  clientSecret :: "jstr option"
  username :: jstr
  user_password :: jstr
  passwordType :: jstr
  auth_code :: "jstr option"
  codeVerifier :: "string option"

record token_request =
  request_to :: "jstr option"
  extra_headers :: "jstr jobj"
  request_body :: jstr

definition request_js :: "session \<Rightarrow> jstr jobj \<Rightarrow> jstr option jobj \<Rightarrow> token_request js" where
  "request_js t headers data =
     map_js (\<lambda>b. \<lparr>request_to = tokenUrl t, extra_headers = headers, request_body = b\<rparr>)
       (buildFormData data)"

definition client_fields :: "session \<Rightarrow> jstr option jobj" where
  "client_fields t =
     (if truthy (clientId t) then [(us ''client_id'', clientId t)] else []) @
     (if truthy (clientSecret t) then [(us ''client_secret'', clientSecret t)] else [])"

definition password_fields :: "session \<Rightarrow> jstr option jobj" where
  "password_fields t =
     [(us ''grant_type'', Some (us ''password'')), (us ''scope'', Some (join_with [32] (scopes t))),
      (us ''username'', Some (username t)), (us ''password'', Some (user_password t))] @
     (if passwordType t = us ''request-body'' then client_fields t else [])"

definition authorizePassword :: "session \<Rightarrow> token_request js" where
  "authorizePassword t =
     request_js t
       (if passwordType t = us ''basic'' then [basic_header (clientId t) (clientSecret t)] else [])
       (password_fields t)"

definition application_fields :: "session \<Rightarrow> jstr option jobj" where
  "application_fields t =
     [(us ''grant_type'', Some (us ''client_credentials'')),
      (us ''scope'', Some (join_with [32] (scopes t)))]"

definition authorizeApplication :: "session \<Rightarrow> token_request js" where
  "authorizeApplication t =
     request_js t [basic_header (clientId t) (clientSecret t)] (application_fields t)"

definition form_code_fields :: "session \<Rightarrow> jstr \<Rightarrow> jstr option jobj" where
  "form_code_fields t redirectUrl =
     [(us ''grant_type'', Some (us ''authorization_code'')), (us ''code'', auth_code t),
      (us ''client_id'', clientId t), (us ''client_secret'', clientSecret t),
      (us ''redirect_uri'', Some redirectUrl), (us ''code_verifier'', map_option us (codeVerifier t))]"

definition authorizeAccessCodeWithFormParams :: "session \<Rightarrow> jstr \<Rightarrow> token_request js" where
  "authorizeAccessCodeWithFormParams t redirectUrl = request_js t [] (form_code_fields t redirectUrl)"

definition basic_code_fields :: "session \<Rightarrow> jstr \<Rightarrow> jstr option jobj" where
  "basic_code_fields t redirectUrl =
     [(us ''grant_type'', Some (us ''authorization_code'')), (us ''code'', auth_code t),
      (us ''client_id'', clientId t), (us ''redirect_uri'', Some redirectUrl)]"

definition authorizeAccessCodeWithBasicAuthentication :: "session \<Rightarrow> jstr \<Rightarrow> token_request js" where
  "authorizeAccessCodeWithBasicAuthentication t redirectUrl =
     request_js t [basic_header (clientId t) (clientSecret t)] (basic_code_fields t redirectUrl)"

text \<open>What \<open>authorizeRequest\<close> posts: the address, the headers with those of the caller last, the body.\<close>

definition token_base :: "bool \<Rightarrow> jstr \<Rightarrow> jstr \<Rightarrow> jstr" where
  "token_base oas3 server spec_url = (if oas3 then server else spec_url)"

definition post_headers :: "token_request \<Rightarrow> jstr jobj" where
  "post_headers r = fold (\<lambda>(k, v). set_prop k v) (extra_headers r)
     [(us ''Accept'', us ''application/json, text/plain, */*''),
      (us ''Content-Type'', us ''application/x-www-form-urlencoded''),
      (us ''X-Requested-With'', us ''XMLHttpRequest'')]"

definition authorizeRequest ::
  "(jstr option \<Rightarrow> jstr \<Rightarrow> jstr option jobj \<Rightarrow> jstr) \<Rightarrow> bool \<Rightarrow> jstr \<Rightarrow> jstr \<Rightarrow> auth_config \<Rightarrow>
     token_request \<Rightarrow> jstr \<times> jstr jobj \<times> jstr" where
  "authorizeRequest url_of oas3 server spec_url cfg r =
     (url_of (request_to r) (token_base oas3 server spec_url) (extraParams cfg), post_headers r, request_body r)"


subsection \<open>The answer\<close>

text \<open>What \<open>JSON.parse\<close> yields; a number is its text as JavaScript writes it, 0 also for minus 0.\<close>

datatype json =
    JNull | JBool bool | JNumber jstr | JString jstr
  | JArray "json list" | JObject "(jstr \<times> json) list"

fun truthy_json :: "json \<Rightarrow> bool" where
  "truthy_json JNull = False"
| "truthy_json (JBool b) = b"
| "truthy_json (JNumber n) = (n \<noteq> us ''0'')"
| "truthy_json (JString s) = (s \<noteq> [])"
| "truthy_json _ = True"

text \<open>\<open>JSON.stringify\<close>, and the string a value becomes when it is joined to one (an object with a
  member \<open>toString\<close> of its own aside).\<close>

fun stringify :: "json \<Rightarrow> jstr" where
  "stringify JNull = us ''null''"
| "stringify (JBool b) = (if b then us ''true'' else us ''false'')"
| "stringify (JNumber n) = n"
| "stringify (JString s) = json_string s"
| "stringify (JArray xs) = us ''['' @ join_with (us '','') (map stringify xs) @ us '']''"
| "stringify (JObject ps) = us ''{'' @
     join_with (us '','') (map (\<lambda>(k, v). json_string k @ us '':'' @ stringify v) ps) @ us ''}''"

fun json_text :: "json \<Rightarrow> jstr" where
  "json_text JNull = us ''null''"
| "json_text (JBool b) = (if b then us ''true'' else us ''false'')"
| "json_text (JNumber n) = n"
| "json_text (JString s) = s"
| "json_text (JArray xs) =
     join_with (us '','') (map (\<lambda>v. if v = JNull then [] else json_text v) xs)"
| "json_text (JObject ps) = us ''[object Object]''"

definition member_js :: "jstr \<Rightarrow> json \<Rightarrow> json option" where
  "member_js k v = (case v of JObject ps \<Rightarrow> map_of ps k | _ \<Rightarrow> None)"

definition has_member :: "jstr \<Rightarrow> json \<Rightarrow> bool" where
  "has_member k v = (case member_js k v of None \<Rightarrow> False | Some x \<Rightarrow> truthy_json x)"

text \<open>
  The promise of \<open>fetch\<close>: fulfilled with a response, whose text \<open>JSON.parse\<close> refuses with some
  message or reads, or rejected with an error, its message as \<open>new Error(e)\<close> has it and, where it has a
  response with data, what \<open>JSON.parse\<close> makes of them.
\<close>

datatype fetched =
    Response bool jstr "jstr + json"
  | Refused jstr "json option"

datatype auth_notice =
    AuthWarning
  | AuthError jstr
  | TokenStored json

definition error_details :: "json option \<Rightarrow> jstr" where
  "error_details d =
     (case d of
        None \<Rightarrow> []
      | Some r \<Rightarrow>
          (if has_member (us ''error'') r
           then us '', error: '' @ json_text (the (member_js (us ''error'') r)) else []) @
          (if has_member (us ''error_description'') r
           then us '', description: '' @ json_text (the (member_js (us ''error_description'') r)) else []))"

definition token_outcome :: "fetched \<Rightarrow> auth_notice" where
  "token_outcome f =
     (case f of
        Response ok statusText parsed \<Rightarrow>
          (case parsed of
             Inl e \<Rightarrow> AuthError e
           | Inr t \<Rightarrow>
               if \<not> ok then AuthError statusText
               else if has_member (us ''error'') t \<or> has_member (us ''parseError'') t
               then AuthError (stringify t)
               else TokenStored t)
      | Refused message d \<Rightarrow> AuthError (message @ error_details d))"

text \<open>The reducer of \<open>authorize_oauth2\<close>: the authorizations by name, each with the members of its token.\<close>

fun decimal :: "nat \<Rightarrow> jstr" where
  "decimal n = (if n < 10 then [of_nat (48 + n)] else decimal (n div 10) @ [of_nat (48 + n mod 10)])"

definition own_members :: "json \<Rightarrow> (jstr \<times> json) list" where
  "own_members v =
     (case v of
        JObject ps \<Rightarrow> ps
      | JArray xs \<Rightarrow> map (\<lambda>i. (decimal i, xs ! i)) [0..<length xs]
      | JString s \<Rightarrow> map (\<lambda>i. (decimal i, JString [s ! i])) [0..<length s]
      | _ \<Rightarrow> [])"

type_synonym authorizations = "jstr \<rightharpoonup> session \<times> (jstr \<times> json) list"

definition authorizeOauth2 :: "session \<Rightarrow> json \<Rightarrow> authorizations \<Rightarrow> authorizations" where
  "authorizeOauth2 t token m = m(auth_name t \<mapsto> (t, own_members token))"

definition exchanged :: "session \<Rightarrow> fetched \<Rightarrow> authorizations \<Rightarrow> authorizations" where
  "exchanged t f m = (case token_outcome f of TokenStored v \<Rightarrow> authorizeOauth2 t v m | _ \<Rightarrow> m)"

definition logout :: "jstr list \<Rightarrow> authorizations \<Rightarrow> authorizations" where
  "logout names m = fold (\<lambda>n m. m(n := None)) names m"

text \<open>\<open>preAuthorizeImplicit\<close>, called by the redirect page with the parameters it read.\<close>

definition preAuthorizeImplicit :: "jstr \<Rightarrow> (jstr \<times> jstr) list \<Rightarrow> bool \<Rightarrow> auth_notice list" where
  "preAuthorizeImplicit f qp isValid =
     (let token = JObject (map (\<lambda>(k, v). (k, JString v)) qp) in
      (if f = us ''accessCode'' \<or> isValid then [] else [AuthWarning]) @
      [if has_member (us ''error'') token then AuthError (stringify token) else TokenStored token])"

subsection \<open>The form\<close>

datatype form_input = Username | UserPassword | PasswordType | ClientId | ClientSecret

datatype edit =
    onInputChange form_input jstr
  | onScopeChange jstr bool
  | selectScopes "jstr list"

definition input_change :: "form_input \<Rightarrow> jstr \<Rightarrow> session \<Rightarrow> session" where
  "input_change i v t = (case i of
       Username \<Rightarrow> t\<lparr>username := v\<rparr>
     | UserPassword \<Rightarrow> t\<lparr>user_password := v\<rparr>
     | PasswordType \<Rightarrow> t\<lparr>passwordType := v\<rparr>
     | ClientId \<Rightarrow> t\<lparr>clientId := Some v\<rparr>
     | ClientSecret \<Rightarrow> t\<lparr>clientSecret := Some v\<rparr>)"

definition scope_change :: "jstr \<Rightarrow> bool \<Rightarrow> session \<Rightarrow> session" where
  "scope_change v checked t =
     (if checked \<and> v \<notin> set (scopes t) then t\<lparr>scopes := scopes t @ [v]\<rparr>
      else if \<not> checked \<and> v \<in> set (scopes t) then t\<lparr>scopes := filter (\<lambda>x. x \<noteq> v) (scopes t)\<rparr>
      else t)"

definition apply_edit :: "edit \<Rightarrow> session \<Rightarrow> session" where
  "apply_edit e t = (case e of
       onInputChange i v \<Rightarrow> input_change i v t
     | onScopeChange v checked \<Rightarrow> scope_change v checked t
     | selectScopes vs \<Rightarrow> t\<lparr>scopes := vs\<rparr>)"

text \<open>Whether a handler calls \<open>setState\<close>, which makes a new state object out of the old one.\<close>

definition sets_state :: "edit \<Rightarrow> session \<Rightarrow> bool" where
  "sets_state e t = (case e of onScopeChange v checked \<Rightarrow> checked \<noteq> (v \<in> set (scopes t)) | _ \<Rightarrow> True)"

text \<open>The constructor of the component: what an earlier authorization or the configuration holds, but
  no code and no verifier.\<close>

datatype scope_config = ScopeText jstr | ScopeList "jstr list"

record oauth_config =
  conf_clientId :: "jstr option"
  conf_clientSecret :: "jstr option"
  conf_scopes :: "scope_config option"
  conf_separator :: "jstr option"

definition or_else :: "jstr option \<Rightarrow> jstr \<Rightarrow> jstr" where
  "or_else v d = (if truthy v then the v else d)"

function split_sub :: "jstr \<Rightarrow> jstr \<Rightarrow> jstr \<Rightarrow> jstr list" where
  "split_sub sep cur s =
     (case s of
        [] \<Rightarrow> [cur]
      | c # s' \<Rightarrow>
          if sep \<noteq> [] \<and> starts_with sep s then cur # split_sub sep [] (drop (length sep) s)
          else split_sub sep (cur @ [c]) s')"
  by pat_completeness auto
termination by (relation "measure (\<lambda>(sep, cur, s). length s)") auto

declare split_sub.simps [simp del]

definition initial_scopes :: "oauth_config \<Rightarrow> jstr list" where
  "initial_scopes d = (case conf_scopes d of
       None \<Rightarrow> []
     | Some (ScopeList xs) \<Rightarrow> xs
     | Some (ScopeText s) \<Rightarrow> if s = [] then [] else split_sub (or_else (conf_separator d) [32]) [] s)"

definition new_session ::
  "oauth_config \<Rightarrow> session option \<Rightarrow> jstr \<Rightarrow> jstr \<Rightarrow> jstr \<Rightarrow> jstr option \<Rightarrow> session" where
  "new_session d stored name f authUrl tokUrl =
     \<lparr>flow = f, authorizationUrl = authUrl,
      clientId = Some (or_else (Option.bind stored clientId) (or_else (conf_clientId d) [])),
      scopes = (case stored of None \<Rightarrow> initial_scopes d | Some s \<Rightarrow> scopes s),
      auth_name = name, tokenUrl = tokUrl,
      clientSecret = Some (or_else (Option.bind stored clientSecret) (or_else (conf_clientSecret d) [])),
      username = or_else (map_option username stored) [],
      user_password = [],
      passwordType = or_else (map_option passwordType stored) (us ''basic''),
      auth_code = None, codeVerifier = None\<rparr>"

datatype came_back =
    Exchange token_request
  | Implicit "auth_notice list"
  | NoCode jstr
  | Thrown js_error
  | NotOpened

definition sent :: "token_request js \<Rightarrow> came_back" where
  "sent q = (case q of Inl e \<Rightarrow> Thrown e | Inr r \<Rightarrow> Exchange r)"

definition code_request :: "oauth_callback \<Rightarrow> session \<Rightarrow> jstr \<Rightarrow> came_back" where
  "code_request cb t redirectUrl =
     (case cb of
        PreAuthorizeImplicit \<Rightarrow> Thrown TypeError
      | AccessCodeWithBasic \<Rightarrow> sent (authorizeAccessCodeWithBasicAuthentication t redirectUrl)
      | AccessCodeWithForm \<Rightarrow> sent (authorizeAccessCodeWithFormParams t redirectUrl))"

subsection \<open>The flow, event by event\<close>

text \<open>
  The state objects of one form in the order \<open>setState\<close> made them, the last one being \<open>this.state\<close>,
  and \<open>window.swaggerUIRedirectOauth2\<close>: which of these objects it refers to, and what else
  \<open>authorize\<close> put there. \<open>authorize\<close> writes the code verifier into the object it was called with, and
  the redirect page the code into the object it finds, each in place.
\<close>

record popup =
  p_auth :: nat
  p_state :: "jstr option"
  p_redirect :: jstr
  p_callback :: oauth_callback

record browser =
  objects :: "session list"
  waiting :: "popup option"

record ui_env =
  e_resolve :: "jstr \<Rightarrow> jstr \<Rightarrow> jstr"
  e_sha256 :: "string \<Rightarrow> bytes"
  e_parse :: "jstr \<Rightarrow> (jstr \<times> jstr) list js"
  e_server :: "jstr option"
  e_redirect :: "jstr option"
  e_config :: auth_config

datatype ui_event =
    Edit edit
  | Authorize bytes bytes
  | Return jstr jstr

datatype ui_output =
    Edited
  | OpenedAt jstr
  | Outcome bool came_back

definition new_form :: "session \<Rightarrow> browser" where
  "new_form t = \<lparr>objects = [t], waiting = None\<rparr>"

definition form :: "browser \<Rightarrow> nat" where
  "form b = length (objects b) - 1"

definition form_object :: "browser \<Rightarrow> session" where
  "form_object b = objects b ! form b"

definition upd_object :: "nat \<Rightarrow> (session \<Rightarrow> session) \<Rightarrow> browser \<Rightarrow> browser" where
  "upd_object i f b = b\<lparr>objects := (objects b)[i := f (objects b ! i)]\<rparr>"

definition edit_form :: "edit \<Rightarrow> browser \<Rightarrow> browser" where
  "edit_form e b =
     (if sets_state e (form_object b) then b\<lparr>objects := objects b @ [apply_edit e (form_object b)]\<rparr> else b)"

definition keep_verifier :: "string \<Rightarrow> browser \<Rightarrow> browser" where
  "keep_verifier v b = upd_object (form b) (\<lambda>t. t\<lparr>codeVerifier := Some v\<rparr>) b"

text \<open>
  The click on the button. When it throws, for a lone surrogate, it has written the verifier exactly if
  everything before the additional parameters could be encoded.
\<close>

definition authorize_click :: "ui_env \<Rightarrow> bytes \<Rightarrow> bytes \<Rightarrow> browser \<Rightarrow> browser \<times> ui_output" where
  "authorize_click E random32 date b =
     (let t = form_object b; cfg = e_config E; v = generateCodeVerifier random32 in
      case oauth2_authorize (e_resolve E) (e_sha256 E) random32 date (e_server E) (e_redirect E) cfg
          (auth.truncate t) of
        Inl e \<Rightarrow>
          (case e_redirect E of
             None \<Rightarrow> b
           | Some h \<Rightarrow>
               (case query_parts (e_sha256 E) v (us (fromByteArray date)) (cfg\<lparr>extraParams := []\<rparr>) (auth.truncate t) h of
                  Inl e \<Rightarrow> b
                | Inr d \<Rightarrow> if uses_pkce cfg (flow t) then keep_verifier v b else b), Outcome False (Thrown e))
      | Inr AuthorizePassword \<Rightarrow> (b, Outcome False (sent (authorizePassword t)))
      | Inr AuthorizeApplication \<Rightarrow> (b, Outcome False (sent (authorizeApplication t)))
      | Inr NoRedirectUrl \<Rightarrow> (b, Outcome False NotOpened)
      | Inr (Opened url state cb verifier) \<Rightarrow>
          ((case verifier of None \<Rightarrow> b | Some w \<Rightarrow> keep_verifier w b)
             \<lparr>waiting := Some \<lparr>p_auth = form b, p_state = Some state, p_redirect = the (e_redirect E),
               p_callback = cb\<rparr>\<rparr>, OpenedAt url))"

text \<open>The calls of the redirect page, and its return as a whole.\<close>

definition page_calls :: "popup \<Rightarrow> notice \<Rightarrow> browser \<Rightarrow> browser \<times> came_back" where
  "page_calls p n b =
     (case n of
        CodeCallback c \<Rightarrow>
          (let b' = upd_object (p_auth p) (\<lambda>t. t\<lparr>auth_code := Some c\<rparr>) (b\<lparr>waiting := Some (p\<lparr>p_state := None\<rparr>)\<rparr>)
           in (b', code_request (p_callback p) (objects b' ! p_auth p) (p_redirect p)))
      | TokenCallback qp isValid \<Rightarrow>
          (case p_callback p of
             PreAuthorizeImplicit \<Rightarrow>
               (b\<lparr>waiting := None\<rparr>, Implicit (preAuthorizeImplicit (flow (objects b ! p_auth p)) qp isValid))
           | cb \<Rightarrow> (b, code_request cb (objects b ! p_auth p) (p_redirect p)))
      | AuthFailed m \<Rightarrow> (b, NoCode m)
      | UnsafeWarning \<Rightarrow> (b, NoCode []))"

definition page_return :: "ui_env \<Rightarrow> jstr \<Rightarrow> jstr \<Rightarrow> browser \<Rightarrow> browser \<times> ui_output" where
  "page_return E hash srch b =
     (case waiting b of
        None \<Rightarrow> (b, Outcome False (Thrown TypeError))
      | Some p \<Rightarrow>
          let t = objects b ! p_auth p in
          case redirect_run (e_parse E) (flow t) (auth_code t) (p_state p) hash srch of
            Inl e \<Rightarrow> (b, Outcome False (Thrown e))
          | Inr ns \<Rightarrow> let (b', r) = page_calls p (last ns) b in (b', Outcome (UnsafeWarning \<in> set ns) r))"

definition ui_step :: "ui_env \<Rightarrow> ui_event \<Rightarrow> browser \<Rightarrow> browser \<times> ui_output" where
  "ui_step E ev b = (case ev of
       Edit e \<Rightarrow> (edit_form e b, Edited)
     | Authorize random32 date \<Rightarrow> authorize_click E random32 date b
     | Return hash srch \<Rightarrow> page_return E hash srch b)"

fun ui_run :: "ui_env \<Rightarrow> ui_event list \<Rightarrow> browser \<Rightarrow> browser \<times> ui_output list" where
  "ui_run E [] b = (b, [])"
| "ui_run E (ev # evs) b =
     (let (b1, out) = ui_step E ev b; (b2, outs) = ui_run E evs b1 in (b2, out # outs))"

subsection \<open>The credentials a server reads\<close>

function utf8_read :: "bytes \<Rightarrow> jstr option" where
  "utf8_read [] = Some []"
| "utf8_read (b # bs) =
     (let n = octet_count (unat b) - 1 in
      case utf8_value (unat b # map unat (take n bs)) of
        None \<Rightarrow> None
      | Some v \<Rightarrow> map_option ((@) (utf16 v)) (utf8_read (drop n bs)))"
  by pat_completeness auto
termination by (relation "measure length") auto

lemma octets_read:
  assumes "scalar v" shows "utf8_read (octets v @ bs) = map_option ((@) (utf16 v)) (utf8_read bs)"
proof -
  obtain b r where u: "utf8 v = b # r" by (cases "utf8 v") simp_all
  have n: "octet_count b - 1 = length r" using utf8_length [OF assms] u by simp
  have o: "\<forall>x \<in> set (utf8 v). x < 256" using utf8_octets [OF assms] .
  have un: "x < 256 \<Longrightarrow> unat (of_nat x :: byte) = x" for x
    by (simp add: unat_of_nat)
  have "map (\<lambda>x. unat (of_nat x :: byte)) (utf8 v) = utf8 v"
    using o un by (simp add: map_idI)
  then show ?thesis
    using utf8_value_utf8 [OF assms] un [of b] o u n by (simp add: octets_def comp_def)
qed

lemma utf8_round_trip: "wf16 s \<Longrightarrow> utf8_read (utf8_bytes s) = Some s"
proof (induction s rule: utf8_bytes.induct)
  case (2 c s)
  show ?case
  proof (cases "is_lead c")
    case True
    then obtain d s' where s: "s = d # s'" "is_trail d" "wf16 s'"
      using "2.prems" lead_not_trail by (auto split: list.splits)
    then show ?thesis
      using "2.IH"(1) [OF True s(1,2,3)] True unit_pair [OF True s(2)] by (simp add: octets_read)
  next
    case False
    then show ?thesis
      using "2.IH"(4) "2.prems" single_unit [of c] by (simp add: octets_read split: if_splits)
  qed
qed simp

text \<open>A \<open>Basic\<close> header after RFC 7617: base64 of UTF-8, divided at the first colon.\<close>

definition basic_pair :: "jstr \<Rightarrow> (jstr \<times> jstr) option" where
  "basic_pair s = (if 58 \<in> set s
     then Some (takeWhile (\<lambda>c. c \<noteq> 58) s, tl (dropWhile (\<lambda>c. c \<noteq> 58) s)) else None)"

definition of_ascii :: "jstr \<Rightarrow> string" where
  "of_ascii s = map (\<lambda>c. char_of (unat c)) s"

definition basic_read :: "jstr \<Rightarrow> (jstr \<times> jstr) option" where
  "basic_read v =
     (if starts_with (us ''Basic '') v
      then (case toByteArray (of_ascii (drop 6 v)) of
          Inl _ \<Rightarrow> None
        | Inr bs \<Rightarrow> (case utf8_read bs of None \<Rightarrow> None | Some s \<Rightarrow> basic_pair s))
      else None)"

lemma of_ascii_us [simp]: "of_ascii (us s) = s"
proof -
  have "char_of (unat (of_char c :: unit16)) = c" for c
  proof -
    have c: "of_char c < (256 :: nat)" by simp
    have "unat (of_nat n :: unit16) = n" if "n < 256" for n
      using that by (simp add: unat_of_nat)
    from this [OF c] show ?thesis by (simp add: of_nat_of_char)
  qed
  then show ?thesis by (simp add: of_ascii_def us_def comp_def map_idI)
qed


lemma of_ascii_append [simp]: "of_ascii (a @ b) = of_ascii a @ of_ascii b"
  by (simp add: of_ascii_def)

lemma wf16_ascii: "list_all (\<lambda>c. \<not> is_lead c \<and> \<not> is_trail c) a \<Longrightarrow> wf16 (a @ s) \<longleftrightarrow> wf16 s"
  by (induction a) auto

lemma wf16_append: "wf16 a \<Longrightarrow> wf16 b \<Longrightarrow> wf16 (a @ b)"
  by (induction a rule: wf16.induct) (auto split: list.splits if_splits)

lemma basic_pair_colon: "58 \<notin> set i \<Longrightarrow> basic_pair (i @ 58 # s) = Some (i, s)"
  by (simp add: basic_pair_def takeWhile_append2 dropWhile_append2 takeWhile_stop)
    (induction i, auto)

lemma basic_prefix: "starts_with (us ''Basic '') (us ''Basic '' @ s)" "drop 6 (us ''Basic '' @ s) = s"
  by simp_all

lemma basic_read_header:
  assumes "58 \<notin> set (shown i)" and "wf16 (shown i)" and "wf16 (shown s)"
  shows "basic_read (snd (basic_header i s)) = Some (shown i, shown s)"
proof -
  have "wf16 (58 # shown s)" using assms(3) wf16_ascii [of "[58]"] by (simp add: surrogate_nat)
  then have "wf16 (shown i @ 58 # shown s)" by (rule wf16_append [OF assms(2)])
  then have "utf8_read (utf8_bytes (shown i @ 58 # shown s)) = Some (shown i @ 58 # shown s)"
    by (rule utf8_round_trip)
  moreover have "us '':'' = [58]" by simp
  ultimately show ?thesis
    unfolding basic_read_def basic_header_def snd_conv basic_prefix btoa_def
    by (simp add: basic_prefix(1) base64_inverse basic_pair_colon [OF assms(1)] del: us_simps)
qed

subsection \<open>The form a server reads\<close>

lemma form_parts_values:
  "form_parts data = Inr ps \<Longrightarrow> list_all (\<lambda>(n, v). v \<noteq> None \<longrightarrow> wf16 (the v)) data"
proof (induction data arbitrary: ps rule: form_parts.induct)
  case (2 n v data)
  show ?case
  proof (cases v)
    case None
    then show ?thesis using 2 by simp
  next
    case (Some x)
    show ?thesis
    proof (cases "x = []")
      case True
      then show ?thesis using "2.IH"(2) [OF Some True] "2.prems" Some by simp
    next
      case False
      then obtain e ps' where "encodeURIComponent x = Inr e" "form_parts data = Inr ps'"
        using "2.prems" by (auto simp: Some bind_js_Inr)
      then show ?thesis using "2.IH"(3) [OF Some False] encode_outcome [of x] by (auto simp: Some split: if_splits)
    qed
  qed
qed simp

lemma form_body_reads:
  assumes "buildFormData data = Inr b" and "list_all (\<lambda>e. list_all uri_unescaped (fst e)) data"
    and "sent_fields data \<noteq> []"
  shows "form_fields b = Inr (sent_fields data)"
proof -
  obtain ps where "form_parts data = Inr ps" using assms(1) by (auto simp: buildFormData_def)
  from form_parts_values [OF this] assms(2) have "form_ok data"
    by (auto simp: form_ok_def list_all_iff)
  from form_parts_read [OF this] obtain parts where p: "form_parts data = Inr parts"
      "list_all2 (\<lambda>p f. form_field p = Inr f) parts (sent_fields data)"
      "\<forall>p \<in> set parts. 38 \<notin> set p \<and> p \<noteq> []" by blast
  then have "list_all2 Js_OAuth.reads parts (sent_fields data)"
    by (auto simp: Js_OAuth.reads_def list_all2_conv_all_nth)
  moreover have "b = join_with [38] parts" using assms(1) p(1) by (simp add: buildFormData_def)
  moreover have "parts \<noteq> []" using p(2) assms(3) by auto
  ultimately show ?thesis using reads_join by blast
qed

lemma token_keys:
  "list_all uri_unescaped (us ''grant_type'')" "list_all uri_unescaped (us ''scope'')"
  "list_all uri_unescaped (us ''username'')" "list_all uri_unescaped (us ''password'')"
  "list_all uri_unescaped (us ''client_id'')" "list_all uri_unescaped (us ''client_secret'')"
  "list_all uri_unescaped (us ''code'')" "list_all uri_unescaped (us ''redirect_uri'')"
  "list_all uri_unescaped (us ''code_verifier'')"
  by code_simp+

lemmas grant_fields_defs = password_fields_def application_fields_def form_code_fields_def
  basic_code_fields_def client_fields_def

lemmas request_defs = authorizePassword_def authorizeApplication_def
  authorizeAccessCodeWithFormParams_def authorizeAccessCodeWithBasicAuthentication_def

lemma grant_types_not_empty:
  "us ''password'' \<noteq> []" "us ''client_credentials'' \<noteq> []" "us ''authorization_code'' \<noteq> []"
  by simp_all

lemma sent_fields_Cons:
  "sent_fields ((n, v) # data) = (case v of None \<Rightarrow> [] | Some x \<Rightarrow> if x = [] then [] else [(n, x)]) @ sent_fields data"
  by (simp add: sent_fields_def split: option.split)

lemma sent_fields_Nil [simp]: "sent_fields [] = []"
  by (simp add: sent_fields_def)

lemma fields_well_named:
  "list_all (\<lambda>e. list_all uri_unescaped (fst e)) (password_fields t)"
  "list_all (\<lambda>e. list_all uri_unescaped (fst e)) (application_fields t)"
  "list_all (\<lambda>e. list_all uri_unescaped (fst e)) (form_code_fields t h)"
  "list_all (\<lambda>e. list_all uri_unescaped (fst e)) (basic_code_fields t h)"
  by (simp_all add: grant_fields_defs token_keys del: us_simps)

lemma fields_sent:
  "sent_fields (password_fields t) \<noteq> []" "sent_fields (application_fields t) \<noteq> []"
  "sent_fields (form_code_fields t h) \<noteq> []" "sent_fields (basic_code_fields t h) \<noteq> []"
  by (simp_all add: grant_fields_defs sent_fields_Cons grant_types_not_empty del: us_simps)

lemma request_reads:
  assumes "request_js t hs data = Inr r" and "list_all (\<lambda>e. list_all uri_unescaped (fst e)) data"
    and "sent_fields data \<noteq> []"
  shows "form_fields (request_body r) = Inr (sent_fields data) \<and> extra_headers r = hs"
  using assms form_body_reads by (auto simp: request_js_def)


subsection \<open>What the token endpoint reads\<close>

datatype grant = ByPassword | ByClient | ByCodeForm | ByCodeBasic

definition grant_request :: "grant \<Rightarrow> session \<Rightarrow> jstr \<Rightarrow> token_request js" where
  "grant_request g t h = (case g of
       ByPassword \<Rightarrow> authorizePassword t
     | ByClient \<Rightarrow> authorizeApplication t
     | ByCodeForm \<Rightarrow> authorizeAccessCodeWithFormParams t h
     | ByCodeBasic \<Rightarrow> authorizeAccessCodeWithBasicAuthentication t h)"

definition given :: "string \<Rightarrow> jstr option \<Rightarrow> (jstr \<times> jstr) list" where
  "given k v = (case v of None \<Rightarrow> [] | Some x \<Rightarrow> if x = [] then [] else [(us k, x)])"

text \<open>The parameters of RFC 6749, 4.1.3, 4.3.2 and 4.4.2, and of RFC 7636, 4.5.\<close>

definition grant_params :: "grant \<Rightarrow> session \<Rightarrow> jstr \<Rightarrow> (jstr \<times> jstr) list" where
  "grant_params g t h =
     (let client = given ''client_id'' (clientId t);
          secret = given ''client_secret'' (clientSecret t);
          scope = given ''scope'' (Some (join_with [32] (scopes t)));
          code = (us ''grant_type'', us ''authorization_code'') # given ''code'' (auth_code t);
          redirect = given ''redirect_uri'' (Some h)
      in case g of
       ByPassword \<Rightarrow> (us ''grant_type'', us ''password'') # scope @
         given ''username'' (Some (username t)) @ given ''password'' (Some (user_password t)) @
         (if passwordType t = us ''request-body'' then client @ secret else [])
     | ByClient \<Rightarrow> (us ''grant_type'', us ''client_credentials'') # scope
     | ByCodeForm \<Rightarrow> code @ client @ secret @ redirect @ given ''code_verifier'' (map_option us (codeVerifier t))
     | ByCodeBasic \<Rightarrow> code @ client @ redirect)"

definition grant_credentials :: "grant \<Rightarrow> session \<Rightarrow> (jstr \<times> jstr) option" where
  "grant_credentials g t =
     (if g = ByCodeForm \<or> g = ByPassword \<and> passwordType t \<noteq> us ''basic'' then None
      else Some (shown (clientId t), shown (clientSecret t)))"

definition credentials_of :: "token_request \<Rightarrow> (jstr \<times> jstr) option" where
  "credentials_of r =
     (case map_of (post_headers r) (us ''Authorization'') of None \<Rightarrow> None | Some v \<Rightarrow> basic_read v)"

lemma authorization_new:
  "us ''Authorization'' \<noteq> us ''Accept''" "us ''Authorization'' \<noteq> us ''Content-Type''"
  "us ''Authorization'' \<noteq> us ''X-Requested-With''" "us ''Authorization'' \<noteq> proto_key"
  unfolding proto_key_def by code_simp+

lemma credentials_none: "extra_headers r = [] \<Longrightarrow> credentials_of r = None"
  by (simp add: credentials_of_def post_headers_def authorization_new del: us_simps)

lemma credentials_basic:
  assumes "extra_headers r = [basic_header i s]"
  shows "credentials_of r = basic_read (snd (basic_header i s))"
  using assms
  by (simp add: credentials_of_def post_headers_def map_of_set_prop basic_header_def authorization_new del: us_simps)

lemma sent_given: "sent_fields ((us k, v) # data) = given k v @ sent_fields data"
  by (simp add: sent_fields_Cons given_def del: us_simps)

lemma given_Some: "x \<noteq> [] \<Longrightarrow> given k (Some x) = [(us k, x)]"
  by (simp add: given_def del: us_simps)

lemma given_empty: "v = None \<or> v = Some [] \<Longrightarrow> given k v = []"
  by (auto simp: given_def)

lemma client_fields_sent:
  "sent_fields (client_fields t) = given ''client_id'' (clientId t) @ given ''client_secret'' (clientSecret t)"
  by (auto simp: client_fields_def sent_given truthy_def given_empty simp del: us_simps)

lemma sent_append: "sent_fields (a @ b) = sent_fields a @ sent_fields b"
  by (simp add: sent_fields_def)

lemma grant_params_sent:
  "sent_fields (password_fields t) = grant_params ByPassword t h"
  "sent_fields (application_fields t) = grant_params ByClient t h"
  "sent_fields (form_code_fields t h) = grant_params ByCodeForm t h"
  "sent_fields (basic_code_fields t h) = grant_params ByCodeBasic t h"
  by (simp_all add: password_fields_def application_fields_def form_code_fields_def basic_code_fields_def
      grant_params_def sent_append sent_given client_fields_sent given_Some grant_types_not_empty
      del: us_simps)

text \<open>C21. The token endpoint reads from a request exactly the parameters its grant asks for, in
  order and whatever characters they hold, and from its header the client's credentials, for a client id without a colon.
  Only a code sent with a \<open>Basic\<close> header comes without the code verifier.\<close>

theorem token_request_reads:
  assumes "grant_request g t h = Inr r"
    and "58 \<notin> set (shown (clientId t))" and "wf16 (shown (clientId t))" and "wf16 (shown (clientSecret t))"
  shows "form_fields (request_body r) = Inr (grant_params g t h) \<and>
    credentials_of r = grant_credentials g t"
proof -
  note basic = basic_read_header [OF assms(2-4)]
  note reads = request_reads [OF _ fields_well_named(1) fields_sent(1)]
    request_reads [OF _ fields_well_named(2) fields_sent(2)]
    request_reads [OF _ fields_well_named(3) fields_sent(3)]
    request_reads [OF _ fields_well_named(4) fields_sent(4)]
  note facts = request_defs grant_credentials_def credentials_none credentials_basic basic
  show ?thesis
    using assms(1) reads grant_params_sent
    by (cases g) (auto simp: grant_request_def facts simp del: us_simps split: if_splits)
qed


subsection \<open>What a code request carries\<close>

definition param_sent :: "token_request \<Rightarrow> jstr \<Rightarrow> jstr option" where
  "param_sent r k = (case form_fields (request_body r) of Inl _ \<Rightarrow> None | Inr fs \<Rightarrow> map_of fs k)"

definition code_grant :: "oauth_callback \<Rightarrow> grant" where
  "code_grant cb = (if cb = AccessCodeWithBasic then ByCodeBasic else ByCodeForm)"

lemma grant_reads: "grant_request g t h = Inr r \<Longrightarrow> form_fields (request_body r) = Inr (grant_params g t h)"
  using request_reads [OF _ fields_well_named(1) fields_sent(1)]
    request_reads [OF _ fields_well_named(2) fields_sent(2)]
    request_reads [OF _ fields_well_named(3) fields_sent(3)]
    request_reads [OF _ fields_well_named(4) fields_sent(4)] grant_params_sent
  by (cases g) (auto simp: grant_request_def request_defs simp del: us_simps)

lemma code_request_grant:
  "code_request cb t h = Exchange r \<Longrightarrow> grant_request (code_grant cb) t h = Inr r \<and> cb \<noteq> PreAuthorizeImplicit"
  by (cases cb) (auto simp: code_request_def sent_def code_grant_def grant_request_def split: sum.splits)

lemma param_names:
  "us ''code'' \<noteq> us ''grant_type''" "us ''code_verifier'' \<noteq> us ''grant_type''" "us ''code_verifier'' \<noteq> us ''code''"
  "us ''code_verifier'' \<noteq> us ''client_id''" "us ''code_verifier'' \<noteq> us ''client_secret''"
  "us ''code_verifier'' \<noteq> us ''redirect_uri''"
  by code_simp+

lemma map_of_given: "map_of (given k v @ fs) n = (if n = us k \<and> truthy v then v else map_of fs n)"
  by (cases v) (simp_all add: given_def truthy_def del: us_simps)

lemma code_sent:
  "code_request cb t h = Exchange r \<Longrightarrow> auth_code t = Some c \<Longrightarrow> c \<noteq> [] \<Longrightarrow>
    param_sent r (us ''code'') = Some c"
  by (frule code_request_grant)
    (auto simp: param_sent_def grant_reads code_grant_def grant_params_def Let_def map_of_given param_names
      truthy_def simp del: us_simps map_of_append dest!: grant_reads)

lemma verifier_sent:
  "code_request cb t h = Exchange r \<Longrightarrow> codeVerifier t = Some v \<Longrightarrow> v \<noteq> '''' \<Longrightarrow>
    param_sent r (us ''code_verifier'') = (if cb = AccessCodeWithBasic then None else Some (us v))"
proof -
  assume "code_request cb t h = Exchange r" "codeVerifier t = Some v" "v \<noteq> ''''"
  moreover from this(3) have "us v \<noteq> []" by (simp add: us_def)
  moreover have "map_of (given k w) n = (if n = us k \<and> truthy w then w else None)" for k w n
    using map_of_given [of k w "[]" n] by simp
  ultimately show ?thesis
    using code_request_grant [of cb t h r]
    by (auto simp: param_sent_def grant_reads code_grant_def grant_params_def Let_def map_of_given param_names
        truthy_def simp del: us_simps map_of_append dest!: grant_reads)
qed

definition is_code_flow :: "jstr \<Rightarrow> bool" where
  "is_code_flow f \<longleftrightarrow> f = us ''accessCode'' \<or> code_flow f"

lemma code_flow_distinct:
  "is_code_flow f \<Longrightarrow> f \<noteq> us ''password'' \<and> f \<noteq> us ''implicit'' \<and>
     f \<notin> {us ''application'', us ''clientCredentials'', us ''client_credentials''}"
  unfolding is_code_flow_def code_flow_def by (elim disjE) (simp_all only:, code_simp+)

lemma callback_code: "is_code_flow f \<Longrightarrow> callback_of cfg f \<noteq> PreAuthorizeImplicit"
  using code_flow_distinct [of f] by (simp add: callback_of_def)

lemma verifier_not_empty: "length e = 32 \<Longrightarrow> generateCodeVerifier e \<noteq> ''''"
  using url_encoded_facts(3) [of e] by (auto simp: generateCodeVerifier_def pad_count_def)

lemma challenge_sent:
  "uses_pkce cfg (flow t) \<Longrightarrow> (us ''code_challenge'', us (createCodeChallenge sha256 v)) \<in>
    set (sent_params sha256 v state cfg t h)"
  by (simp add: sent_params_def del: us_simps)

subsection \<open>Edits, clicks and returns\<close>

lemma edit_keeps [simp]:
  "auth_code (apply_edit e t) = auth_code t" "flow (apply_edit e t) = flow t"
  by (simp_all add: apply_edit_def input_change_def scope_change_def split: edit.split form_input.split)

lemma upd_object_simps [simp]:
  "length (objects (upd_object i f b)) = length (objects b)" "waiting (upd_object i f b) = waiting b"
  "form (upd_object i f b) = form b" "form (b\<lparr>waiting := w\<rparr>) = form b"
  "objects (upd_object i f b) = [] \<longleftrightarrow> objects b = []"
  "i < length (objects b) \<Longrightarrow> objects (upd_object i f b) ! j = (if j = i then f (objects b ! i) else objects b ! j)"
  by (simp_all add: upd_object_def form_def nth_list_update)

lemma form_less [simp]: "objects b \<noteq> [] \<Longrightarrow> form b < length (objects b)"
  by (simp add: form_def)

lemma keep_verifier_simps [simp]:
  "length (objects (keep_verifier v b)) = length (objects b)" "waiting (keep_verifier v b) = waiting b"
  "form (keep_verifier v b) = form b" "objects (keep_verifier v b) = [] \<longleftrightarrow> objects b = []"
  "objects b \<noteq> [] \<Longrightarrow> objects (keep_verifier v b) ! j =
    (if j = form b then (objects b ! j)\<lparr>codeVerifier := Some v\<rparr> else objects b ! j)"
  by (simp_all add: keep_verifier_def)

text \<open>An edit leaves the objects there are, and the window, as they are.\<close>

lemma edit_form_keeps:
  "waiting (edit_form e b) = waiting b" "length (objects b) \<le> length (objects (edit_form e b))"
  "i < length (objects b) \<Longrightarrow> objects (edit_form e b) ! i = objects b ! i"
  "objects b \<noteq> [] \<Longrightarrow> auth_code (form_object (edit_form e b)) = auth_code (form_object b) \<and>
    flow (form_object (edit_form e b)) = flow (form_object b)"
  by (auto simp: edit_form_def form_object_def form_def nth_append)

lemma edits_keep:
  "fst (ui_run E (map Edit es) b) = b' \<Longrightarrow> waiting b' = waiting b \<and> length (objects b) \<le> length (objects b') \<and>
    (\<forall>i < length (objects b). objects b' ! i = objects b ! i)"
proof (induction es arbitrary: b b')
  case (Cons e es)
  have "fst (ui_run E (map Edit es) (edit_form e b)) = b'"
    using Cons.prems by (simp add: ui_step_def split_beta Let_def)
  from Cons.IH [OF this] show ?case using edit_form_keeps [where e = e and b = b] by auto
qed simp

text \<open>A click in a code flow.\<close>

lemma click_opened:
  assumes "authorize_click E random32 date b = (b', OpenedAt url)" and "is_code_flow (flow (form_object b))"
  shows "\<exists>h state verifier. e_redirect E = Some h \<and>
    oauth2_authorize (e_resolve E) (e_sha256 E) random32 date (e_server E) (Some h) (e_config E)
      (auth.truncate (form_object b)) =
      Inr (Opened url state (callback_of (e_config E) (flow (form_object b))) verifier) \<and>
    b' = (if uses_pkce (e_config E) (flow (form_object b)) then keep_verifier (generateCodeVerifier random32) b else b)
      \<lparr>waiting := Some \<lparr>p_auth = form b, p_state = Some state, p_redirect = h,
        p_callback = callback_of (e_config E) (flow (form_object b))\<rparr>\<rparr>"
proof -
  have f: "flow (auth.truncate (form_object b)) = flow (form_object b)" by (simp add: auth.truncate_def)
  show ?thesis
    using assms(1) code_flow_distinct [OF assms(2)]
    by (auto simp: authorize_click_def oauth2_authorize_def Let_def f simp del: us_simps
        split: if_splits option.splits sum.splits)
qed

text \<open>A return in a code flow that ends in a request, with or without a code in the object.\<close>

lemma return_stale:
  assumes "page_return E hash srch b = (b', Outcome w x)" and "waiting b = Some p"
    and "is_code_flow (flow (objects b ! p_auth p))" and "truthy (auth_code (objects b ! p_auth p))"
    and "p_callback p \<noteq> PreAuthorizeImplicit"
  shows "b' = b \<and> \<not> w \<and> (\<forall>r. x = Exchange r \<longrightarrow>
    code_request (p_callback p) (objects b ! p_auth p) (p_redirect p) = Exchange r)"
  using assms
  by (cases "p_callback p") (auto simp: page_return_def redirect_run_def page_calls_def Let_def is_code_flow_def
      simp del: us_simps split: sum.splits)

lemma return_first:
  assumes "page_return E hash srch b = (b', Outcome w (Exchange r))" and "waiting b = Some p"
    and "is_code_flow (flow (objects b ! p_auth p))" and "\<not> truthy (auth_code (objects b ! p_auth p))"
  shows "\<exists>c. c \<noteq> [] \<and>
    b' = upd_object (p_auth p) (\<lambda>t. t\<lparr>auth_code := Some c\<rparr>) (b\<lparr>waiting := Some (p\<lparr>p_state := None\<rparr>)\<rparr>) \<and>
    code_request (p_callback p) (objects b' ! p_auth p) (p_redirect p) = Exchange r"
proof -
  obtain qp where "page_params (e_parse E) (redirect_query hash srch) = Inr qp"
    using assms(1,2) by (auto simp: page_return_def redirect_run_def Let_def split: sum.splits)
  then show ?thesis
    using assms
    by (cases "truthy (map_of qp (us ''code''))")
      (auto simp: page_return_def redirect_run_def page_calls_def Let_def is_code_flow_def truthy_def
        simp del: us_simps split: if_splits)
qed

text \<open>In either case the request is made from the object the window refers to, with its verifier.\<close>

lemma return_verifier:
  assumes "page_return E hash srch b = (b', Outcome w (Exchange r))" and "waiting b = Some p"
    and "is_code_flow (flow (objects b ! p_auth p))" and "p_callback p \<noteq> PreAuthorizeImplicit"
    and "p_auth p < length (objects b)"
  shows "codeVerifier (objects b' ! p_auth p) = codeVerifier (objects b ! p_auth p) \<and>
    code_request (p_callback p) (objects b' ! p_auth p) (p_redirect p) = Exchange r"
proof (cases "truthy (auth_code (objects b ! p_auth p))")
  case True
  then show ?thesis using return_stale [OF assms(1-3) True assms(4)] by simp
next
  case False
  then show ?thesis using return_first [OF assms(1-3) False] assms(5) by auto
qed

text \<open>C13. PKCE from end to end: the authorization request of a click carries the challenge of a fresh
  code verifier, and the token request for which the browser comes back carries that verifier in its
  form, so the server can check it, however the form was edited while the window was open; but with
  \<open>useBasicAuthenticationWithAccessCodeGrant\<close> the verifier is not sent at all, and a server that saw
  the challenge must refuse the code.\<close>

theorem pkce_exchange:
  assumes "ui_step E (Authorize random32 date) b = (b1, OpenedAt url)" and "objects b \<noteq> []"
    and "uses_pkce (e_config E) (flow (form_object b))" and "length random32 = 32"
    and "ui_step E (Return hash srch) (fst (ui_run E (map Edit es) b1)) = (b2, Outcome w (Exchange r))"
  shows "\<exists>base q params v. url = base @ q \<and> form_fields q = Inr params \<and>
    v = generateCodeVerifier random32 \<and>
    (us ''code_challenge'', us (createCodeChallenge (e_sha256 E) v)) \<in> set params \<and>
    param_sent r (us ''code_verifier'') = (if useBasic (e_config E) then None else Some (us v))"
proof -
  let ?t = "form_object b" and ?cfg = "e_config E" and ?b1' = "fst (ui_run E (map Edit es) b1)"
  let ?v = "generateCodeVerifier random32" and ?cb = "callback_of (e_config E) (flow (form_object b))"
  have f: "is_code_flow (flow ?t)" using assms(3) by (auto simp: uses_pkce_def is_code_flow_def simp del: us_simps)
  have "authorize_click E random32 date b = (b1, OpenedAt url)" using assms(1) by (simp add: ui_step_def)
  from click_opened [OF this f] obtain h state verifier where
      out: "oauth2_authorize (e_resolve E) (e_sha256 E) random32 date (e_server E) (Some h) ?cfg (auth.truncate ?t) =
        Inr (Opened url state ?cb verifier)"
      and b1: "b1 = (keep_verifier ?v b)\<lparr>waiting := Some \<lparr>p_auth = form b, p_state = Some state, p_redirect = h,
        p_callback = ?cb\<rparr>\<rparr>"
    using assms(3) by auto
  let ?p = "\<lparr>p_auth = form b, p_state = Some state, p_redirect = h, p_callback = ?cb\<rparr>"
  have kept: "waiting ?b1' = Some ?p" "form b < length (objects ?b1')" "objects ?b1' ! form b = ?t\<lparr>codeVerifier := Some ?v\<rparr>"
  proof -
    have "waiting b1 = Some ?p" "form b < length (objects b1)" "objects b1 ! form b = ?t\<lparr>codeVerifier := Some ?v\<rparr>"
      using assms(2) by (simp_all add: b1 form_object_def)
    then show "waiting ?b1' = Some ?p" "form b < length (objects ?b1')" "objects ?b1' ! form b = ?t\<lparr>codeVerifier := Some ?v\<rparr>"
      using edits_keep [OF refl, of E es b1] by auto
  qed
  have "page_return E hash srch ?b1' = (b2, Outcome w (Exchange r))" using assms(5) by (simp add: ui_step_def)
  from return_verifier [OF this kept(1)] have
    "codeVerifier (objects b2 ! form b) = Some ?v \<and> code_request ?cb (objects b2 ! form b) h = Exchange r"
    using kept(2,3) f callback_code [OF f] by simp
  from this verifier_sent [of ?cb "objects b2 ! form b" h r ?v] verifier_not_empty [OF assms(4)]
  have v: "param_sent r (us ''code_verifier'') = (if ?cb = AccessCodeWithBasic then None else Some (us ?v))"
    by blast
  have "?cb = AccessCodeWithBasic \<longleftrightarrow> useBasic ?cfg"
    using code_flow_distinct [OF f] by (simp add: callback_of_def)
  with v have "param_sent r (us ''code_verifier'') = (if useBasic ?cfg then None else Some (us ?v))" by simp
  moreover from authorize_opened [OF out] obtain x q where
      url: "url = base_url (e_resolve E) (e_server E) (auth.truncate ?t) @ x # q"
      and q: "form_fields q = Inr (sent_params (e_sha256 E) ?v state ?cfg (auth.truncate ?t) h)" by blast
  have "url = (base_url (e_resolve E) (e_server E) (auth.truncate ?t) @ [x]) @ q" using url by simp
  moreover have "(us ''code_challenge'', us (createCodeChallenge (e_sha256 E) ?v)) \<in>
      set (sent_params (e_sha256 E) ?v state ?cfg (auth.truncate ?t) h)"
    using challenge_sent [of ?cfg "auth.truncate ?t"] assms(3) by (simp add: auth.truncate_def)
  ultimately show ?thesis using q by blast
qed

subsection \<open>The code that stays\<close>

text \<open>What holds of a form in a code flow; and what once it and the window hold a code.\<close>

definition form_inv :: "jstr \<Rightarrow> browser \<Rightarrow> bool" where
  "form_inv f b \<longleftrightarrow> objects b \<noteq> [] \<and> (\<forall>i < length (objects b). flow (objects b ! i) = f \<and> auth_code (objects b ! i) \<noteq> Some []) \<and>
     (\<forall>p. waiting b = Some p \<longrightarrow> p_auth p < length (objects b) \<and> p_callback p \<noteq> PreAuthorizeImplicit)"

definition holds_code :: "jstr \<Rightarrow> browser \<Rightarrow> bool" where
  "holds_code c b \<longleftrightarrow> auth_code (form_object b) = Some c \<and>
     (\<forall>p. waiting b = Some p \<longrightarrow> auth_code (objects b ! p_auth p) = Some c)"

lemma edit_inv:
  assumes "form_inv f b"
  shows "form_inv f (edit_form e b)" and "holds_code c b \<Longrightarrow> holds_code c (edit_form e b)"
proof -
  have n: "objects b \<noteq> []" using assms by (simp add: form_inv_def)
  show "form_inv f (edit_form e b)"
    using assms form_less [OF n] by (auto simp: form_inv_def edit_form_def form_object_def nth_append less_Suc_eq)
  show "holds_code c (edit_form e b)" if "holds_code c b"
    using that assms edit_form_keeps [where e = e and b = b] n
    by (auto simp: holds_code_def form_inv_def)
qed

lemma click_state:
  assumes "is_code_flow (flow (form_object b))" and "authorize_click E random32 date b = (b', out)"
  shows "(\<exists>v. b' = b \<or> b' = keep_verifier v b) \<or> (\<exists>v p. p_auth p = form b \<and> p_callback p \<noteq> PreAuthorizeImplicit \<and>
    (b' = b\<lparr>waiting := Some p\<rparr> \<or> b' = (keep_verifier v b)\<lparr>waiting := Some p\<rparr>))"
    and "\<nexists>w r. out = Outcome w (Exchange r)" and "\<nexists>x. out = Outcome True x"
proof -
  have f: "flow (auth.truncate (form_object b)) = flow (form_object b)" by (simp add: auth.truncate_def)
  note d = code_flow_distinct [OF assms(1)]
  show "(\<exists>v. b' = b \<or> b' = keep_verifier v b) \<or> (\<exists>v p. p_auth p = form b \<and> p_callback p \<noteq> PreAuthorizeImplicit \<and>
    (b' = b\<lparr>waiting := Some p\<rparr> \<or> b' = (keep_verifier v b)\<lparr>waiting := Some p\<rparr>))"
  proof (cases "\<exists>url. out = OpenedAt url")
    case True
    then obtain url where "authorize_click E random32 date b = (b', OpenedAt url)" using assms(2) by blast
    from click_opened [OF this assms(1)] obtain h state where
      b': "b' = (if uses_pkce (e_config E) (flow (form_object b)) then keep_verifier (generateCodeVerifier random32) b else b)
        \<lparr>waiting := Some \<lparr>p_auth = form b, p_state = Some state, p_redirect = h,
          p_callback = callback_of (e_config E) (flow (form_object b))\<rparr>\<rparr>" by blast
    let ?p = "\<lparr>p_auth = form b, p_state = Some state, p_redirect = h,
      p_callback = callback_of (e_config E) (flow (form_object b))\<rparr>"
    have "p_auth ?p = form b \<and> p_callback ?p \<noteq> PreAuthorizeImplicit \<and> (b' = b\<lparr>waiting := Some ?p\<rparr> \<or>
        b' = (keep_verifier (generateCodeVerifier random32) b)\<lparr>waiting := Some ?p\<rparr>)"
      using callback_code [OF assms(1), of "e_config E"] by (simp add: b')
    then show ?thesis by blast
  next
    case False
    then have "\<exists>v. b' = b \<or> b' = keep_verifier v b"
      using assms(2) d
      by (auto simp: authorize_click_def Let_def split: sum.splits option.splits if_splits authorize_result.splits)
    then show ?thesis by blast
  qed
  show "\<nexists>w r. out = Outcome w (Exchange r)" "\<nexists>x. out = Outcome True x"
    using assms(2) d
    by (auto simp: authorize_click_def oauth2_authorize_def Let_def f simp del: us_simps
        split: sum.splits option.splits if_splits)
qed

lemma click_inv:
  assumes "form_inv f b" and "is_code_flow f" and "authorize_click E random32 date b = (b', out)"
  shows "form_inv f b'" and "holds_code c b \<Longrightarrow> holds_code c b'"
proof -
  have n: "objects b \<noteq> []" "form b < length (objects b)" using assms(1) by (simp_all add: form_inv_def)
  have "is_code_flow (flow (form_object b))" using assms(1,2) n by (simp add: form_inv_def form_object_def)
  from click_state(1) [OF this assms(3)]
  show "form_inv f b'" "holds_code c b \<Longrightarrow> holds_code c b'"
    using assms(1) n by (auto simp: form_inv_def holds_code_def form_object_def split: if_splits)
qed

lemma return_state:
  assumes "form_inv f b" and "is_code_flow f" and "page_return E hash srch b = (b', out)"
  shows "b' = b \<or> (\<exists>p c. waiting b = Some p \<and> c \<noteq> [] \<and> \<not> truthy (auth_code (objects b ! p_auth p)) \<and>
    b' = upd_object (p_auth p) (\<lambda>t. t\<lparr>auth_code := Some c\<rparr>) (b\<lparr>waiting := Some (p\<lparr>p_state := None\<rparr>)\<rparr>))"
proof (cases "waiting b")
  case None
  then show ?thesis using assms(3) by (simp add: page_return_def)
next
  case (Some p)
  then have p: "flow (objects b ! p_auth p) = f" "p_callback p \<noteq> PreAuthorizeImplicit"
    using assms(1) by (auto simp: form_inv_def)
  obtain w x where out: "out = Outcome w x"
    using assms(3) by (auto simp: page_return_def Let_def split: option.splits sum.splits prod.splits)
  show ?thesis
  proof (cases "truthy (auth_code (objects b ! p_auth p))")
    case True
    then show ?thesis using return_stale [of E hash srch b b' w x p] assms(2,3) out Some p by simp
  next
    case False
    then show ?thesis
      using assms(2,3) Some p
      by (auto simp: page_return_def redirect_run_def page_calls_def Let_def is_code_flow_def truthy_def
          simp del: us_simps split: sum.splits if_splits)
  qed
qed

lemma return_inv:
  assumes "form_inv f b" and "is_code_flow f" and "page_return E hash srch b = (b', out)"
  shows "form_inv f b'"
  using return_state [OF assms] assms(1) by (auto simp: form_inv_def split: if_splits)

lemma ui_inv:
  assumes "form_inv f b" and "is_code_flow f" and "ui_step E ev b = (b', out)"
  shows "form_inv f b'"
proof (cases ev)
  case (Edit e)
  then show ?thesis using assms(3) edit_inv(1) [OF assms(1)] by (auto simp: ui_step_def)
next
  case (Authorize random32 date)
  then show ?thesis using click_inv(1) [OF assms(1,2)] assms(3) by (simp add: ui_step_def)
next
  case (Return hash srch)
  then show ?thesis using return_inv [OF assms(1,2)] assms(3) by (simp add: ui_step_def)
qed

lemma ui_run_inv: "form_inv f b \<Longrightarrow> is_code_flow f \<Longrightarrow> form_inv f (fst (ui_run E evs b))"
proof (induction evs arbitrary: b)
  case (Cons ev evs)
  obtain b1 out where "ui_step E ev b = (b1, out)" by fastforce
  then show ?case using Cons ui_inv [OF Cons.prems] by (auto simp: Let_def split_beta)
qed simp

text \<open>With the code in form and window, every output is as with that code, and it stays.\<close>

definition sends_only :: "jstr \<Rightarrow> ui_output \<Rightarrow> bool" where
  "sends_only c out \<longleftrightarrow> (\<forall>w x. out = Outcome w x \<longrightarrow>
     \<not> w \<and> (\<forall>r. x = Exchange r \<longrightarrow> param_sent r (us ''code'') = Some c))"

lemma held_step:
  assumes "form_inv f b" and "is_code_flow f" and "holds_code c b" and "c \<noteq> []" and "ui_step E ev b = (b', out)"
  shows "holds_code c b' \<and> sends_only c out"
proof (cases ev)
  case (Edit e)
  then show ?thesis using assms edit_inv(2) [OF assms(1)] by (auto simp: ui_step_def sends_only_def)
next
  case (Authorize random32 date)
  then have cl: "authorize_click E random32 date b = (b', out)" using assms(5) by (simp add: ui_step_def)
  have "is_code_flow (flow (form_object b))" using assms(1,2) by (simp add: form_inv_def form_object_def)
  from click_state(2,3) [OF this cl] have "sends_only c out" by (auto simp: sends_only_def)
  then show ?thesis using click_inv(2) [OF assms(1,2) cl assms(3)] by blast
next
  case (Return hash srch)
  then have ret: "page_return E hash srch b = (b', out)" using assms(5) by (simp add: ui_step_def)
  show ?thesis
  proof (cases "waiting b")
    case None
    then show ?thesis using ret assms(3) by (auto simp: page_return_def sends_only_def)
  next
    case (Some p)
    then have p: "flow (objects b ! p_auth p) = f" "p_callback p \<noteq> PreAuthorizeImplicit"
      "auth_code (objects b ! p_auth p) = Some c"
      using assms(1,3) by (auto simp: form_inv_def holds_code_def)
    obtain w x where out: "out = Outcome w x"
      using ret by (auto simp: page_return_def Let_def split: option.splits sum.splits prod.splits)
    have "b' = b \<and> \<not> w \<and> (\<forall>r. x = Exchange r \<longrightarrow>
        code_request (p_callback p) (objects b ! p_auth p) (p_redirect p) = Exchange r)"
      using return_stale [of E hash srch b b' w x p] ret out Some p assms(2,4) by (simp add: truthy_def)
    then show ?thesis using assms(3) code_sent [OF _ p(3) assms(4)] by (auto simp: out sends_only_def)
  qed
qed

lemma held_run:
  "form_inv f b \<Longrightarrow> is_code_flow f \<Longrightarrow> holds_code c b \<Longrightarrow> c \<noteq> [] \<Longrightarrow>
    \<forall>out \<in> set (snd (ui_run E evs b)). sends_only c out"
proof (induction evs arbitrary: b)
  case (Cons ev evs)
  obtain b1 out where s: "ui_step E ev b = (b1, out)" by fastforce
  have "holds_code c b1 \<and> sends_only c out" by (rule held_step [OF Cons.prems s])
  then show ?case
    using Cons.IH [of b1] Cons.prems ui_inv [OF Cons.prems(1,2) s] s by (auto simp: Let_def split_beta)
qed simp

text \<open>A return that exchanges a code, and where the code is then.\<close>

lemma exchange_return:
  assumes "form_inv f b" and "is_code_flow f" and "waiting b = Some p"
    and "page_return E hash srch b = (b', Outcome w (Exchange r))"
  shows "\<exists>c. c \<noteq> [] \<and> param_sent r (us ''code'') = Some c \<and> form b' = form b \<and>
    auth_code (objects b' ! p_auth p) = Some c \<and> (\<exists>s. waiting b' = Some (p\<lparr>p_state := s\<rparr>)) \<and>
    (\<forall>i. i \<noteq> p_auth p \<longrightarrow> objects b' ! i = objects b ! i)"
proof -
  have p: "p_auth p < length (objects b)" "flow (objects b ! p_auth p) = f" "p_callback p \<noteq> PreAuthorizeImplicit"
    "auth_code (objects b ! p_auth p) \<noteq> Some []"
    using assms(1,3) by (auto simp: form_inv_def)
  have f: "is_code_flow (flow (objects b ! p_auth p))" using p(2) assms(2) by simp
  show ?thesis
  proof (cases "truthy (auth_code (objects b ! p_auth p))")
    case True
    then obtain c where c: "auth_code (objects b ! p_auth p) = Some c" "c \<noteq> []" by (auto simp: truthy_def)
    have s: "b' = b" "code_request (p_callback p) (objects b ! p_auth p) (p_redirect p) = Exchange r"
      using return_stale [OF assms(4,3) f True p(3)] by simp_all
    have "\<exists>s. waiting b = Some (p\<lparr>p_state := s\<rparr>)" using assms(3) by (intro exI [of _ "p_state p"]) simp
    then show ?thesis using code_sent [OF s(2) c] c s(1) by auto
  next
    case False
    from return_first [OF assms(4,3) f False] obtain c where c: "c \<noteq> []"
        "b' = upd_object (p_auth p) (\<lambda>t. t\<lparr>auth_code := Some c\<rparr>) (b\<lparr>waiting := Some (p\<lparr>p_state := None\<rparr>)\<rparr>)"
        "code_request (p_callback p) (objects b' ! p_auth p) (p_redirect p) = Exchange r" by blast
    have a: "auth_code (objects b' ! p_auth p) = Some c" using p(1) by (simp add: c(2))
    show ?thesis using code_sent [OF c(3) a c(1)] a c(1) p(1) by (auto simp: c(2))
  qed
qed

text \<open>C12. A code is never replaced. When the browser comes back, a code is exchanged and the form was not
  edited while the window was open, then from there on, whatever the user edits and clicks and
  whatever the server returns, every token request from this form sends the code of this one, and no
  state is compared. When the form was edited in the meantime, the code is stored in a state object
  that the form no longer has, and the form is left with the code it held before, if any.\<close>

theorem stale_code:
  assumes "b = fst (ui_run E evs (new_form (new_session d stored name f authUrl tokUrl)))" and "is_code_flow f"
    and "waiting b = Some p" and "ui_step E (Return hash srch) b = (b', Outcome w (Exchange r))"
  shows "\<exists>c. param_sent r (us ''code'') = Some c \<and>
    (if p_auth p = form b
     then \<forall>w' x. Outcome w' x \<in> set (snd (ui_run E evs' b')) \<longrightarrow>
       \<not> w' \<and> (\<forall>r'. x = Exchange r' \<longrightarrow> param_sent r' (us ''code'') = Some c)
     else auth_code (form_object b') = auth_code (form_object b))"
proof -
  have "form_inv f (new_form (new_session d stored name f authUrl tokUrl))"
    by (simp add: form_inv_def new_form_def new_session_def)
  then have inv: "form_inv f b" using ui_run_inv assms(1,2) by simp
  have ret: "page_return E hash srch b = (b', Outcome w (Exchange r))" using assms(4) by (simp add: ui_step_def)
  from exchange_return [OF inv assms(2,3) ret] obtain c s where c: "c \<noteq> []" "param_sent r (us ''code'') = Some c"
      "form b' = form b" "auth_code (objects b' ! p_auth p) = Some c" "waiting b' = Some (p\<lparr>p_state := s\<rparr>)"
      "\<forall>i. i \<noteq> p_auth p \<longrightarrow> objects b' ! i = objects b ! i" by blast
  have "\<forall>out \<in> set (snd (ui_run E evs' b')). sends_only c out" if "p_auth p = form b"
    by (rule held_run [OF return_inv [OF inv assms(2) ret] assms(2) _ c(1)])
      (use c that in \<open>simp add: holds_code_def form_object_def\<close>)
  then show ?thesis using c(2,3,6) by (auto simp: sends_only_def form_object_def)
qed


subsection \<open>Runs\<close>

definition pkce_config :: "bool \<Rightarrow> auth_config" where
  "pkce_config basic = \<lparr>scopeSeparator = None, realm = None, usePkce = True, useBasic = basic, extraParams = []\<rparr>"

definition sample_env :: ui_env where
  "sample_env = \<lparr>e_resolve = (\<lambda>a b. a), e_sha256 = (\<lambda>s. [7]), e_parse = (\<lambda>q. Inl SyntaxError), e_server = None,
     e_redirect = Some (us ''/r''), e_config = pkce_config False\<rparr>"

definition sample_new :: "session" where
  "sample_new = new_session \<lparr>conf_clientId = Some (us ''me''), conf_clientSecret = None, conf_scopes = None,
     conf_separator = None\<rparr> None (us ''oauth'') (us ''accessCode'') (us ''/a'') (Some (us ''/t''))"

definition sample_url :: jstr where
  "sample_url = us ''/a?response_type=code&client_id=me&redirect_uri=%2Fr&state=QQ%3D%3D&code_challenge=Bw&code_challenge_method=S256''"

definition sample_popup :: "nat \<Rightarrow> popup" where
  "sample_popup i = \<lparr>p_auth = i, p_state = Some (us ''QQ==''), p_redirect = us ''/r'', p_callback = AccessCodeWithForm\<rparr>"

definition code_query :: "string \<Rightarrow> jstr" where
  "code_query c = us ''?code='' @ us c"

lemma sample_opened:
  "oauth2_authorize (\<lambda>a b. a) (\<lambda>s. [7]) r [65] None (Some (us ''/r'')) (pkce_config False) (auth.truncate sample_new) =
    Inr (Opened sample_url (us ''QQ=='') AccessCodeWithForm (Some (generateCodeVerifier r)))"
proof -
  have "query_parts (\<lambda>s. [7]) v (us ''QQ=='') (pkce_config False) (auth.truncate sample_new) (us ''/r'') =
    query_parts (\<lambda>s. [7]) [] (us ''QQ=='') (pkce_config False) (auth.truncate sample_new) (us ''/r'')" for v
    by (simp add: query_parts_def createCodeChallenge_def)
  moreover have "oauth2_authorize (\<lambda>a b. a) (\<lambda>s. [7]) [] [65] None (Some (us ''/r'')) (pkce_config False) (auth.truncate sample_new) =
    Inr (Opened sample_url (us ''QQ=='') AccessCodeWithForm (Some []))" by code_simp
  moreover have "us (fromByteArray [65]) = us ''QQ==''" by code_simp
  ultimately show ?thesis
    unfolding oauth2_authorize_def Let_def by (auto simp: map_js_eq simp del: us_simps split: if_splits)
qed

lemma sample_click:
  assumes "auth.truncate (form_object b) = auth.truncate sample_new"
  shows "ui_step sample_env (Authorize r [65]) b =
    ((keep_verifier (generateCodeVerifier r) b)\<lparr>waiting := Some (sample_popup (form b))\<rparr>, OpenedAt sample_url)"
  using sample_opened [of r] assms
  by (simp add: ui_step_def authorize_click_def sample_env_def sample_popup_def Let_def del: us_simps)

lemma sample_flow: "flow sample_new = us ''accessCode''" "auth_code sample_new = None"
  by (simp_all add: sample_new_def new_session_def)

lemma sample_redirects:
  "redirect_run parse (us ''accessCode'') None (Some (us ''QQ=='')) [] (code_query ''one'') =
    Inr [UnsafeWarning, CodeCallback (us ''one'')]"
  "redirect_run parse (us ''accessCode'') None (Some (us ''QQ=='')) [] (code_query ''two'') =
    Inr [UnsafeWarning, CodeCallback (us ''two'')]"
  "redirect_run parse (us ''accessCode'') (Some (us ''one'')) (Some (us ''QQ=='')) [] (code_query ''two'') =
    Inr [TokenCallback [(us ''code'', us ''two'')] False]"
proof -
  have "plain_query (redirect_query [] (code_query ''one''))" "plain_query (redirect_query [] (code_query ''two''))"
    unfolding plain_query_def by code_simp+
  then have p: "page_params parse (redirect_query [] (code_query ''one'')) = redirect_params (redirect_query [] (code_query ''one''))"
    "page_params parse (redirect_query [] (code_query ''two'')) = redirect_params (redirect_query [] (code_query ''two''))"
    by (simp_all add: page_params_def)
  have q: "redirect_params (redirect_query [] (code_query ''one'')) = Inr [(us ''code'', us ''one'')]"
    "redirect_params (redirect_query [] (code_query ''two'')) = Inr [(us ''code'', us ''two'')]"
    "us ''code'' \<noteq> us ''state''" "us ''one'' \<noteq> []" "us ''two'' \<noteq> []" by code_simp+
  show "redirect_run parse (us ''accessCode'') None (Some (us ''QQ=='')) [] (code_query ''one'') =
    Inr [UnsafeWarning, CodeCallback (us ''one'')]"
    "redirect_run parse (us ''accessCode'') None (Some (us ''QQ=='')) [] (code_query ''two'') =
    Inr [UnsafeWarning, CodeCallback (us ''two'')]"
    "redirect_run parse (us ''accessCode'') (Some (us ''one'')) (Some (us ''QQ=='')) [] (code_query ''two'') =
    Inr [TokenCallback [(us ''code'', us ''two'')] False]"
    unfolding redirect_run_def p q(1,2) using q(3-5) by (simp_all add: truthy_def del: us_simps)
qed

text \<open>The three returns of the runs below: with the first code, with the second one to an object that
  holds the first, and with the second one to an object that holds none.\<close>

lemma sample_return:
  assumes "waiting b = Some (sample_popup i)" and "flow (objects b ! i) = us ''accessCode''"
  shows "auth_code (objects b ! i) = None \<Longrightarrow> c = ''one'' \<or> c = ''two'' \<Longrightarrow>
      ui_step sample_env (Return [] (code_query c)) b =
      (let b' = upd_object i (\<lambda>t. t\<lparr>auth_code := Some (us c)\<rparr>) (b\<lparr>waiting := Some ((sample_popup i)\<lparr>p_state := None\<rparr>)\<rparr>)
       in (b', Outcome True (sent (authorizeAccessCodeWithFormParams (objects b' ! i) (us ''/r'')))))"
    and "auth_code (objects b ! i) = Some (us ''one'') \<Longrightarrow>
      ui_step sample_env (Return [] (code_query ''two'')) b =
      (b, Outcome False (sent (authorizeAccessCodeWithFormParams (objects b ! i) (us ''/r''))))"
  using assms sample_redirects
  by (auto simp: ui_step_def page_return_def page_calls_def sample_popup_def code_request_def Let_def simp del: us_simps)

definition sample_tried :: "string \<Rightarrow> session" where
  "sample_tried v = sample_new\<lparr>codeVerifier := Some v, auth_code := Some (us ''one'')\<rparr>"

definition sample_edited :: "string \<Rightarrow> string \<Rightarrow> session" where
  "sample_edited v c = sample_new\<lparr>codeVerifier := Some v, auth_code := Some (us c), clientSecret := Some (us ''s'')\<rparr>"

lemma sample_edited_first:
  "sample_new\<lparr>codeVerifier := Some v, clientSecret := Some (us ''s''), auth_code := Some (us c)\<rparr> = sample_edited v c"
  by (simp add: sample_edited_def del: us_simps)

definition sample_edit :: edit where
  "sample_edit = onInputChange ClientSecret (us ''s'')"

definition sample_request :: "string \<Rightarrow> string \<Rightarrow> token_request" where
  "sample_request c s = \<lparr>request_to = Some (us ''/t''), extra_headers = [],
     request_body = us ''grant_type=authorization_code&code='' @ us c @ us ''&client_id=me'' @ us s\<rparr>"

lemma sample_requests:
  "authorizeAccessCodeWithFormParams (sample_tried ''AA'') (us ''/r'') =
    Inr (sample_request ''one'' ''&redirect_uri=%2Fr&code_verifier=AA'')"
  "authorizeAccessCodeWithFormParams (sample_edited ''AQ'' ''one'') (us ''/r'') =
    Inr (sample_request ''one'' ''&client_secret=s&redirect_uri=%2Fr&code_verifier=AQ'')"
  "authorizeAccessCodeWithFormParams (sample_edited ''AQ'' ''two'') (us ''/r'') =
    Inr (sample_request ''two'' ''&client_secret=s&redirect_uri=%2Fr&code_verifier=AQ'')"
  "generateCodeVerifier [0] = ''AA''" "generateCodeVerifier [1] = ''AQ''"
  by code_simp+

lemma sample_truncate:
  "auth.truncate (sample_new\<lparr>codeVerifier := v\<rparr>) = auth.truncate sample_new"
  "auth.truncate (sample_new\<lparr>codeVerifier := v, clientSecret := s\<rparr>) = auth.truncate sample_new"
  "auth.truncate (sample_new\<lparr>codeVerifier := v, auth_code := c, clientSecret := s\<rparr>) = auth.truncate sample_new"
  by (simp_all add: auth.truncate_def)

lemma sample_start:
  "ui_step sample_env (Authorize r [65]) (new_form sample_new) =
    (\<lparr>objects = [sample_new\<lparr>codeVerifier := Some (generateCodeVerifier r)\<rparr>], waiting = Some (sample_popup 0)\<rparr>,
     OpenedAt sample_url)"
  by (subst sample_click) (simp_all add: new_form_def form_object_def form_def keep_verifier_def upd_object_def)

lemma sample_edit_step:
  "ui_step sample_env (Edit sample_edit) b =
    (b\<lparr>objects := objects b @ [(form_object b)\<lparr>clientSecret := Some (us ''s'')\<rparr>]\<rparr>, Edited)"
  by (simp add: ui_step_def edit_form_def sets_state_def sample_edit_def apply_edit_def input_change_def del: us_simps)

text \<open>A second attempt after an edit: the code of the first one is sent again.\<close>

definition tried_browser :: "string \<Rightarrow> browser" where
  "tried_browser v = \<lparr>objects = [sample_tried v], waiting = Some ((sample_popup 0)\<lparr>p_state := None\<rparr>)\<rparr>"

lemma sample_first_return:
  "ui_step sample_env (Return [] (code_query ''one''))
      \<lparr>objects = [sample_new\<lparr>codeVerifier := Some v\<rparr>], waiting = Some (sample_popup 0)\<rparr> =
    (tried_browser v, Outcome True (sent (authorizeAccessCodeWithFormParams (sample_tried v) (us ''/r''))))"
  by (subst sample_return(1) [of _ 0])
    (simp_all add: sample_flow tried_browser_def sample_tried_def upd_object_def Let_def del: us_simps)

lemma sample_again:
  "ui_run sample_env [Edit sample_edit, Authorize [1] [65], Return [] (code_query ''two'')] (tried_browser ''AA'') =
    (\<lparr>objects = [sample_tried ''AA'', sample_edited ''AQ'' ''one''], waiting = Some (sample_popup 1)\<rparr>,
     [Edited, OpenedAt sample_url,
      Outcome False (Exchange (sample_request ''one'' ''&client_secret=s&redirect_uri=%2Fr&code_verifier=AQ''))])"
proof -
  let ?b1 = "\<lparr>objects = [sample_tried ''AA'', (sample_tried ''AA'')\<lparr>clientSecret := Some (us ''s'')\<rparr>],
    waiting = Some ((sample_popup 0)\<lparr>p_state := None\<rparr>)\<rparr>"
  let ?b2 = "\<lparr>objects = [sample_tried ''AA'', sample_edited ''AQ'' ''one''], waiting = Some (sample_popup 1)\<rparr>"
  have 1: "ui_step sample_env (Edit sample_edit) (tried_browser ''AA'') = (?b1, Edited)"
    by (simp add: sample_edit_step tried_browser_def form_object_def form_def del: us_simps)
  have 2: "ui_step sample_env (Authorize [1] [65]) ?b1 = (?b2, OpenedAt sample_url)"
    by (subst sample_click) (simp_all add: form_object_def form_def keep_verifier_def upd_object_def sample_requests(5)
        sample_tried_def sample_edited_def sample_truncate del: us_simps)
  have 3: "ui_step sample_env (Return [] (code_query ''two'')) ?b2 =
      (?b2, Outcome False (Exchange (sample_request ''one'' ''&client_secret=s&redirect_uri=%2Fr&code_verifier=AQ'')))"
    by (subst sample_return(2) [of _ 1])
      (simp_all add: sample_requests(2) sent_def del: us_simps, simp_all add: sample_edited_def sample_flow del: us_simps)
  show ?thesis unfolding ui_run.simps 1 2 3 Let_def prod.case snd_conv ..
qed

theorem stale_code_witness:
  "\<exists>c. param_sent (sample_request ''one'' ''&redirect_uri=%2Fr&code_verifier=AA'') (us ''code'') = Some c \<and>
     param_sent (sample_request ''one'' ''&client_secret=s&redirect_uri=%2Fr&code_verifier=AQ'') (us ''code'') = Some c"
proof -
  let ?b = "\<lparr>objects = [sample_new\<lparr>codeVerifier := Some ''AA''\<rparr>], waiting = Some (sample_popup 0)\<rparr>"
  have b: "?b = fst (ui_run sample_env [Authorize [0] [65]] (new_form sample_new))"
    by (simp add: sample_start sample_requests(4) Let_def)
  have f: "is_code_flow (us ''accessCode'')" by (simp add: is_code_flow_def del: us_simps)
  have r: "ui_step sample_env (Return [] (code_query ''one'')) ?b = (tried_browser ''AA'',
      Outcome True (Exchange (sample_request ''one'' ''&redirect_uri=%2Fr&code_verifier=AA'')))"
    by (simp add: sample_first_return sample_requests(1) sent_def del: us_simps)
  have "p_auth (sample_popup 0) = form ?b" by (simp add: form_def sample_popup_def)
  then show ?thesis
    using stale_code [OF b [unfolded sample_new_def] f _ r [unfolded sample_new_def],
        where evs' = "[Edit sample_edit, Authorize [1] [65], Return [] (code_query ''two'')]"]
    unfolding sample_again by (auto simp: sample_new_def)
qed

text \<open>An edit while the window is open: the code goes to the old object, and the next attempt, with the
  same form, sends the code of its own.\<close>

lemma edited_attempt_fresh:
  "snd (ui_run sample_env [Authorize [0] [65], Edit sample_edit, Return [] (code_query ''one''),
      Authorize [1] [65], Return [] (code_query ''two'')] (new_form sample_new)) =
    [OpenedAt sample_url, Edited,
     Outcome True (Exchange (sample_request ''one'' ''&redirect_uri=%2Fr&code_verifier=AA'')), OpenedAt sample_url,
     Outcome True (Exchange (sample_request ''two'' ''&client_secret=s&redirect_uri=%2Fr&code_verifier=AQ''))]"
proof -
  let ?t = "\<lambda>v. sample_new\<lparr>codeVerifier := Some v, clientSecret := Some (us ''s'')\<rparr>"
  let ?b1 = "\<lparr>objects = [sample_new\<lparr>codeVerifier := Some ''AA''\<rparr>], waiting = Some (sample_popup 0)\<rparr>"
  let ?b2 = "\<lparr>objects = [sample_new\<lparr>codeVerifier := Some ''AA''\<rparr>, ?t ''AA''], waiting = Some (sample_popup 0)\<rparr>"
  let ?b3 = "\<lparr>objects = [sample_tried ''AA'', ?t ''AA''], waiting = Some ((sample_popup 0)\<lparr>p_state := None\<rparr>)\<rparr>"
  let ?b4 = "\<lparr>objects = [sample_tried ''AA'', ?t ''AQ''], waiting = Some (sample_popup 1)\<rparr>"
  let ?b5 = "\<lparr>objects = [sample_tried ''AA'', sample_edited ''AQ'' ''two''], waiting = Some ((sample_popup 1)\<lparr>p_state := None\<rparr>)\<rparr>"
  have 1: "ui_step sample_env (Authorize [0] [65]) (new_form sample_new) = (?b1, OpenedAt sample_url)"
    by (simp add: sample_start sample_requests(4))
  have 2: "ui_step sample_env (Edit sample_edit) ?b1 = (?b2, Edited)"
    by (simp add: sample_edit_step form_object_def form_def del: us_simps)
  have 3: "ui_step sample_env (Return [] (code_query ''one'')) ?b2 =
      (?b3, Outcome True (Exchange (sample_request ''one'' ''&redirect_uri=%2Fr&code_verifier=AA'')))"
    using sample_requests(1)
    by (subst sample_return(1) [of _ 0])
      (simp_all add: sample_flow sample_tried_def upd_object_def Let_def sent_def del: us_simps)
  have 4: "ui_step sample_env (Authorize [1] [65]) ?b3 = (?b4, OpenedAt sample_url)"
    by (subst sample_click) (simp_all add: form_object_def form_def keep_verifier_def upd_object_def sample_requests(5)
        sample_truncate del: us_simps)
  have 5: "ui_step sample_env (Return [] (code_query ''two'')) ?b4 =
      (?b5, Outcome True (Exchange (sample_request ''two'' ''&client_secret=s&redirect_uri=%2Fr&code_verifier=AQ'')))"
    using sample_requests(3)
    by (subst sample_return(1) [of _ 1])
      (simp_all add: sample_flow sample_edited_first upd_object_def Let_def sent_def del: us_simps)
  show ?thesis unfolding ui_run.simps 1 2 3 4 5 Let_def prod.case snd_conv ..
qed

theorem pkce_exchange_witness:
  "\<exists>r. ui_step sample_env (Return [] (code_query ''one''))
      \<lparr>objects = [sample_new\<lparr>codeVerifier := Some (generateCodeVerifier (replicate 32 0))\<rparr>], waiting = Some (sample_popup 0)\<rparr> =
      (tried_browser (generateCodeVerifier (replicate 32 0)), Outcome True (Exchange r)) \<and>
    param_sent r (us ''code_verifier'') = Some (us (generateCodeVerifier (replicate 32 0)))"
proof -
  let ?v = "generateCodeVerifier (replicate 32 0)"
  let ?r = "sample_request ''one'' ''&redirect_uri=%2Fr&code_verifier=AAAAAAAAAAAAAAAAAAAAAAAAAAAAAAAAAAAAAAAAAAA''"
  let ?b1 = "\<lparr>objects = [sample_new\<lparr>codeVerifier := Some ?v\<rparr>], waiting = Some (sample_popup 0)\<rparr>"
  have v: "?v = ''AAAAAAAAAAAAAAAAAAAAAAAAAAAAAAAAAAAAAAAAAAA''" by code_simp
  have "authorizeAccessCodeWithFormParams (sample_tried ''AAAAAAAAAAAAAAAAAAAAAAAAAAAAAAAAAAAAAAAAAAA'') (us ''/r'') = Inr ?r"
    by code_simp
  then have q: "authorizeAccessCodeWithFormParams (sample_tried ?v) (us ''/r'') = Inr ?r" unfolding v .
  have r: "ui_step sample_env (Return [] (code_query ''one'')) ?b1 = (tried_browser ?v, Outcome True (Exchange ?r))"
    unfolding sample_first_return q by (simp add: sent_def)
  then have r': "ui_step sample_env (Return [] (code_query ''one'')) (fst (ui_run sample_env (map Edit []) ?b1)) =
      (tried_browser ?v, Outcome True (Exchange ?r))" by simp
  have "uses_pkce (e_config sample_env) (flow (form_object (new_form sample_new)))"
    by (simp add: uses_pkce_def pkce_config_def sample_env_def new_form_def form_object_def form_def sample_flow del: us_simps)
  moreover have "objects (new_form sample_new) \<noteq> []" by (simp add: new_form_def)
  moreover have "\<not> useBasic (e_config sample_env)" by (simp add: pkce_config_def sample_env_def)
  ultimately show ?thesis
    using pkce_exchange [OF sample_start [of "replicate 32 0"] _ _ _ r'] r by auto
qed

definition sample_password :: session where
  "sample_password = sample_new\<lparr>username := us ''a b'', user_password := us ''x&y'', clientSecret := Some (us ''s:1'')\<rparr>"

lemma sample_password_request:
  "grant_request ByPassword sample_password [] = Inr
    \<lparr>request_to = Some (us ''/t''),
     extra_headers = [(us ''Authorization'', us ''Basic bWU6czox'')],
     request_body = us ''grant_type=password&username=a+b&password=x%26y''\<rparr>"
  by code_simp

theorem token_request_reads_witness:
  "form_fields (us ''grant_type=password&username=a+b&password=x%26y'') =
      Inr (grant_params ByPassword sample_password []) \<and>
    credentials_of \<lparr>request_to = Some (us ''/t''),
       extra_headers = [(us ''Authorization'', us ''Basic bWU6czox'')],
       request_body = us ''grant_type=password&username=a+b&password=x%26y''\<rparr> =
      grant_credentials ByPassword sample_password"
proof -
  have "58 \<notin> set (shown (clientId sample_password))" "wf16 (shown (clientId sample_password))"
    "wf16 (shown (clientSecret sample_password))" by code_simp+
  from token_request_reads [OF sample_password_request this] show ?thesis by simp
qed

end
