(* ===== verification/Js_DeepLink.thy ===== *)
theory Js_DeepLink
  imports Js_Uri Js_Sanitize
begin

text \<open>
  The deep links of the API browser, which \<open>doc/index.html\<close> switches on: what is unfolded on the
  page is kept in the fragment of its address. The layout state (actions and reducer \<open>SHOW\<close> of the
  plugin \<open>layout\<close>, \<open>SCROLL_TO\<close> and \<open>CLEAR_SCROLL\<close> of \<open>deep-linking/layout.js\<close>), the wrapped action
  \<open>show\<close> (minified \<open>C\<close>), \<open>parseDeepLinkHash\<close> (\<open>A\<close>), the wrapped action \<open>loaded\<close>, \<open>setHash\<close> and
  \<open>createDeepLinkPath\<close> (\<open>Ze\<close>) of \<open>swagger-ui.js\<close>.

  A key is the list of strings that names a tag or an operation. An exception inside a wrapped
  action is logged and dropped. The fragment percent-encodes none of the characters written here.
\<close>

type_synonym key = "jstr list"

record layout =
  shown :: "key \<Rightarrow> bool option"
  scrollToKey :: "key option"
  hash :: jstr

definition operations :: jstr where "operations = us ''operations''"
definition operations_tag :: jstr where "operations_tag = us ''operations-tag''"

definition new_layout :: "jstr \<Rightarrow> layout" where
  "new_layout h = \<lparr>shown = (\<lambda>k. None), scrollToKey = None, hash = h\<rparr>"

definition isShown :: "layout \<Rightarrow> key \<Rightarrow> bool option \<Rightarrow> bool option" where
  "isShown st k def = (case shown st k of None \<Rightarrow> def | Some b \<Rightarrow> Some b)"

definition scrollTo :: "key \<Rightarrow> layout \<Rightarrow> layout" where
  "scrollTo k st = st\<lparr>scrollToKey := Some k\<rparr>"

definition clearScrollTo :: "layout \<Rightarrow> layout" where
  "clearScrollTo st = st\<lparr>scrollToKey := None\<rparr>"

text \<open>\<open>readyToScroll\<close>: whether the element of the key is scrolled to, and the state then.\<close>

definition readyToScroll :: "key \<Rightarrow> layout \<Rightarrow> bool \<times> layout" where
  "readyToScroll k st =
     (if scrollToKey st = Some k then (True, clearScrollTo st) else (False, st))"

definition setHash :: "jstr \<Rightarrow> layout \<Rightarrow> layout" where
  "setHash v st = st\<lparr>hash := (if v \<noteq> [] then 35 # v else [])\<rparr>"

definition createDeepLinkPath :: "jstr \<Rightarrow> jstr" where
  "createDeepLinkPath s = replace_unit js_space (us ''%20'') (trim_js s)"

text \<open>A missing element of a key is the value \<open>undefined\<close>, which is encoded as its name.\<close>

definition key_arg :: "key \<Rightarrow> nat \<Rightarrow> jstr" where
  "key_arg k i = (if i < length k then k ! i else us ''undefined'')"

definition urlHashArrayFromIsShownKey :: "key \<Rightarrow> jstr list" where
  "urlHashArrayFromIsShownKey k =
     (if k \<noteq> [] \<and> hd k = operations then [key_arg k 1, key_arg k 2]
      else if k \<noteq> [] \<and> hd k = operations_tag then [key_arg k 1]
      else [])"

definition hash_path :: "jstr list \<Rightarrow> jstr js" where
  "hash_path l =
     map_js (\<lambda>ps. createDeepLinkPath (concat (map ((#) 47) ps))) (mapM_js encodeURIComponent l)"

definition show_key :: "bool \<Rightarrow> key \<Rightarrow> bool \<Rightarrow> layout \<Rightarrow> layout" where
  "show_key deepLinking k b st =
     (let st1 = st\<lparr>shown := (shown st)(k \<mapsto> b)\<rparr>; l = urlHashArrayFromIsShownKey k in
      if \<not> deepLinking \<or> l = [] then st1
      else if \<not> b then setHash [47] st1
      else case hash_path l of Inl e \<Rightarrow> st1 | Inr p \<Rightarrow> setHash p st1)"

definition isShownKeyFromUrlHashArray :: "jstr list \<Rightarrow> key" where
  "isShownKeyFromUrlHashArray xs =
     (if 1 < length xs \<and> xs ! 1 \<noteq> [] then [operations, xs ! 0, xs ! 1]
      else if xs \<noteq> [] \<and> hd xs \<noteq> [] then [operations_tag, hd xs]
      else [])"

definition unscored :: "jstr \<Rightarrow> jstr" where
  "unscored s = replace_unit (\<lambda>c. c = 95) [32] s"

definition drop_if :: "unit16 \<Rightarrow> jstr \<Rightarrow> jstr" where
  "drop_if c s = (if s \<noteq> [] \<and> hd s = c then tl s else s)"

definition parseDeepLinkHash :: "bool \<Rightarrow> jstr \<Rightarrow> layout \<Rightarrow> layout" where
  "parseDeepLinkHash deepLinking raw st =
     (if \<not> deepLinking \<or> raw = [] then st
      else
        let c = isShownKeyFromUrlHashArray (split_at 47 (drop_if 47 (drop_if 33 (drop 1 raw))));
            tag = (if 1 < length c then c ! 1 else []);
            oid = (if 2 < length c then c ! 2 else []);
            st1 =
              (if c \<noteq> [] \<and> hd c = operations then
                 let y = isShownKeyFromUrlHashArray [tag] in
                 show_key deepLinking y True
                   (if 95 \<in> set tag then show_key deepLinking (map unscored y) True st else st)
               else st);
            st2 =
              (if 95 \<in> set tag \<or> 95 \<in> set oid
               then show_key deepLinking (map unscored c) True st1 else st1)
        in scrollTo c (show_key deepLinking c True st2))"

definition loaded :: "bool \<Rightarrow> layout \<Rightarrow> layout" where
  "loaded deepLinking st =
     (case decodeURIComponent (hash st) of
        Inl e \<Rightarrow> st
      | Inr n \<Rightarrow> parseDeepLinkHash deepLinking n st)"

subsection \<open>The address written\<close>

lemma single_not_space: "uri_unescaped c \<or> c = 37 \<or> c = 47 \<Longrightarrow> \<not> js_space c"
proof -
  assume a: "uri_unescaped c \<or> c = 37 \<or> c = 47"
  then have "33 \<le> unat c \<and> unat c \<le> 126"
    by (auto simp: uri_unescaped_def alnum16_def word_le_nat_alt)
  then show ?thesis using space_range [of c] by linarith
qed

lemma path_plain:
  assumes "\<forall>c \<in> set s. uri_unescaped c \<or> c = 37 \<or> c = 47"
  shows "createDeepLinkPath s = s"
proof -
  have n: "\<forall>c \<in> set s. \<not> js_space c" using assms single_not_space by blast
  then have "trim_js s = s" by (intro trim_id) auto
  then show ?thesis using n by (simp add: createDeepLinkPath_def replace_unit_id)
qed

lemma hash_path_two:
  assumes "encodeURIComponent a = Inr a'" "encodeURIComponent b = Inr b'"
  shows "hash_path [a, b] = Inr (47 # a' @ 47 # b')"
proof -
  have "createDeepLinkPath (47 # a' @ 47 # b') = 47 # a' @ 47 # b'"
    using encode_alphabet [OF assms(1)] encode_alphabet [OF assms(2)] by (intro path_plain) auto
  then show ?thesis using assms by (simp add: hash_path_def)
qed

lemma decode_link:
  assumes "encodeURIComponent a = Inr a'" "encodeURIComponent b = Inr b'"
  shows "decodeURIComponent (35 # 47 # a' @ 47 # b') = Inr (35 # 47 # a @ 47 # b)"
proof -
  have q: "quote_ok [39]" by (simp add: quote_ok_def)
  have "decodeURIComponent b' = Inr b" by (rule uri.dec_enc [OF assms(2)])
  moreover have "decodeURIComponent (a' @ 47 # b') = map_js ((@) a) (decodeURIComponent (47 # b'))"
    using decode_encode_append [OF q assms(1), of "47 # b'"] by simp
  ultimately show ?thesis by simp
qed


subsection \<open>Reloading a link\<close>

lemma show_key_shown [simp]: "shown (show_key d k b st) = (shown st)(k \<mapsto> b)"
  by (simp add: show_key_def Let_def setHash_def split: sum.split)

lemma show_operation_hash:
  assumes "encodeURIComponent a = Inr a'" "encodeURIComponent b = Inr b'"
  shows "hash (show_key True [operations, a, b] True st) = 35 # 47 # a' @ 47 # b'"
  using hash_path_two [OF assms]
  by (simp add: show_key_def urlHashArrayFromIsShownKey_def key_arg_def setHash_def Let_def)

lemma split_at_no_sep: "p \<in> set (split_at c s) \<Longrightarrow> c \<notin> set p"
proof (induction s arbitrary: p)
  case (Cons x s)
  then show ?case by (cases "split_at c s") (auto split: if_splits)
qed simp

lemma parse_final:
  assumes "c = isShownKeyFromUrlHashArray (split_at 47 (drop_if 47 (drop_if 33 (drop 1 raw))))"
    "raw \<noteq> []"
  obtains st2 where "parseDeepLinkHash True raw st = scrollTo c (show_key True c True st2)"
    "c \<noteq> [] \<and> hd c = operations \<Longrightarrow>
      length c = 3 \<and> shown st2 (isShownKeyFromUrlHashArray [c ! 1]) = Some True"
proof -
  define tag where "tag = (if 1 < length c then c ! 1 else [])"
  define oid where "oid = (if 2 < length c then c ! 2 else [])"
  define st1 where "st1 = (if c \<noteq> [] \<and> hd c = operations then
      let y = isShownKeyFromUrlHashArray [tag] in
      show_key True y True (if 95 \<in> set tag then show_key True (map unscored y) True st else st)
    else st)"
  define st2 where "st2 = (if 95 \<in> set tag \<or> 95 \<in> set oid
      then show_key True (map unscored c) True st1 else st1)"
  have "parseDeepLinkHash True raw st = scrollTo c (show_key True c True st2)"
    using assms by (simp add: parseDeepLinkHash_def Let_def st2_def st1_def tag_def oid_def)
  moreover have "length c = 3 \<and> shown st2 (isShownKeyFromUrlHashArray [c ! 1]) = Some True"
    if "c \<noteq> [] \<and> hd c = operations"
  proof -
    have l: "length c = 3"
      using that assms(1) by (auto simp: isShownKeyFromUrlHashArray_def operations_def operations_tag_def
          split: if_splits)
    then have "tag = c ! 1" by (simp add: tag_def)
    then have "shown st1 (isShownKeyFromUrlHashArray [c ! 1]) = Some True"
      using that by (simp add: st1_def Let_def)
    moreover have "length (isShownKeyFromUrlHashArray [c ! 1]) \<noteq> length (map unscored c)"
      using l by (simp add: isShownKeyFromUrlHashArray_def)
    ultimately show ?thesis using l by (auto simp: st2_def)
  qed
  ultimately show thesis using that by blast
qed


lemma link_key:
  assumes "tag \<noteq> []" "oid \<noteq> []"
  shows "isShownKeyFromUrlHashArray (split_at 47 (tag @ 47 # oid)) = [operations, tag, oid] \<longleftrightarrow>
    47 \<notin> set tag \<and> 47 \<notin> set oid"
proof
  assume "47 \<notin> set tag \<and> 47 \<notin> set oid"
  then show "isShownKeyFromUrlHashArray (split_at 47 (tag @ 47 # oid)) = [operations, tag, oid]"
    using assms(2) by (simp add: split_at_sep split_at_absent isShownKeyFromUrlHashArray_def)
next
  let ?xs = "split_at 47 (tag @ 47 # oid)"
  assume "isShownKeyFromUrlHashArray ?xs = [operations, tag, oid]"
  then have "1 < length ?xs" "?xs ! 0 = tag" "?xs ! 1 = oid"
    by (auto simp: isShownKeyFromUrlHashArray_def split: if_splits)
  then have "tag \<in> set ?xs" "oid \<in> set ?xs"
    by (metis One_nat_def less_trans nth_mem zero_less_one)+
  then show "47 \<notin> set tag \<and> 47 \<notin> set oid" using split_at_no_sep by blast
qed

text \<open>C31. A link to an operation, opened again. Unfolding an operation writes its tag and id into the
  fragment; a page that starts from that fragment unfolds and scrolls to one entry, and that entry
  is the operation, with its tag unfolded and the fragment as it was, if neither name holds a slash.
  With a slash it is another entry: the fragment is decoded before it is split.\<close>

theorem deep_link_reload:
  fixes tag oid :: jstr and st :: layout
  defines "saved \<equiv> show_key True [operations, tag, oid] True st"
  defines "fresh \<equiv> loaded True (new_layout (hash saved))"
  assumes "tag \<noteq> []" "oid \<noteq> []" "wf16 tag" "wf16 oid"
  shows "\<exists>k. scrollToKey fresh = Some k \<and> isShown fresh k None = Some True \<and>
    (if 47 \<notin> set tag \<and> 47 \<notin> set oid
     then k = [operations, tag, oid] \<and> isShown fresh [operations_tag, tag] None = Some True \<and>
       hash fresh = hash saved
     else k \<noteq> [operations, tag, oid])"
proof -
  obtain t' o' where e: "encodeURIComponent tag = Inr t'" "encodeURIComponent oid = Inr o'"
    using encode_outcome [of tag] encode_outcome [of oid] assms by auto
  have h: "hash saved = 35 # 47 # t' @ 47 # o'" unfolding saved_def by (rule show_operation_hash [OF e])
  let ?raw = "35 # 47 # tag @ 47 # oid" and ?st = "new_layout (hash saved)"
  have f: "fresh = parseDeepLinkHash True ?raw ?st"
    unfolding fresh_def using decode_link [OF e] by (simp add: loaded_def new_layout_def h)
  define c where "c = isShownKeyFromUrlHashArray (split_at 47 (tag @ 47 # oid))"
  have c: "c = isShownKeyFromUrlHashArray (split_at 47 (drop_if 47 (drop_if 33 (drop 1 ?raw))))"
    by (simp add: c_def drop_if_def)
  obtain st2 where p: "fresh = scrollTo c (show_key True c True st2)"
      "c \<noteq> [] \<and> hd c = operations \<Longrightarrow>
        length c = 3 \<and> shown st2 (isShownKeyFromUrlHashArray [c ! 1]) = Some True"
    using parse_final [OF c, of ?st thesis] f by auto
  have "isShown fresh [operations_tag, tag] None = Some True \<and> hash fresh = hash saved"
    if "c = [operations, tag, oid]"
  proof -
    have "shown st2 [operations_tag, tag] = Some True"
      using p(2) assms(3) by (simp add: that isShownKeyFromUrlHashArray_def)
    then show ?thesis
      using show_operation_hash [OF e, of st2] h
      by (simp add: p(1) that isShown_def scrollTo_def)
  qed
  moreover have "scrollToKey fresh = Some c" "isShown fresh c None = Some True"
    by (simp_all add: p(1) scrollTo_def isShown_def)
  moreover have "c = [operations, tag, oid] \<longleftrightarrow> 47 \<notin> set tag \<and> 47 \<notin> set oid"
    unfolding c_def by (rule link_key [OF assms(3,4)])
  ultimately show ?thesis by auto
qed

lemma deep_link_reload_witness:
  "\<exists>k. scrollToKey (loaded True (new_layout (hash (show_key True [operations, us ''a/b'', us ''getIp''] True (new_layout []))))) = Some k \<and>
    k \<noteq> [operations, us ''a/b'', us ''getIp'']"
proof -
  have "wf16 (us ''a/b'')" "wf16 (us ''getIp'')" "47 \<in> set (us ''a/b'')" by code_simp+
  then show ?thesis using deep_link_reload [of "us ''a/b''" "us ''getIp''" "new_layout []"] by (auto simp del: us_simps simp: us_def)
qed

end
