(* ===== verification/Spec2Isabelle.thy ===== *)
theory Spec2Isabelle
  imports Rest_System Conn_Transport Command_Line Kube_Patch Js_Start Js_Tokens Js_DeepLink
begin

text \<open>
  A verification development for rest2dhcp, a relay that gives out DHCP leases over a REST
  interface. The service is written in Go; under \<open>doc/\<close> it carries the API browser (swagger-ui)
  that it serves to its users, as minified JavaScript. Both are modelled.

  The parts of the service. A request of the client library (\<open>client/\<close>) reaches \<open>service/\<close>,
  which reads its path and calls the DHCP client of \<open>dhcp/client.go\<close>, whose answer it turns into
  a status and a body. Each call of \<open>GetLease\<close> or \<open>Renew\<close> is a goroutine that sends packets built by
  \<open>dhcp/lease.go\<close> over a connection (\<open>dhcp/udp.go\<close>, \<open>raw.go\<close>, \<open>dual.go\<close>) and finds the answers in the lease store of
  \<open>dhcp/store.go\<close>, into which the receive loop puts them and which a cleaner empties. The
  addresses it works with come from \<open>dhcp/resolver.go\<close>, which asks the routing table
  (\<open>routing/routing_linux.go\<close>) or Kubernetes.

  Theories of the service:
  \<^item> \<open>Prelude\<close>: Go values (results with panics, byte strings, durations, channels of capacity
    one) and the contract of a keyed store with its lemmas.
  \<^item> \<open>Go_Net\<close>: the part of Go's package \<open>net\<close> the program calls, with print and parse round trips.
  \<^item> \<open>Dhcp_Packet\<close>: \<open>dhcp/lease.go\<close>. Packets as gopacket's structure, leases as records;
    pointers are options or indices into a heap of leases.
  \<^item> \<open>Lease_Store\<close>: \<open>dhcp/store.go\<close>, an instance of the keyed store, with its cleaner.
  \<^item> \<open>Dhcp_Client\<close>: the atomic pieces of \<open>dhcp/client.go\<close> and the invariant of the shared state.
  \<^item> \<open>Client_System\<close>: the goroutines of the client, interleaved: one step runs one goroutine to
    the next point where it can block, and the event carries what the environment decides.
    \<open>reach\<close> is the set of states of all interleavings; \<open>sinv\<close> is its invariant.
  \<^item> \<open>Client_Phases\<close>: an abstract machine over the phases of the leases, DISCOVER, OFFER, REQUEST and
    ACK or NAK, which the client system refines.
  \<^item> \<open>Client_Locks\<close>: who holds the lock of a lease. \<open>Client_Runs\<close>: panics, deadlocks, results and
    cancellation of whole runs, with concrete runs that reach the states talked about.
  \<^item> \<open>Conn_Transport\<close>: \<open>Send\<close> and \<open>Block\<close> of the three connections as interleaved goroutines around
    one mutex: in which reachable states the writing goroutine of a call can still end, and how a
    connection dies; the loops of \<open>Receive\<close> and the source ports. What a call of \<open>Send\<close> reports is an event of the helpers of
    \<open>Client_System\<close>.
  \<^item> \<open>Host_Names\<close>: the regular expression for host names, by derivatives, equal to a description in words.
  \<^item> \<open>Rest_Types\<close> and \<open>Rest_Service\<close>: \<open>client/\<close> and the request handling of \<open>service/\<close>.
    \<open>Rest_Routes\<close>: the way from the library through the router to a handler, on the contract of
    \<open>gorilla/mux\<close>, with a router that meets it. \<open>Rest_System\<close>: what a caller of the library gets
    for every outcome of the DHCP call behind its request.
  \<^item> \<open>Net_Routing\<close>: \<open>routing/routing_linux.go\<close>, from the messages of the kernel to the answer of \<open>RouteWithSrc\<close> for
    either family; the sorting function is a parameter that sorts.
  \<^item> \<open>Machine\<close>: the interface of an interleaved component, with what holds of its runs.
    \<open>Background\<close>: \<open>background/process.go\<close>, the life of a process with its context and
    its channel \<open>done\<close>; when \<open>Stop\<close> and \<open>Wait\<close> return. \<open>Service_Start\<close>: the choice of the resolver and \<open>Start\<close>
    of \<open>service/server.go\<close> around the DHCP client's process, with the two sockets of the connection and
    what \<open>Close\<close> does to them; the order of a shutdown, and which requests for a lease end the program.
    \<open>Command_Line\<close>: \<open>cmd/root.go\<close>, the flags with their sources, the server given by a name, and the
    main function with its interrupts around \<open>Start\<close>.
  \<^item> \<open>Kube_Patch\<close>: \<open>kubernetes/patch.go\<close>, with what the patches do to an object.
  \<^item> \<open>Conn_Types\<close>: the connection types of \<open>dhcp/types.go\<close>. \<open>Ip_Resolver\<close>: \<open>dhcp/resolver.go\<close> and
    the initialisation of the client.

  Theories of the API browser, whose five files are one minified line each; a definition is one
  function of that line, named in the texts by its name in swagger-ui and in the minified file:
  \<^item> \<open>Js_Strings\<close>: strings as UTF-16 code units, exceptions as sums, plain objects, and the contract of a
    codec as a locale, with its lemmas.
  \<^item> \<open>Js_Base64\<close>: the base64 coder; equal to the encoding of RFC 4648, stated on the string of bits
    with an alphabet of its own, and a round trip.
  \<^item> \<open>Js_Uri\<close>: percent-encoding as the language defines it, query strings, form bodies; round trips.
  \<^item> \<open>Js_Topbar\<close>: the component that chooses a definition and keeps the choice in the address.
  \<^item> \<open>Js_Start\<close>: the constructor of the API browser, and what the page of this service loads for a query
    with or without \<open>url\<close>, \<open>urls\<close>, \<open>config\<close> and \<open>configUrl\<close>.
  \<^item> \<open>Js_Sanitize\<close>: the cleaning of links; no result has a script's scheme.
  \<^item> \<open>Js_OAuth\<close>: the authorization request with its code verifier, and the page that receives the
    answer. The hash function is a parameter, and so is what \<open>JSON.parse\<close> makes of a query with a
    quotation mark or a backslash.
  \<^item> \<open>Js_Tokens\<close>: the token requests that follow, as the token endpoint reads them, and the flow as a
    whole: edits, clicks and returns of the browser as steps of one machine over the state objects of
    the form and the one the open window refers to; the answer of \<open>fetch\<close> is a parameter.
  \<^item> \<open>Js_Curl\<close>: the command line shown for a request, against what a POSIX shell reads from it.
  \<^item> \<open>Js_DeepLink\<close>: what is unfolded and the fragment of the address, one read back from the other.

  Bounds and fuel. No definition has fuel; loops that wait are steps of \<open>Client_System\<close>, so a
  theorem about all interleavings is one about \<open>reach\<close>. The receive loop of the raw connection may
  run for ever and is a partial function, with \<open>None\<close> for not returning. Machine integers keep their width: packet
  fields, transaction ids, lifetimes and the bitwise code of base64 are words; times are integers
  in nanoseconds, whose 64-bit overflow after 292 years is not modelled.

  Assumptions of the step relation. The handling of one packet by the receive loop is one step
  once its \<open>Get\<close> has the lease. \<open>sleep\<close> calls \<open>Block\<close> of the connection, which takes the lock of
  the connection before it returns: it delays the start of a pause and the packets sent during it, and
  events may come as late as they like; only on a connection that is dead in the sense of
  \<open>Conn_Transport\<close> would the pause never start. Memory is sequentially consistent under the locks.

  Not modelled: opening of sockets, metrics, redirects and static files of the REST server, the calls
  of client-go, the parsing of the command line, logging, and of the API browser everything but the functions
  named above; these are listed with reasons in the manifest.
\<close>

end
